(* ===== verification/Rt_Prelude.thy ===== *)
theory Rt_Prelude
  imports Main "HOL-Library.Word" "HOL-Library.Signed_Division"
begin

text \<open>
  What the components share: the C types of the target (an LP64 Linux: \<open>int\<close> of 32 bits,
  \<open>long\<close> and \<open>size_t\<close> of 64), the outcome of a C function that may abort or run into
  undefined behaviour, and the lemmas on ring indices, list updates and words that the
  component proofs use through the collections \<open>ring_simps\<close> and \<open>word_index\<close>.
\<close>

named_theorems ring_simps \<open>reading a ring as a list\<close>
named_theorems word_index \<open>unsigned indices as natural numbers\<close>
named_theorems c_bounds \<open>ranges of the C integer types\<close>

section \<open>C types and outcomes\<close>

type_synonym size_t = "64 word"
type_synonym byte = "8 word"

abbreviation (input) INT_MAX :: int where
  "INT_MAX \<equiv> 2147483647"

abbreviation (input) INT_MIN :: int where
  "INT_MIN \<equiv> - 2147483648"

abbreviation (input) LONG_MAX :: int where
  "LONG_MAX \<equiv> 9223372036854775807"

abbreviation (input) LONG_MIN :: int where
  "LONG_MIN \<equiv> - 9223372036854775808"

text \<open>
  The outcome of a C function: it returns, a failed \<open>assert\<close> stops the process, or the
  C standard gives the call no meaning (a null or dangling pointer, an access out of bounds,
  a read of uninitialised memory, a signed overflow, an operation on a destroyed mutex).
\<close>

datatype 'a outcome = Returned 'a | Aborted | Undefined

section \<open>Rings as lists\<close>

text \<open>
  The \<open>n\<close> slots of a ring of \<open>cap\<close> slots that start at slot \<open>t\<close>, in ring order.
\<close>

definition ring_list :: "'a list \<Rightarrow> nat \<Rightarrow> nat \<Rightarrow> nat \<Rightarrow> 'a list" where
  "ring_list xs cap t n = map (\<lambda>i. xs ! ((t + i) mod cap)) [0..<n]"

lemma length_ring_list [simp]: "length (ring_list xs cap t n) = n"
  by (simp add: ring_list_def)

lemma ring_list_0 [simp]: "ring_list xs cap t 0 = []"
  by (simp add: ring_list_def)

lemma ring_list_snoc [ring_simps]:
  "ring_list xs cap t (Suc n) = ring_list xs cap t n @ [xs ! ((t + n) mod cap)]"
  by (simp add: ring_list_def)

lemma ring_list_Cons [ring_simps]:
  "ring_list xs cap t (Suc n) = xs ! (t mod cap) # ring_list xs cap (Suc t mod cap) n"
proof -
  have "[0..<Suc n] = 0 # map Suc [0..<n]"
    by (simp add: upt_conv_Cons map_Suc_upt del: upt_Suc)
  then show ?thesis
    by (simp add: ring_list_def comp_def mod_simps del: upt_Suc)
qed

lemma ring_slot_fresh:
  assumes "i < n" and "n < cap"
  shows "(t + i) mod cap \<noteq> (t + n) mod (cap::nat)"
proof
  assume eq: "(t + i) mod cap = (t + n) mod cap"
  then have "cap dvd (t + n) - (t + i)"
    using assms mod_eq_dvd_iff_nat [of "t + i" "t + n" cap] by simp
  then have "cap dvd n - i" by simp
  with assms show False
    by (auto dest: dvd_imp_le)
qed

lemma ring_list_write [ring_simps]:
  assumes "n < cap"
  shows "ring_list (xs[(t + n) mod cap := x]) cap t n = ring_list xs cap t n"
proof -
  have "xs[(t + n) mod cap := x] ! ((t + i) mod cap) = xs ! ((t + i) mod cap)" if "i < n" for i
    using ring_slot_fresh [OF that assms, of t] by (simp add: nth_list_update_neq)
  then show ?thesis by (simp add: ring_list_def)
qed

lemma ring_list_push [ring_simps]:
  assumes "n < cap" and "length xs = cap"
  shows "ring_list (xs[(t + n) mod cap := x]) cap t (Suc n) = ring_list xs cap t n @ [x]"
  using assms by (simp add: ring_list_snoc ring_list_write)

lemma ring_list_map [ring_simps]:
  assumes "n \<le> cap" and "length xs = cap"
  shows "ring_list (map f xs) cap t n = map f (ring_list xs cap t n)"
proof (cases "cap = 0")
  case True
  with assms show ?thesis by simp
next
  case False
  with assms show ?thesis by (auto simp: ring_list_def)
qed

section \<open>Unsigned indices\<close>

lemma unat_plus_one [word_index]:
  fixes h c :: "'a::len word"
  assumes "h < c"
  shows "unat (h + 1) = Suc (unat h)"
proof -
  have "unat h < unat c" using assms by (simp add: word_less_nat_alt)
  also have "unat c < 2 ^ LENGTH('a)" by (rule unsigned_less)
  finally have "Suc (unat h) < 2 ^ LENGTH('a) \<or> LENGTH('a) = 0"
    using \<open>unat h < unat c\<close> \<open>unat c < 2 ^ LENGTH('a)\<close> by linarith
  then show ?thesis by (simp add: unat_word_ariths)
qed

lemma unat_ring_next [word_index]:
  fixes h c :: "'a::len word"
  assumes "h < c"
  shows "unat ((h + 1) mod c) = Suc (unat h) mod unat c"
  using assms by (simp add: unat_mod_distrib unat_plus_one)

lemma unat_minus_one [word_index]:
  fixes c :: "'a::len word"
  assumes "c \<noteq> 0"
  shows "unat (c - 1) = unat c - 1"
  using assms by (simp add: unat_minus_one)

lemma mod_less_word [word_index]:
  fixes h c :: "'a::len word"
  assumes "0 < c"
  shows "h mod c < c"
  using assms by (simp add: word_mod_less_divisor)

section \<open>List updates and sums\<close>

lemma sum_list_swap:
  fixes f :: "'a \<Rightarrow> nat"
  assumes "k < length xs"
  shows "sum_list (map f (xs[k := y])) + f (xs ! k) = sum_list (map f xs) + f y"
proof -
  have "f (xs ! k) \<le> sum_list (map f xs)"
    using assms by (simp add: member_le_sum_list)
  then show ?thesis
    using assms by (simp add: map_update sum_list_update)
qed

section \<open>Counting loops\<close>

text \<open>
  \<open>for_up n i f\<close> is the loop \<open>for (j = i; j < i + n; j++) f(j)\<close> whose body may fail.
\<close>

fun for_up :: "nat \<Rightarrow> nat \<Rightarrow> (nat \<Rightarrow> 's \<Rightarrow> 's option) \<Rightarrow> 's \<Rightarrow> 's option" where
  "for_up 0 i f s = Some s"
| "for_up (Suc n) i f s = (case f i s of None \<Rightarrow> None | Some s' \<Rightarrow> for_up n (Suc i) f s')"

lemma for_up_rule:
  assumes "P i s"
    and "\<And>j t. i \<le> j \<Longrightarrow> j < i + n \<Longrightarrow> P j t \<Longrightarrow> \<exists>t'. f j t = Some t' \<and> P (Suc j) t'"
  shows "\<exists>s'. for_up n i f s = Some s' \<and> P (i + n) s'"
  using assms
proof (induction n arbitrary: i s)
  case 0
  then show ?case by simp
next
  case (Suc n)
  obtain t where t: "f i s = Some t" "P (Suc i) t"
    using Suc.prems(2) [of i s] Suc.prems(1) by auto
  have "\<exists>s'. for_up n (Suc i) f t = Some s' \<and> P (Suc i + n) s'"
    using t(2) Suc.prems(2) by (intro Suc.IH) auto
  with t(1) show ?case by simp
qed

end
