(* ===== verification/Queue_Interface.thy ===== *)
theory Queue_Interface
  imports Rt_Prelude
begin

text \<open>
  What every queue of the program promises to its clients: a bounded first-in first-out queue.
  The specification is a list with a bound; the locale \<open>bounded_queue\<close> states that an
  implementation simulates it, and the lemmas on whole runs and on draining loops are proved once
  here. The ring buffer of \<open>ringbuf.c\<close> and the queue of \<open>fifo_queue.c\<close> interpret it in their own
  theories, and the byte level of the latter is refined to it.
\<close>

section \<open>The specification\<close>

definition spec_enq :: "nat \<Rightarrow> 'a list \<Rightarrow> 'a \<Rightarrow> 'a list option" where
  "spec_enq cap xs x = (if length xs < cap then Some (xs @ [x]) else None)"

definition spec_deq :: "'a list \<Rightarrow> ('a \<times> 'a list) option" where
  "spec_deq xs = (case xs of [] \<Rightarrow> None | y # ys \<Rightarrow> Some (y, ys))"

lemma spec_deq_simps [simp]:
  "spec_deq [] = None"
  "spec_deq (y # ys) = Some (y, ys)"
  by (simp_all add: spec_deq_def)

section \<open>Runs of a queue\<close>

text \<open>
  A run performs a sequence of operations (of any number of threads: each operation holds the
  queue's lock from start to end) and records the accepted and the received items.
\<close>

datatype 'a qop = Send 'a | Receive

fun q_run :: "('q \<Rightarrow> 'a \<Rightarrow> 'q option) \<Rightarrow> ('q \<Rightarrow> ('a \<times> 'q) option) \<Rightarrow> 'q \<Rightarrow> 'a qop list
    \<Rightarrow> 'q \<times> 'a list \<times> 'a list" where
  "q_run enq deq q [] = (q, [], [])"
| "q_run enq deq q (Send x # ops) =
     (case enq q x of
        None \<Rightarrow> q_run enq deq q ops
      | Some q' \<Rightarrow> (case q_run enq deq q' ops of (r, sent, got) \<Rightarrow> (r, x # sent, got)))"
| "q_run enq deq q (Receive # ops) =
     (case deq q of
        None \<Rightarrow> q_run enq deq q ops
      | Some (y, q') \<Rightarrow> (case q_run enq deq q' ops of (r, sent, got) \<Rightarrow> (r, sent, y # got)))"

text \<open>
  The loop \<open>while (receive(q, &x) == 0) ...\<close>: the received items and the queue after it;
  \<open>None\<close> is a loop that does not end.
\<close>

partial_function (option) q_drain :: "('q \<Rightarrow> ('a \<times> 'q) option) \<Rightarrow> 'q \<Rightarrow> ('a list \<times> 'q) option" where
  "q_drain deq q =
     (case deq q of
        None \<Rightarrow> Some ([], q)
      | Some (y, q') \<Rightarrow> Option.bind (q_drain deq q') (\<lambda>(ys, r). Some (y # ys, r)))"

section \<open>The interface\<close>

locale bounded_queue =
  fixes inv :: "'q \<Rightarrow> bool"
    and items :: "'q \<Rightarrow> 'a list"
    and cap :: "'q \<Rightarrow> nat"
    and enq :: "'q \<Rightarrow> 'a \<Rightarrow> 'q option"
    and deq :: "'q \<Rightarrow> ('a \<times> 'q) option"
  assumes items_bound: "inv q \<Longrightarrow> length (items q) \<le> cap q"
    and enq_items: "inv q \<Longrightarrow> map_option items (enq q x) = spec_enq (cap q) (items q) x"
    and enq_keeps: "inv q \<Longrightarrow> enq q x = Some q' \<Longrightarrow> inv q' \<and> cap q' = cap q"
    and deq_items: "inv q \<Longrightarrow> map_option (map_prod id items) (deq q) = spec_deq (items q)"
    and deq_keeps: "inv q \<Longrightarrow> deq q = Some (y, q') \<Longrightarrow> inv q' \<and> cap q' = cap q"
begin

lemma enq_full_iff: "inv q \<Longrightarrow> enq q x = None \<longleftrightarrow> length (items q) = cap q"
  using enq_items [of q x] items_bound [of q] by (auto simp: spec_enq_def split: if_splits)

lemma enq_SomeD: "inv q \<Longrightarrow> enq q x = Some q' \<Longrightarrow> items q' = items q @ [x]"
  using enq_items [of q x] by (auto simp: spec_enq_def split: if_splits)

lemma deq_empty_iff: "inv q \<Longrightarrow> deq q = None \<longleftrightarrow> items q = []"
  using deq_items [of q] by (auto simp: spec_deq_def split: list.splits)

lemma deq_SomeD: "inv q \<Longrightarrow> deq q = Some (y, q') \<Longrightarrow> items q = y # items q'"
  using deq_items [of q] by (auto simp: spec_deq_def split: list.splits)

lemmas queue_laws = enq_keeps deq_keeps enq_SomeD deq_SomeD

lemma run_sound:
  assumes "inv q" and "q_run enq deq q ops = (q', sent, got)"
  shows "inv q' \<and> cap q' = cap q \<and> items q @ sent = got @ items q'"
  using assms
proof (induction ops arbitrary: q q' sent got)
  case Nil
  then show ?case by simp
next
  case (Cons e ops)
  show ?case
  proof (cases e)
    case (Send x)
    show ?thesis
    proof (cases "enq q x")
      case None
      with Send Cons show ?thesis by simp
    next
      case (Some q1)
      obtain r s g where run: "q_run enq deq q1 ops = (r, s, g)" by (metis prod_cases3)
      then show ?thesis
        using Send Some Cons.prems Cons.IH [OF _ run] enq_keeps [OF _ Some] enq_SomeD [OF _ Some]
        by auto
    qed
  next
    case Receive
    show ?thesis
    proof (cases "deq q")
      case None
      with Receive Cons show ?thesis by simp
    next
      case (Some a)
      then obtain y q1 where d: "deq q = Some (y, q1)" by (cases a) simp
      obtain r s g where run: "q_run enq deq q1 ops = (r, s, g)" by (metis prod_cases3)
      then show ?thesis
        using Receive d Cons.prems Cons.IH [OF _ run] deq_keeps [OF _ d] deq_SomeD [OF _ d]
        by auto
    qed
  qed
qed

lemma run_refines:
  assumes "inv q"
  shows "map_prod items id (q_run enq deq q ops) = q_run (spec_enq (cap q)) spec_deq (items q) ops"
  using assms
proof (induction ops arbitrary: q)
  case Nil
  then show ?case by simp
next
  case (Cons e ops)
  show ?case
  proof (cases e)
    case (Send x)
    show ?thesis
    proof (cases "enq q x")
      case None
      with Send Cons show ?thesis by (simp add: enq_items [OF Cons.prems, symmetric])
    next
      case (Some q1)
      obtain r s g where run: "q_run enq deq q1 ops = (r, s, g)" by (metis prod_cases3)
      then have "(items r, s, g) = q_run (spec_enq (cap q)) spec_deq (items q1) ops"
        using Cons.IH [of q1] enq_keeps [OF Cons.prems Some] by simp
      note this [symmetric]
      with run Send Some show ?thesis by (simp add: enq_items [OF Cons.prems, symmetric])
    qed
  next
    case Receive
    show ?thesis
    proof (cases "deq q")
      case None
      with Receive Cons show ?thesis by (simp add: deq_items [OF Cons.prems, symmetric])
    next
      case (Some a)
      then obtain y q1 where d: "deq q = Some (y, q1)" by (cases a) simp
      obtain r s g where run: "q_run enq deq q1 ops = (r, s, g)" by (metis prod_cases3)
      then have "(items r, s, g) = q_run (spec_enq (cap q)) spec_deq (items q1) ops"
        using Cons.IH [of q1] deq_keeps [OF Cons.prems d] by simp
      note this [symmetric]
      with run Receive d show ?thesis by (simp add: deq_items [OF Cons.prems, symmetric])
    qed
  qed
qed

lemma drain_all:
  assumes "inv q"
  shows "\<exists>r. q_drain deq q = Some (items q, r) \<and> inv r \<and> items r = [] \<and> cap r = cap q"
  using assms
proof (induction "items q" arbitrary: q)
  case Nil
  then have "deq q = None" by (simp add: deq_empty_iff)
  with Nil show ?case by (simp add: q_drain.simps)
next
  case (Cons y ys)
  then have "deq q \<noteq> None"
    using deq_empty_iff [of q] by auto
  then obtain z q' where d: "deq q = Some (z, q')" by auto
  with Cons.prems Cons.hyps(2) have "items q = z # items q'" "inv q'" "cap q' = cap q" "z = y" "ys = items q'"
    using deq_SomeD [of q z q'] deq_keeps [of q z q'] by auto
  then show ?case
    using Cons.hyps(1) [of q'] d by (auto simp: q_drain.simps [of deq q])
qed

end

text \<open>
  A queue whose readiness can be polled before receiving: it is readable exactly when an item is
  there, so a receiver that polls first never finds the queue empty.
\<close>

locale pollable_queue = bounded_queue inv items cap enq deq
  for inv :: "'q \<Rightarrow> bool"
    and items :: "'q \<Rightarrow> 'a list"
    and cap :: "'q \<Rightarrow> nat"
    and enq :: "'q \<Rightarrow> 'a \<Rightarrow> 'q option"
    and deq :: "'q \<Rightarrow> ('a \<times> 'q) option" +
  fixes ready :: "'q \<Rightarrow> bool"
  assumes ready_iff: "inv q \<Longrightarrow> ready q \<longleftrightarrow> items q \<noteq> []"
begin

lemma ready_receives: "inv q \<Longrightarrow> ready q \<Longrightarrow> \<exists>q'. deq q = Some (hd (items q), q')"
  using deq_items [of q] ready_iff [of q]
  by (cases "items q") (auto simp: spec_deq_def map_prod_def split: prod.splits)

lemma drained_not_ready: "inv q \<Longrightarrow> q_drain deq q = Some (ys, r) \<Longrightarrow> \<not> ready r"
  using drain_all [of q] ready_iff [of r] by auto

end

end
