(* ===== verification/C_Format.thy ===== *)
theory C_Format
  imports Rt_Prelude
begin

text \<open>
  The text functions of the C library that the program calls, on strings as lists of characters
  (without the final NUL): decimal output (\<open>%d\<close>, \<open>%zu\<close>, \<open>%02d\<close>), \<open>snprintf\<close>'s and
  \<open>strncpy\<close>'s truncation, and \<open>strtol\<close> in base ten with its end pointer and its range
  error. They follow the C standard; nothing here models a file of the repository.
\<close>

section \<open>Decimal output\<close>

definition digit_char :: "nat \<Rightarrow> char" where
  "digit_char d = ''0123456789'' ! d"

fun show_nat :: "nat \<Rightarrow> string" where
  "show_nat n = (if n < 10 then [digit_char n] else show_nat (n div 10) @ [digit_char (n mod 10)])"

declare show_nat.simps [simp del]

definition show_int :: "int \<Rightarrow> string" where
  "show_int i = (if i < 0 then CHR ''-'' # show_nat (nat (- i)) else show_nat (nat i))"

text \<open>\<open>%0wd\<close>: zeros on the left up to the width.\<close>

definition pad0 :: "nat \<Rightarrow> string \<Rightarrow> string" where
  "pad0 w s = replicate (w - length s) CHR ''0'' @ s"

text \<open>\<open>%-ws\<close>: blanks on the right up to the width.\<close>

definition pad_right :: "nat \<Rightarrow> string \<Rightarrow> string" where
  "pad_right w s = s @ replicate (w - length s) CHR '' ''"

text \<open>The newline, and the escape sequence that sets a colour of the terminal.\<close>

definition newline :: string where "newline = [CHR 0x0A]"

definition esc :: "string \<Rightarrow> string" where
  "esc code = CHR 0x1B # ''['' @ code @ ''m''"

section \<open>Truncation\<close>

text \<open>A buffer of \<open>n\<close> bytes holds \<open>n - 1\<close> characters and the final NUL.\<close>

definition c_trunc :: "nat \<Rightarrow> string \<Rightarrow> string" where
  "c_trunc n s = take (n - 1) s"

lemma length_c_trunc: "0 < n \<Longrightarrow> length (c_trunc n s) < n"
  by (simp add: c_trunc_def)

lemma c_trunc_id: "length s < n \<Longrightarrow> c_trunc n s = s"
  by (simp add: c_trunc_def)

section \<open>Bytes in memory\<close>

text \<open>\<open>write_bytes i d b\<close>: the bytes \<open>d\<close> are stored from index \<open>i\<close> on; \<open>None\<close> outside the block.\<close>

definition write_bytes :: "nat \<Rightarrow> string \<Rightarrow> char option list \<Rightarrow> char option list option" where
  "write_bytes i d b = (if i + length d \<le> length b
     then Some (take i b @ map Some d @ drop (i + length d) b) else None)"

text \<open>The string at the start of a block: up to its first NUL; \<open>None\<close> runs into unwritten memory or the end.\<close>

fun c_string :: "char option list \<Rightarrow> string option" where
  "c_string [] = None"
| "c_string (None # b) = None"
| "c_string (Some c # b) = (if c = CHR 0x00 then Some [] else map_option (Cons c) (c_string b))"

lemma write_line:
  assumes "length d < length b"
  shows "Option.bind (write_bytes 0 d b) (write_bytes (length d) [CHR 0x00]) =
    Some (map Some d @ Some (CHR 0x00) # drop (length d + 1) b)"
  using assms by (simp add: write_bytes_def)

lemma c_string_prefix:
  "c_string (map Some d @ Some (CHR 0x00) # b) = Some (takeWhile (\<lambda>c. c \<noteq> CHR 0x00) d)"
  by (induction d) auto

lemma c_string_line: "CHR 0x00 \<notin> set d \<Longrightarrow> c_string (map Some d @ Some (CHR 0x00) # b) = Some d"
  by (induction d) auto

section \<open>Decimal input\<close>

definition c_isspace :: "char \<Rightarrow> bool" where
  "c_isspace c = (c \<in> {CHR '' '', CHR 0x09, CHR 0x0A, CHR 0x0B, CHR 0x0C, CHR 0x0D})"

definition c_isdigit :: "char \<Rightarrow> bool" where
  "c_isdigit c = (c \<in> set ''0123456789'')"

definition digit_val :: "char \<Rightarrow> int" where
  "digit_val c = of_char c - 48"

definition decimal_val :: "string \<Rightarrow> int" where
  "decimal_val ds = foldl (\<lambda>v c. 10 * v + digit_val c) 0 ds"

record strtol_result =
  st_value :: int
  st_end :: string  \<comment> \<open>what \<open>endptr\<close> points to\<close>
  st_errno :: bool  \<comment> \<open>whether \<open>errno\<close> was set (\<open>ERANGE\<close>)\<close>

definition strtol_sign :: "string \<Rightarrow> int \<times> string" where
  "strtol_sign s = (case s of
       [] \<Rightarrow> (1, s)
     | c # cs \<Rightarrow> if c = CHR ''-'' then (- 1, cs) else if c = CHR ''+'' then (1, cs) else (1, s))"

definition strtol10 :: "string \<Rightarrow> strtol_result" where
  "strtol10 s =
     (case strtol_sign (dropWhile c_isspace s) of (sg, u) \<Rightarrow>
        let ds = takeWhile c_isdigit u; rest = dropWhile c_isdigit u; v = sg * decimal_val ds in
        if ds = [] then \<lparr>st_value = 0, st_end = s, st_errno = False\<rparr>
        else if LONG_MAX < v then \<lparr>st_value = LONG_MAX, st_end = rest, st_errno = True\<rparr>
        else if v < LONG_MIN then \<lparr>st_value = LONG_MIN, st_end = rest, st_errno = True\<rparr>
        else \<lparr>st_value = v, st_end = rest, st_errno = False\<rparr>)"

section \<open>Round trips\<close>

lemma digit_cases: "d < 10 \<Longrightarrow> d \<in> {0, 1, 2, 3, 4, 5, 6, 7, 8, 9::nat}"
  by auto

lemma digit_char_digit: "d < 10 \<Longrightarrow> c_isdigit (digit_char d)"
  by (drule digit_cases) (auto simp: digit_char_def c_isdigit_def)

lemma digit_val_char: "d < 10 \<Longrightarrow> digit_val (digit_char d) = int d"
  by (drule digit_cases) (auto simp: digit_char_def digit_val_def)

lemma show_nat_digits: "list_all c_isdigit (show_nat n)"
proof (induction n rule: show_nat.induct)
  case (1 n)
  then show ?case
    by (subst show_nat.simps) (auto simp: digit_char_digit)
qed

lemma show_nat_nonempty [simp]: "show_nat n \<noteq> []"
  by (subst show_nat.simps) simp

lemma decimal_val_show: "decimal_val (show_nat n) = int n"
proof (induction n rule: show_nat.induct)
  case (1 n)
  show ?case
  proof (cases "n < 10")
    case True
    then show ?thesis
      by (subst show_nat.simps) (simp add: decimal_val_def digit_val_char)
  next
    case False
    with 1 have "decimal_val (show_nat (n div 10)) = int (n div 10)" by simp
    then have "decimal_val (show_nat (n div 10) @ [digit_char (n mod 10)])
        = 10 * int (n div 10) + int (n mod 10)"
      by (simp add: decimal_val_def digit_val_char)
    also have "\<dots> = int (10 * (n div 10) + n mod 10)"
      by (simp only: of_nat_add of_nat_mult of_nat_numeral)
    also have "\<dots> = int n" by simp
    finally show ?thesis using False by (subst show_nat.simps) simp
  qed
qed

lemma isdigit_not_special:
  assumes "c_isdigit c"
  shows "\<not> c_isspace c" "c \<noteq> CHR ''-''" "c \<noteq> CHR ''+''"
  using assms by (auto simp: c_isdigit_def c_isspace_def)

lemma show_nat_hd_digit: "show_nat n = c # cs \<Longrightarrow> c_isdigit c"
  using show_nat_digits [of n] by simp

lemma takeWhile_show_nat [simp]: "takeWhile c_isdigit (show_nat n) = show_nat n"
  using show_nat_digits [of n] by (simp add: takeWhile_eq_all_conv list_all_iff)

lemma dropWhile_show_nat [simp]: "dropWhile c_isdigit (show_nat n) = []"
  using show_nat_digits [of n] by (simp add: dropWhile_eq_Nil_conv list_all_iff)

lemma sign_show_nat: "strtol_sign (dropWhile c_isspace (show_nat n)) = (1, show_nat n)"
proof (cases "show_nat n")
  case Nil
  then show ?thesis by simp
next
  case (Cons c cs)
  then have "c_isdigit c" by (rule show_nat_hd_digit)
  with Cons show ?thesis
    by (simp add: strtol_sign_def isdigit_not_special)
qed

lemma sign_show_neg [simp]:
  "\<not> c_isspace CHR ''-''"
  "strtol_sign (CHR ''-'' # s) = (- 1, s)"
  by (simp_all add: strtol_sign_def c_isspace_def)

lemma strtol_show_int:
  assumes "LONG_MIN \<le> i" and "i \<le> LONG_MAX"
  shows "strtol10 (show_int i) = \<lparr>st_value = i, st_end = '''', st_errno = False\<rparr>"
  using assms
  by (auto simp: strtol10_def show_int_def sign_show_nat decimal_val_show Let_def)

lemma strtol_value_range: "LONG_MIN \<le> st_value (strtol10 s) \<and> st_value (strtol10 s) \<le> LONG_MAX"
  by (auto simp: strtol10_def Let_def split: prod.splits)

text \<open>
  The strings that \<open>strtol\<close> reads as a whole, and their values: blanks, at most one sign, and digits.
\<close>

definition number_text :: "string \<Rightarrow> int \<Rightarrow> bool" where
  "number_text s v \<longleftrightarrow> (\<exists>ws sg ds. s = ws @ sg @ ds \<and> list_all c_isspace ws \<and> sg \<in> {[], ''+'', ''-''} \<and>
     ds \<noteq> [] \<and> list_all c_isdigit ds \<and> v = (if sg = ''-'' then - decimal_val ds else decimal_val ds))"

lemma takeWhile_digits: "list_all c_isdigit ds \<Longrightarrow> takeWhile c_isdigit ds = ds"
  by (simp add: takeWhile_eq_all_conv list_all_iff)

lemma dropWhile_digits: "list_all c_isdigit ds \<Longrightarrow> dropWhile c_isdigit ds = []"
  by (simp add: dropWhile_eq_Nil_conv list_all_iff)

lemma dropWhile_blanks:
  assumes "list_all c_isspace ws" "u \<noteq> [] \<Longrightarrow> \<not> c_isspace (hd u)"
  shows "dropWhile c_isspace (ws @ u) = u"
  using assms by (induction ws) (auto, cases u, auto)

lemma strtol_sign_digits:
  assumes "ds \<noteq> []" "list_all c_isdigit ds"
  shows "strtol_sign ds = (1, ds)" "strtol_sign (''+'' @ ds) = (1, ds)" "strtol_sign (''-'' @ ds) = (- 1, ds)"
  using assms isdigit_not_special [of "hd ds"]
  by (cases ds; simp add: strtol_sign_def)+

lemma sign_not_blank: "\<not> c_isspace CHR ''+''" "\<not> c_isspace CHR ''-''"
  by (simp_all add: c_isspace_def)

lemma strtol_number_text:
  assumes "number_text s v"
  shows "strtol10 s = (if LONG_MAX < v then \<lparr>st_value = LONG_MAX, st_end = [], st_errno = True\<rparr>
    else if v < LONG_MIN then \<lparr>st_value = LONG_MIN, st_end = [], st_errno = True\<rparr>
    else \<lparr>st_value = v, st_end = [], st_errno = False\<rparr>) \<and> s \<noteq> []"
proof -
  obtain ws sg ds where s: "s = ws @ sg @ ds" "list_all c_isspace ws" "sg \<in> {[], ''+'', ''-''}"
      "ds \<noteq> []" "list_all c_isdigit ds" "v = (if sg = ''-'' then - decimal_val ds else decimal_val ds)"
    using assms by (auto simp: number_text_def)
  have "\<not> c_isspace (hd ds)" using s(4,5) isdigit_not_special(1) [of "hd ds"] by (cases ds) auto
  then have "\<not> c_isspace (hd (sg @ ds))" using s(3,4) sign_not_blank by auto
  then have "dropWhile c_isspace s = sg @ ds"
    using dropWhile_blanks [OF s(2), of "sg @ ds"] s(1) by simp
  moreover have "strtol_sign (sg @ ds) = (if sg = ''-'' then - 1 else 1, ds)"
    using s(3) strtol_sign_digits [OF s(4,5)] by auto
  ultimately show ?thesis
    using s by (simp add: strtol10_def Let_def takeWhile_digits dropWhile_digits)
qed

lemma strtol_sign_split:
  assumes "strtol_sign t = (sg, u)"
  shows "\<exists>st. t = st @ u \<and> st \<in> {[], ''+'', ''-''} \<and> sg = (if st = ''-'' then - 1 else 1)"
proof (cases t)
  case Nil
  then show ?thesis using assms by (simp add: strtol_sign_def)
next
  case (Cons c cs)
  consider "c = CHR ''-''" | "c = CHR ''+''" | "c \<noteq> CHR ''-''" "c \<noteq> CHR ''+''" by blast
  then show ?thesis
  proof cases
    case 1
    then show ?thesis using assms Cons by (intro exI [of _ "''-''"]) (simp add: strtol_sign_def)
  next
    case 2
    then show ?thesis using assms Cons by (intro exI [of _ "''+''"]) (simp add: strtol_sign_def)
  next
    case 3
    then show ?thesis using assms Cons by (intro exI [of _ "[]"]) (simp add: strtol_sign_def)
  qed
qed

lemma strtol_whole:
  assumes "st_end (strtol10 s) = []" "s \<noteq> []" "\<not> st_errno (strtol10 s)"
  shows "number_text s (st_value (strtol10 s))"
proof -
  let ?ws = "takeWhile c_isspace s" and ?t = "dropWhile c_isspace s"
  obtain sg u where sign: "strtol_sign ?t = (sg, u)" by fastforce
  have nonempty: "takeWhile c_isdigit u \<noteq> []" and rest: "dropWhile c_isdigit u = []"
    and v: "st_value (strtol10 s) = sg * decimal_val (takeWhile c_isdigit u)"
    using assms sign by (auto simp: strtol10_def Let_def split: if_splits)
  have u: "takeWhile c_isdigit u = u" using rest by (simp add: takeWhile_eq_all_conv dropWhile_eq_Nil_conv)
  obtain st where st: "?t = st @ u" "st \<in> {[], ''+'', ''-''}" "sg = (if st = ''-'' then - 1 else 1)"
    using strtol_sign_split [OF sign] by blast
  have "s = ?ws @ st @ u" unfolding st(1) [symmetric] by simp
  moreover have "list_all c_isspace ?ws" by (auto simp: list_all_iff dest: set_takeWhileD)
  moreover have "list_all c_isdigit u" using u by (simp add: takeWhile_eq_all_conv list_all_iff)
  ultimately show ?thesis
    using st v u nonempty unfolding number_text_def
    by (intro exI [of _ ?ws] exI [of _ st] exI [of _ u]) auto
qed

end
