(* ===== verification/Ring_Buffer.thy ===== *)
theory Ring_Buffer
  imports Queue_Interface C_Format
begin

text \<open>
  \<open>Exercise1/5 - bounded buffer/c/ringbuf.c\<close>: the ring buffer of C \<open>int\<close>s. A pointer to
  the structure is the structure itself (the functions never copy or compare pointers); the
  \<open>buffer\<close> field is \<open>None\<close> for a null pointer and else the list of its slots, each
  \<open>None\<close> until it is written. The \<open>int\<close> fields are mathematical integers, and an operation
  that would leave the range of \<open>int\<close> is undefined.
\<close>

section \<open>The structure and its operations\<close>

record RingBuffer =
  rb_buffer :: "int option list option"
  rb_capacity :: int
  rb_insertIdx :: int
  rb_removeIdx :: int
  rb_length :: int

text \<open>
  \<open>malloc n\<close> says whether a request of \<open>n\<close> bytes succeeds. A failed request for the structure
  is dereferenced at once; a failed request for the slots is stored as a null pointer. The
  product \<open>sizeof(int) * size\<close> is computed in \<open>size_t\<close>.
\<close>

definition rb_new :: "(nat \<Rightarrow> bool) \<Rightarrow> int \<Rightarrow> RingBuffer outcome" where
  "rb_new malloc sz =
     (if \<not> malloc 24 then Undefined
      else
        let bytes = unat (4 * (word_of_int sz :: size_t)) in
        Returned
          \<lparr>rb_buffer = (if malloc bytes then Some (replicate (bytes div 4) None) else None),
           rb_capacity = sz, rb_insertIdx = 0, rb_removeIdx = 0, rb_length = 0\<rparr>)"

definition rb_slot_ok :: "int option list \<Rightarrow> int \<Rightarrow> bool" where
  "rb_slot_ok buf i \<longleftrightarrow> 0 \<le> i \<and> i < int (length buf)"

definition rb_push :: "RingBuffer \<Rightarrow> int \<Rightarrow> RingBuffer outcome" where
  "rb_push rb val =
     (if \<not> rb_length rb < rb_capacity rb then Aborted
      else case rb_buffer rb of
        None \<Rightarrow> Undefined
      | Some buf \<Rightarrow>
          if \<not> rb_slot_ok buf (rb_insertIdx rb) \<or> INT_MAX < rb_insertIdx rb + 1
             \<or> rb_capacity rb = 0 \<or> INT_MAX < rb_length rb + 1
          then Undefined
          else Returned (rb\<lparr>
            rb_buffer := Some (buf[nat (rb_insertIdx rb) := Some val]),
            rb_insertIdx := (rb_insertIdx rb + 1) smod rb_capacity rb,
            rb_length := rb_length rb + 1\<rparr>))"

definition rb_pop :: "RingBuffer \<Rightarrow> (int \<times> RingBuffer) outcome" where
  "rb_pop rb =
     (if \<not> rb_length rb > 0 then Aborted
      else case rb_buffer rb of
        None \<Rightarrow> Undefined
      | Some buf \<Rightarrow>
          if \<not> rb_slot_ok buf (rb_removeIdx rb) \<or> INT_MAX < rb_removeIdx rb + 1
             \<or> rb_capacity rb = 0
          then Undefined
          else case buf ! nat (rb_removeIdx rb) of
            None \<Rightarrow> Undefined
          | Some val \<Rightarrow> Returned (val, rb\<lparr>
              rb_removeIdx := (rb_removeIdx rb + 1) smod rb_capacity rb,
              rb_length := rb_length rb - 1\<rparr>))"

text \<open>The loop of \<open>rb_print\<close>, from element \<open>elem\<close> at slot \<open>idx\<close>.\<close>

function rb_print_loop :: "RingBuffer \<Rightarrow> int \<Rightarrow> int \<Rightarrow> string outcome" where
  "rb_print_loop rb elem idx =
     (if \<not> elem < rb_length rb then Returned ''''
      else case rb_buffer rb of
        None \<Rightarrow> Undefined
      | Some buf \<Rightarrow>
          if \<not> rb_slot_ok buf idx \<or> INT_MAX < idx + 1 \<or> rb_capacity rb = 0 then Undefined
          else case buf ! nat idx of
            None \<Rightarrow> Undefined
          | Some val \<Rightarrow>
              (case rb_print_loop rb (elem + 1) ((idx + 1) smod rb_capacity rb) of
                 Returned out \<Rightarrow> Returned (show_int val @ '', '' @ out)
               | r \<Rightarrow> r))"
  by pat_completeness auto
termination
  by (relation "measure (\<lambda>(rb, elem, idx). nat (rb_length rb - elem))") auto

declare rb_print_loop.simps [simp del]

definition rb_print :: "RingBuffer \<Rightarrow> string outcome" where
  "rb_print rb =
     (case rb_print_loop rb 0 (rb_removeIdx rb) of
        Returned out \<Rightarrow> Returned (''['' @ out @ '']'' @ [CHR 0x0A])
      | r \<Rightarrow> r)"

text \<open>
  \<open>rb_destroy\<close> reads the structure and frees it; the pointer dangles afterwards (\<open>None\<close>), and
  destroying a dangling pointer is undefined.
\<close>

definition rb_destroy :: "RingBuffer option \<Rightarrow> RingBuffer option outcome" where
  "rb_destroy p = (case p of None \<Rightarrow> Undefined | Some rb \<Rightarrow> Returned None)"

section \<open>Well-formed ring buffers\<close>

definition rb_window :: "RingBuffer \<Rightarrow> int option list" where
  "rb_window rb = ring_list (the (rb_buffer rb)) (nat (rb_capacity rb)) (nat (rb_removeIdx rb))
     (nat (rb_length rb))"

definition rb_items :: "RingBuffer \<Rightarrow> int list" where
  "rb_items rb = map the (rb_window rb)"

definition rb_wf :: "RingBuffer \<Rightarrow> bool" where
  "rb_wf rb \<longleftrightarrow>
     0 < rb_capacity rb \<and> rb_capacity rb \<le> INT_MAX \<and>
     rb_buffer rb \<noteq> None \<and> int (length (the (rb_buffer rb))) = rb_capacity rb \<and>
     0 \<le> rb_removeIdx rb \<and> rb_removeIdx rb < rb_capacity rb \<and>
     0 \<le> rb_length rb \<and> rb_length rb \<le> rb_capacity rb \<and>
     rb_insertIdx rb = (rb_removeIdx rb + rb_length rb) mod rb_capacity rb \<and>
     None \<notin> set (rb_window rb)"

lemma rb_wfE:
  assumes "rb_wf rb"
  obtains buf c t n where "rb_buffer rb = Some buf" "length buf = c" "0 < c" "int c \<le> INT_MAX"
    "rb_capacity rb = int c" "rb_removeIdx rb = int t" "t < c" "rb_length rb = int n" "n \<le> c"
    "rb_insertIdx rb = int ((t + n) mod c)" "rb_window rb = ring_list buf c t n"
    "None \<notin> set (ring_list buf c t n)"
proof -
  from assms obtain buf where b: "rb_buffer rb = Some buf" by (auto simp: rb_wf_def)
  let ?c = "nat (rb_capacity rb)" and ?t = "nat (rb_removeIdx rb)" and ?n = "nat (rb_length rb)"
  have "rb_insertIdx rb = int ((?t + ?n) mod ?c)"
    using assms by (simp add: rb_wf_def zmod_int nat_add_distrib [symmetric] del: nat_add_distrib)
  then show thesis
    using assms b by (intro that [of buf ?c ?t ?n]) (auto simp: rb_wf_def rb_window_def)
qed

lemma rb_wfI:
  assumes "rb_buffer rb = Some buf" "length buf = c" "0 < c" "int c \<le> INT_MAX"
    "rb_capacity rb = int c" "rb_removeIdx rb = int t" "t < c" "rb_length rb = int n" "n \<le> c"
    "rb_insertIdx rb = int ((t + n) mod c)" "None \<notin> set (ring_list buf c t n)"
  shows "rb_wf rb \<and> rb_items rb = map the (ring_list buf c t n)"
  using assms by (auto simp: rb_wf_def rb_items_def rb_window_def zmod_int)

lemma smod_next: "0 < c \<Longrightarrow> (int a + 1) smod int c = int (Suc a mod c)"
  by (simp add: smod_int_alt_def zmod_int add.commute)

lemma length_rb_items: "rb_wf rb \<Longrightarrow> int (length (rb_items rb)) = rb_length rb"
  by (simp add: rb_items_def rb_window_def rb_wf_def)

section \<open>What the operations do\<close>

lemma rb_new_wf:
  assumes "0 < sz" "sz \<le> INT_MAX" "malloc 24" "malloc (4 * nat sz)"
  shows "\<exists>rb. rb_new malloc sz = Returned rb \<and> rb_wf rb \<and> rb_items rb = [] \<and> rb_capacity rb = sz"
proof -
  have "unat (4 * (word_of_int sz :: size_t)) = 4 * nat sz"
    using assms by (simp add: unat_word_ariths unsigned_of_int take_bit_int_eq_self nat_less_iff)
  with assms show ?thesis
    by (simp add: rb_new_def rb_wf_def rb_items_def rb_window_def Let_def)
qed

lemma rb_push_wf:
  assumes "rb_wf rb" and "rb_length rb < rb_capacity rb"
  shows "\<exists>rb'. rb_push rb v = Returned rb' \<and> rb_wf rb' \<and> rb_items rb' = rb_items rb @ [v] \<and>
    rb_capacity rb' = rb_capacity rb"
  using assms(1)
proof (rule rb_wfE)
  fix buf c t n
  assume wf: "rb_buffer rb = Some buf" "length buf = c" "0 < c" "int c \<le> INT_MAX"
    "rb_capacity rb = int c" "rb_removeIdx rb = int t" "t < c" "rb_length rb = int n" "n \<le> c"
    "rb_insertIdx rb = int ((t + n) mod c)" "rb_window rb = ring_list buf c t n"
    "None \<notin> set (ring_list buf c t n)"
  let ?i = "(t + n) mod c"
  let ?rb = "rb\<lparr>rb_buffer := Some (buf[?i := Some v]),
     rb_insertIdx := int (Suc ?i mod c), rb_length := int (Suc n)\<rparr>"
  have n: "n < c" and i: "?i < c" using wf assms(2) by auto
  then have no_overflow: "int ?i + 1 \<le> INT_MAX" using wf(4) by linarith
  have ring: "ring_list (buf[?i := Some v]) c t (Suc n) = ring_list buf c t n @ [Some v]"
    using n wf(2) by (rule ring_list_push)
  have push: "rb_push rb v = Returned ?rb"
    using wf n no_overflow by (simp add: rb_push_def rb_slot_ok_def smod_next)
  have "rb_wf ?rb \<and> rb_items ?rb = map the (ring_list (buf[?i := Some v]) c t (Suc n))"
    by (rule rb_wfI) (use wf n ring in \<open>simp_all add: mod_simps\<close>)
  then show ?thesis
    using push ring wf by (auto simp: rb_items_def)
qed

lemma rb_push_full: "\<not> rb_length rb < rb_capacity rb \<Longrightarrow> rb_push rb v = Aborted"
  by (simp add: rb_push_def)

lemma rb_pop_wf:
  assumes "rb_wf rb" and "rb_items rb = y # ys"
  shows "\<exists>rb'. rb_pop rb = Returned (y, rb') \<and> rb_wf rb' \<and> rb_items rb' = ys \<and>
    rb_capacity rb' = rb_capacity rb"
  using assms(1)
proof (rule rb_wfE)
  fix buf c t n
  assume wf: "rb_buffer rb = Some buf" "length buf = c" "0 < c" "int c \<le> INT_MAX"
    "rb_capacity rb = int c" "rb_removeIdx rb = int t" "t < c" "rb_length rb = int n" "n \<le> c"
    "rb_insertIdx rb = int ((t + n) mod c)" "rb_window rb = ring_list buf c t n"
    "None \<notin> set (ring_list buf c t n)"
  obtain m where m: "n = Suc m"
    using assms(2) wf(11) by (cases n) (auto simp: rb_items_def)
  have ring: "ring_list buf c t n = buf ! t # ring_list buf c (Suc t mod c) m"
    using wf(7) by (simp add: m ring_list_Cons)
  then have slot: "buf ! t = Some y" and ys: "ys = map the (ring_list buf c (Suc t mod c) m)"
    using assms(2) wf by (auto simp: rb_items_def)
  let ?rb = "rb\<lparr>rb_removeIdx := int (Suc t mod c), rb_length := int m\<rparr>"
  have pop: "rb_pop rb = Returned (y, ?rb)"
    using wf slot m by (simp add: rb_pop_def rb_slot_ok_def smod_next)
  have "rb_wf ?rb \<and> rb_items ?rb = map the (ring_list buf c (Suc t mod c) m)"
    by (rule rb_wfI) (use wf m ring in \<open>simp_all add: mod_simps\<close>)
  then show ?thesis
    using pop ys by auto
qed

lemma rb_pop_empty: "\<not> rb_length rb > 0 \<Longrightarrow> rb_pop rb = Aborted"
  by (simp add: rb_pop_def)

section \<open>The ring buffer is a bounded queue\<close>

text \<open>
  The view of the two operations that the queue interface takes: a value for a returning call,
  none for a failed assertion.
\<close>

definition rb_enq :: "RingBuffer \<Rightarrow> int \<Rightarrow> RingBuffer option" where
  "rb_enq rb v = (case rb_push rb v of Returned rb' \<Rightarrow> Some rb' | _ \<Rightarrow> None)"

definition rb_deq :: "RingBuffer \<Rightarrow> (int \<times> RingBuffer) option" where
  "rb_deq rb = (case rb_pop rb of Returned r \<Rightarrow> Some r | _ \<Rightarrow> None)"

lemma rb_enq_wf:
  assumes "rb_wf rb"
  shows "rb_enq rb v = None \<and> rb_length rb = rb_capacity rb \<or>
    (\<exists>rb'. rb_enq rb v = Some rb' \<and> rb_length rb < rb_capacity rb \<and> rb_wf rb' \<and>
       rb_items rb' = rb_items rb @ [v] \<and> rb_capacity rb' = rb_capacity rb)"
proof (cases "rb_length rb < rb_capacity rb")
  case True
  then show ?thesis using rb_push_wf [OF assms True, of v] by (auto simp: rb_enq_def)
next
  case False
  then show ?thesis using assms by (auto simp: rb_enq_def rb_push_full rb_wf_def)
qed

lemma rb_deq_wf:
  assumes "rb_wf rb"
  shows "rb_deq rb = None \<and> rb_items rb = [] \<or>
    (\<exists>y rb'. rb_deq rb = Some (y, rb') \<and> rb_items rb = y # rb_items rb' \<and> rb_wf rb' \<and>
       rb_capacity rb' = rb_capacity rb)"
proof (cases "rb_items rb")
  case Nil
  then have "rb_length rb = 0" using length_rb_items [OF assms] by simp
  with Nil show ?thesis by (simp add: rb_deq_def rb_pop_empty)
next
  case (Cons y ys)
  then show ?thesis using rb_pop_wf [OF assms Cons] by (auto simp: rb_deq_def)
qed

interpretation rbq: bounded_queue rb_wf rb_items "\<lambda>rb. nat (rb_capacity rb)" rb_enq rb_deq
proof
  fix rb rb' :: RingBuffer and v y :: int
  assume wf: "rb_wf rb"
  then show "length (rb_items rb) \<le> nat (rb_capacity rb)"
    using length_rb_items [OF wf] by (auto simp: rb_wf_def)
  show "map_option rb_items (rb_enq rb v) = spec_enq (nat (rb_capacity rb)) (rb_items rb) v"
    using rb_enq_wf [OF wf, of v] length_rb_items [OF wf] wf
    by (auto simp: spec_enq_def rb_wf_def)
  show "map_option (map_prod id rb_items) (rb_deq rb) = spec_deq (rb_items rb)"
    using rb_deq_wf [OF wf] by auto
  show "rb_enq rb v = Some rb' \<Longrightarrow> rb_wf rb' \<and> nat (rb_capacity rb') = nat (rb_capacity rb)"
    using rb_enq_wf [OF wf, of v] by auto
  show "rb_deq rb = Some (y, rb') \<Longrightarrow> rb_wf rb' \<and> nat (rb_capacity rb') = nat (rb_capacity rb)"
    using rb_deq_wf [OF wf] by auto
qed

section \<open>Printing\<close>

lemma rb_print_loop_ring:
  assumes buf: "rb_buffer rb = Some buf" "length buf = c" "rb_capacity rb = int c" "int c \<le> INT_MAX"
    and "rb_length rb = elem + int m" "s < c" "None \<notin> set (ring_list buf c s m)"
  shows "rb_print_loop rb elem (int s)
    = Returned (concat (map (\<lambda>v. show_int (the v) @ '', '') (ring_list buf c s m)))"
  using assms(5-)
proof (induction m arbitrary: elem s)
  case 0
  then show ?case by (simp add: rb_print_loop.simps)
next
  case (Suc m)
  have ring: "ring_list buf c s (Suc m) = buf ! s # ring_list buf c (Suc s mod c) m"
    using Suc.prems(2) by (simp add: ring_list_Cons)
  obtain v where v: "buf ! s = Some v"
    using Suc.prems(3) ring by (cases "buf ! s") auto
  have no_overflow: "int s + 1 \<le> INT_MAX" using Suc.prems(2) buf(4) by linarith
  have rest: "rb_print_loop rb (elem + 1) (int (Suc s mod c))
      = Returned (concat (map (\<lambda>v. show_int (the v) @ '', '') (ring_list buf c (Suc s mod c) m)))"
    using Suc.prems ring by (intro Suc.IH) (auto intro: mod_less_divisor)
  show ?case
    using Suc.prems buf v rest ring no_overflow
    by (simp add: rb_print_loop.simps [of rb elem] rb_slot_ok_def smod_next)
qed

lemma rb_print_wf:
  assumes "rb_wf rb"
  shows "rb_print rb = Returned (''['' @ concat (map (\<lambda>v. show_int v @ '', '') (rb_items rb)) @ '']'' @ [CHR 0x0A])"
  using assms
proof (rule rb_wfE)
  fix buf c t n
  assume wf: "rb_buffer rb = Some buf" "length buf = c" "0 < c" "int c \<le> INT_MAX"
    "rb_capacity rb = int c" "rb_removeIdx rb = int t" "t < c" "rb_length rb = int n" "n \<le> c"
    "rb_insertIdx rb = int ((t + n) mod c)" "rb_window rb = ring_list buf c t n"
    "None \<notin> set (ring_list buf c t n)"
  then have "rb_print_loop rb 0 (int t)
      = Returned (concat (map (\<lambda>v. show_int (the v) @ '', '') (ring_list buf c t n)))"
    by (intro rb_print_loop_ring) auto
  with wf show ?thesis by (simp add: rb_print_def rb_items_def comp_def)
qed

section \<open>Properties\<close>

text \<open>A ring buffer for the witness, whose two values wrap around.\<close>

definition rb_sample :: RingBuffer where
  "rb_sample = \<lparr>rb_buffer = Some [Some 5, None, Some 4], rb_capacity = 3, rb_insertIdx = 1,
     rb_removeIdx = 2, rb_length = 2\<rparr>"

lemma rb_sample_wf: "rb_wf rb_sample" and rb_sample_items: "rb_items rb_sample = [4, 5]" "rb_capacity rb_sample = 3"
  by (simp_all add: rb_sample_def rb_wf_def rb_items_def rb_window_def ring_list_def numeral_2_eq_2)

text \<open>
  C35: the assertions of the ring buffer are its only way to fail. On a well-formed buffer
  \<open>rb_push\<close> aborts exactly when the buffer is full and \<open>rb_pop\<close> exactly when it is empty;
  otherwise they return a well-formed buffer of the same capacity with the value appended, and the
  oldest value and the rest. No call is undefined: no slot out of bounds, no uninitialised read,
  no overflow of the \<open>int\<close> indices.
\<close>
theorem ring_buffer_push_pop:
  assumes "rb_wf rb"
  shows "(rb_push rb v = Aborted \<and> length (rb_items rb) = nat (rb_capacity rb) \<or>
      (\<exists>rb'. rb_push rb v = Returned rb' \<and> length (rb_items rb) < nat (rb_capacity rb) \<and>
        rb_wf rb' \<and> rb_items rb' = rb_items rb @ [v] \<and> rb_capacity rb' = rb_capacity rb)) \<and>
    (rb_pop rb = Aborted \<and> rb_items rb = [] \<or>
      (\<exists>y rb'. rb_pop rb = Returned (y, rb') \<and> rb_wf rb' \<and> rb_items rb = y # rb_items rb' \<and>
        rb_capacity rb' = rb_capacity rb))"
proof
  show "rb_push rb v = Aborted \<and> length (rb_items rb) = nat (rb_capacity rb) \<or>
      (\<exists>rb'. rb_push rb v = Returned rb' \<and> length (rb_items rb) < nat (rb_capacity rb) \<and>
        rb_wf rb' \<and> rb_items rb' = rb_items rb @ [v] \<and> rb_capacity rb' = rb_capacity rb)"
    using rb_push_wf [OF assms, of v] rb_push_full [of rb v] length_rb_items [OF assms] assms
    by (cases "rb_length rb < rb_capacity rb") (auto simp: rb_wf_def)
  show "rb_pop rb = Aborted \<and> rb_items rb = [] \<or>
      (\<exists>y rb'. rb_pop rb = Returned (y, rb') \<and> rb_wf rb' \<and> rb_items rb = y # rb_items rb' \<and>
        rb_capacity rb' = rb_capacity rb)"
    using rb_pop_wf [OF assms] rb_pop_empty [of rb] length_rb_items [OF assms]
    by (cases "rb_items rb") auto
qed

theorem ring_buffer_push_pop_witness:
  "\<exists>rb'. rb_push rb_sample 6 = Returned rb' \<and> rb_items rb' = [4, 5, 6]"
  using ring_buffer_push_pop [OF rb_sample_wf, of 6] by (auto simp: rb_sample_items)

end
