(* ===== verification/Bounded_Buffer.thy ===== *)
theory Bounded_Buffer
  imports Ring_Buffer
begin

text \<open>
  \<open>Exercise1/5 - bounded buffer/c/main.c\<close>: a ring buffer shared by threads, guarded by a mutex
  and two counting semaphores. Each C statement of \<open>buf_push\<close> and \<open>buf_pop\<close> is one atomic
  step of one thread, and any enabled thread may step next. The calls a thread makes come from a
  \<open>client\<close>: \<open>client t k\<close> is call number \<open>k\<close> of thread \<open>t\<close>, none when it has finished. The
  properties of the buffer hold for every client and any number of threads; the program's producer
  and consumer are the client \<open>ex1_client\<close>.
\<close>

section \<open>The shared object and the threads\<close>

record BoundedBuffer =
  bb_buf :: RingBuffer
  bb_mtx :: "nat option"  \<comment> \<open>the thread that holds the mutex\<close>
  bb_numElements :: nat
  bb_capacity :: nat

datatype bb_call = Push int | Pop

text \<open>A thread is between calls, or about to execute the named statement of its call.\<close>

datatype bb_pc =
    Idle
  | PushWait int | PushLock int | PushBody int | PushUnlock | PushPost
  | PopWait | PopLock | PopBody | PopUnlock int | PopPost int

record bb_thread =
  th_calls :: nat  \<comment> \<open>completed calls\<close>
  th_pc :: bb_pc

text \<open>
  The shared object, the threads, whether an assertion failed or undefined behaviour occurred, and
  two histories: the values in the order of the completed \<open>rb_push\<close> and \<open>rb_pop\<close> calls.
\<close>

record bb_sys =
  bb_obj :: BoundedBuffer
  bb_threads :: "bb_thread list"
  bb_fault :: bool
  bb_pushed :: "int list"
  bb_popped :: "int list"

definition buf_new :: "(nat \<Rightarrow> bool) \<Rightarrow> int \<Rightarrow> BoundedBuffer outcome" where
  "buf_new malloc sz =
     (if \<not> malloc 112 then Undefined
      else case rb_new malloc sz of
        Returned rb \<Rightarrow> Returned \<lparr>bb_buf = rb, bb_mtx = None, bb_numElements = 0, bb_capacity = nat sz\<rparr>
      | Aborted \<Rightarrow> Aborted
      | Undefined \<Rightarrow> Undefined)"

definition set_pc :: "nat \<Rightarrow> bb_pc \<Rightarrow> bb_sys \<Rightarrow> bb_sys" where
  "set_pc t pc s = s\<lparr>bb_threads := (bb_threads s)[t := (bb_threads s ! t)\<lparr>th_pc := pc\<rparr>]\<rparr>"

definition end_call :: "nat \<Rightarrow> bb_sys \<Rightarrow> bb_sys" where
  "end_call t s = s\<lparr>bb_threads := (bb_threads s)
     [t := \<lparr>th_calls = Suc (th_calls (bb_threads s ! t)), th_pc = Idle\<rparr>]\<rparr>"

text \<open>
  The statements of \<open>buf_push\<close> and \<open>buf_pop\<close>. \<open>None\<close> is a blocked thread: \<open>sem_wait\<close> on a
  zero semaphore, \<open>pthread_mutex_lock\<close> on a held mutex.
\<close>

fun buf_push_step :: "nat \<Rightarrow> bb_pc \<Rightarrow> bb_sys \<Rightarrow> bb_sys option" where
  "buf_push_step t (PushWait v) s =
     (let b = bb_obj s in
      if bb_capacity b = 0 then None
      else Some (set_pc t (PushLock v) (s\<lparr>bb_obj := b\<lparr>bb_capacity := bb_capacity b - 1\<rparr>\<rparr>)))"
| "buf_push_step t (PushLock v) s =
     (let b = bb_obj s in
      if bb_mtx b \<noteq> None then None
      else Some (set_pc t (PushBody v) (s\<lparr>bb_obj := b\<lparr>bb_mtx := Some t\<rparr>\<rparr>)))"
| "buf_push_step t (PushBody v) s =
     (let b = bb_obj s in
      case rb_push (bb_buf b) v of
        Returned rb \<Rightarrow> Some (set_pc t PushUnlock
          (s\<lparr>bb_obj := b\<lparr>bb_buf := rb\<rparr>, bb_pushed := bb_pushed s @ [v]\<rparr>))
      | _ \<Rightarrow> Some (s\<lparr>bb_fault := True\<rparr>))"
| "buf_push_step t PushUnlock s =
     Some (set_pc t PushPost (s\<lparr>bb_obj := (bb_obj s)\<lparr>bb_mtx := None\<rparr>\<rparr>))"
| "buf_push_step t PushPost s =
     (let b = bb_obj s in
      Some (end_call t (s\<lparr>bb_obj := b\<lparr>bb_numElements := bb_numElements b + 1\<rparr>\<rparr>)))"
| "buf_push_step t _ s = None"

fun buf_pop_step :: "nat \<Rightarrow> bb_pc \<Rightarrow> bb_sys \<Rightarrow> bb_sys option" where
  "buf_pop_step t PopWait s =
     (let b = bb_obj s in
      if bb_numElements b = 0 then None
      else Some (set_pc t PopLock (s\<lparr>bb_obj := b\<lparr>bb_numElements := bb_numElements b - 1\<rparr>\<rparr>)))"
| "buf_pop_step t PopLock s =
     (let b = bb_obj s in
      if bb_mtx b \<noteq> None then None
      else Some (set_pc t PopBody (s\<lparr>bb_obj := b\<lparr>bb_mtx := Some t\<rparr>\<rparr>)))"
| "buf_pop_step t PopBody s =
     (let b = bb_obj s in
      case rb_pop (bb_buf b) of
        Returned (val, rb) \<Rightarrow> Some (set_pc t (PopUnlock val)
          (s\<lparr>bb_obj := b\<lparr>bb_buf := rb\<rparr>, bb_popped := bb_popped s @ [val]\<rparr>))
      | _ \<Rightarrow> Some (s\<lparr>bb_fault := True\<rparr>))"
| "buf_pop_step t (PopUnlock val) s =
     Some (set_pc t (PopPost val) (s\<lparr>bb_obj := (bb_obj s)\<lparr>bb_mtx := None\<rparr>\<rparr>))"
| "buf_pop_step t (PopPost val) s =
     (let b = bb_obj s in
      Some (end_call t (s\<lparr>bb_obj := b\<lparr>bb_capacity := bb_capacity b + 1\<rparr>\<rparr>)))"
| "buf_pop_step t _ s = None"

definition is_pop :: "bb_pc \<Rightarrow> bool" where
  "is_pop pc = (case pc of PopWait \<Rightarrow> True | PopLock \<Rightarrow> True | PopBody \<Rightarrow> True
     | PopUnlock _ \<Rightarrow> True | PopPost _ \<Rightarrow> True | _ \<Rightarrow> False)"

definition bb_thread_step :: "(nat \<Rightarrow> nat \<Rightarrow> bb_call option) \<Rightarrow> nat \<Rightarrow> bb_sys \<Rightarrow> bb_sys option" where
  "bb_thread_step client t s =
     (if \<not> t < length (bb_threads s) \<or> bb_fault s then None
      else
        let th = bb_threads s ! t in
        if th_pc th = Idle then
          (case client t (th_calls th) of
             None \<Rightarrow> None
           | Some (Push v) \<Rightarrow> Some (set_pc t (PushWait v) s)
           | Some Pop \<Rightarrow> Some (set_pc t PopWait s))
        else if is_pop (th_pc th) then buf_pop_step t (th_pc th) s
        else buf_push_step t (th_pc th) s)"

definition bb_init :: "nat \<Rightarrow> BoundedBuffer \<Rightarrow> bb_sys" where
  "bb_init n b = \<lparr>bb_obj = b, bb_threads = replicate n \<lparr>th_calls = 0, th_pc = Idle\<rparr>,
     bb_fault = False, bb_pushed = [], bb_popped = []\<rparr>"

inductive bb_reach :: "(nat \<Rightarrow> nat \<Rightarrow> bb_call option) \<Rightarrow> bb_sys \<Rightarrow> bb_sys \<Rightarrow> bool" for client s0 where
  bb_start: "bb_reach client s0 s0"
| bb_next: "bb_reach client s0 s \<Longrightarrow> bb_thread_step client t s = Some s' \<Longrightarrow> bb_reach client s0 s'"

section \<open>The invariant\<close>

text \<open>
  Tokens: a thread past \<open>sem_wait(&capacity)\<close> that has not pushed yet owns a free slot, and so
  does one that has popped and not posted yet; a thread past \<open>sem_wait(&numElements)\<close> that has not
  popped yet owns an element, and so does one that has pushed and not posted yet.
\<close>

definition owns_slot :: "bb_thread \<Rightarrow> nat" where
  "owns_slot th = (case th_pc th of PushLock _ \<Rightarrow> 1 | PushBody _ \<Rightarrow> 1 | PopUnlock _ \<Rightarrow> 1 | PopPost _ \<Rightarrow> 1
     | _ \<Rightarrow> 0)"

definition owns_elem :: "bb_thread \<Rightarrow> nat" where
  "owns_elem th = (case th_pc th of PopLock \<Rightarrow> 1 | PopBody \<Rightarrow> 1 | PushUnlock \<Rightarrow> 1 | PushPost \<Rightarrow> 1
     | _ \<Rightarrow> 0)"

definition in_critical :: "bb_pc \<Rightarrow> bool" where
  "in_critical pc = (case pc of PushBody _ \<Rightarrow> True | PushUnlock \<Rightarrow> True | PopBody \<Rightarrow> True
     | PopUnlock _ \<Rightarrow> True | _ \<Rightarrow> False)"

abbreviation slots_owned :: "bb_sys \<Rightarrow> nat" where
  "slots_owned s \<equiv> sum_list (map owns_slot (bb_threads s))"

abbreviation elems_owned :: "bb_sys \<Rightarrow> nat" where
  "elems_owned s \<equiv> sum_list (map owns_elem (bb_threads s))"

definition bb_inv :: "int \<Rightarrow> bb_sys \<Rightarrow> bool" where
  "bb_inv sz s \<longleftrightarrow>
     rb_wf (bb_buf (bb_obj s)) \<and> rb_capacity (bb_buf (bb_obj s)) = sz \<and> \<not> bb_fault s \<and>
     bb_capacity (bb_obj s) + length (rb_items (bb_buf (bb_obj s))) + slots_owned s = nat sz \<and>
     bb_numElements (bb_obj s) + elems_owned s = length (rb_items (bb_buf (bb_obj s))) \<and>
     (\<forall>t < length (bb_threads s). in_critical (th_pc (bb_threads s ! t)) \<longleftrightarrow> bb_mtx (bb_obj s) = Some t) \<and>
     (\<forall>t. bb_mtx (bb_obj s) = Some t \<longrightarrow> t < length (bb_threads s)) \<and>
     bb_pushed s = bb_popped s @ rb_items (bb_buf (bb_obj s))"

lemmas bb_defs = bb_inv_def set_pc_def end_call_def owns_slot_def owns_elem_def in_critical_def

lemma slot_owner_counts:
  "t < length (bb_threads s) \<Longrightarrow> owns_slot (bb_threads s ! t) \<le> slots_owned s"
  by (simp add: member_le_sum_list)

lemma elem_owner_counts:
  "t < length (bb_threads s) \<Longrightarrow> owns_elem (bb_threads s ! t) \<le> elems_owned s"
  by (simp add: member_le_sum_list)

lemma push_step_inv:
  assumes inv: "bb_inv sz s" and t: "t < length (bb_threads s)"
    and step: "buf_push_step t (th_pc (bb_threads s ! t)) s = Some s'"
  shows "bb_inv sz s'"
proof -
  let ?th = "bb_threads s ! t"
  note slot = sum_list_swap [OF t, of owns_slot] and elem = sum_list_swap [OF t, of owns_elem]
  have crit: "in_critical (th_pc ?th) \<longleftrightarrow> bb_mtx (bb_obj s) = Some t"
    using inv t by (auto simp: bb_inv_def)
  show ?thesis
  proof (cases "th_pc ?th")
    case (PushWait v)
    with inv t step crit slot [of "?th\<lparr>th_pc := PushLock v\<rparr>"] elem [of "?th\<lparr>th_pc := PushLock v\<rparr>"]
    show ?thesis by (auto simp: bb_defs nth_list_update Let_def split: if_splits)
  next
    case (PushLock v)
    with inv t step crit slot [of "?th\<lparr>th_pc := PushBody v\<rparr>"] elem [of "?th\<lparr>th_pc := PushBody v\<rparr>"]
    show ?thesis by (auto simp: bb_defs nth_list_update Let_def split: if_splits)
  next
    case (PushBody v)
    let ?rb = "bb_buf (bb_obj s)"
    have wf: "rb_wf ?rb" using inv by (simp add: bb_inv_def)
    have "1 \<le> slots_owned s"
      using slot_owner_counts [OF t] PushBody unfolding owns_slot_def [of ?th] by simp
    then have "length (rb_items ?rb) < nat (rb_capacity ?rb)"
      using inv unfolding bb_inv_def by linarith
    then have "rb_length ?rb < rb_capacity ?rb"
      using length_rb_items [OF wf] by linarith
    then obtain rb where "rb_push ?rb v = Returned rb" "rb_wf rb" "rb_items rb = rb_items ?rb @ [v]"
        "rb_capacity rb = rb_capacity ?rb"
      using rb_push_wf [OF wf] by blast
    with PushBody inv t step slot [of "?th\<lparr>th_pc := PushUnlock\<rparr>"] elem [of "?th\<lparr>th_pc := PushUnlock\<rparr>"]
    show ?thesis by (auto simp: bb_defs nth_list_update Let_def split: if_splits)
  next
    case PushUnlock
    with inv t step crit slot [of "?th\<lparr>th_pc := PushPost\<rparr>"] elem [of "?th\<lparr>th_pc := PushPost\<rparr>"]
    show ?thesis by (auto simp: bb_defs nth_list_update)
  next
    case PushPost
    let ?fin = "\<lparr>th_calls = Suc (th_calls ?th), th_pc = Idle\<rparr>"
    from PushPost inv t step crit slot [of ?fin] elem [of ?fin]
    show ?thesis by (auto simp: bb_defs nth_list_update Let_def split: if_splits)
  qed (use step in auto)
qed

lemma pop_step_inv:
  assumes inv: "bb_inv sz s" and t: "t < length (bb_threads s)"
    and step: "buf_pop_step t (th_pc (bb_threads s ! t)) s = Some s'"
  shows "bb_inv sz s'"
proof -
  let ?th = "bb_threads s ! t"
  note slot = sum_list_swap [OF t, of owns_slot] and elem = sum_list_swap [OF t, of owns_elem]
  have crit: "in_critical (th_pc ?th) \<longleftrightarrow> bb_mtx (bb_obj s) = Some t"
    using inv t by (auto simp: bb_inv_def)
  show ?thesis
  proof (cases "th_pc ?th")
    case PopWait
    with inv t step crit slot [of "?th\<lparr>th_pc := PopLock\<rparr>"] elem [of "?th\<lparr>th_pc := PopLock\<rparr>"]
    show ?thesis by (auto simp: bb_defs nth_list_update Let_def split: if_splits)
  next
    case PopLock
    with inv t step crit slot [of "?th\<lparr>th_pc := PopBody\<rparr>"] elem [of "?th\<lparr>th_pc := PopBody\<rparr>"]
    show ?thesis by (auto simp: bb_defs nth_list_update Let_def split: if_splits)
  next
    case PopBody
    let ?rb = "bb_buf (bb_obj s)"
    have "1 \<le> elems_owned s"
      using elem_owner_counts [OF t] PopBody unfolding owns_elem_def [of ?th] by simp
    then have "1 \<le> length (rb_items ?rb)"
      using inv unfolding bb_inv_def by linarith
    then obtain y ys where ys: "rb_items ?rb = y # ys" by (cases "rb_items ?rb") auto
    then obtain rb where "rb_pop ?rb = Returned (y, rb)" "rb_wf rb" "rb_items rb = ys"
        "rb_capacity rb = rb_capacity ?rb"
      using inv rb_pop_wf [of ?rb y ys] by (auto simp: bb_inv_def)
    with ys PopBody inv t step slot [of "?th\<lparr>th_pc := PopUnlock y\<rparr>"] elem [of "?th\<lparr>th_pc := PopUnlock y\<rparr>"]
    show ?thesis by (auto simp: bb_defs nth_list_update Let_def split: if_splits)
  next
    case (PopUnlock val)
    with inv t step crit slot [of "?th\<lparr>th_pc := PopPost val\<rparr>"] elem [of "?th\<lparr>th_pc := PopPost val\<rparr>"]
    show ?thesis by (auto simp: bb_defs nth_list_update)
  next
    case (PopPost val)
    let ?fin = "\<lparr>th_calls = Suc (th_calls ?th), th_pc = Idle\<rparr>"
    from PopPost inv t step crit slot [of ?fin] elem [of ?fin]
    show ?thesis by (auto simp: bb_defs nth_list_update Let_def split: if_splits)
  qed (use step in auto)
qed

lemma begin_call_inv:
  assumes inv: "bb_inv sz s" and t: "t < length (bb_threads s)" and "th_pc (bb_threads s ! t) = Idle"
    and "pc = PopWait \<or> (\<exists>v. pc = PushWait v)"
  shows "bb_inv sz (set_pc t pc s)"
proof -
  let ?th = "(bb_threads s ! t)\<lparr>th_pc := pc\<rparr>"
  show ?thesis
    using assms sum_list_swap [OF t, of owns_slot ?th] sum_list_swap [OF t, of owns_elem ?th]
    by (auto simp: bb_defs nth_list_update)
qed

lemma thread_step_inv:
  assumes "bb_inv sz s" and "bb_thread_step client t s = Some s'"
  shows "bb_inv sz s'"
  using assms push_step_inv [OF assms(1), of t s'] pop_step_inv [OF assms(1), of t s']
  by (auto simp: bb_thread_step_def Let_def intro!: begin_call_inv
      split: if_splits option.splits bb_call.splits)

lemma bb_thread_step_length:
  assumes "bb_thread_step client t s = Some s'"
  shows "length (bb_threads s') = length (bb_threads s)"
  using assms
  by (cases "th_pc (bb_threads s ! t)")
    (auto simp: bb_thread_step_def set_pc_def end_call_def is_pop_def Let_def
      split: if_splits option.splits bb_call.splits outcome.splits)

lemma bb_reach_inv: "bb_reach client s0 s \<Longrightarrow> bb_inv sz s0 \<Longrightarrow> bb_inv sz s"
  by (induction rule: bb_reach.induct) (auto intro: thread_step_inv)

lemma buf_new_inv:
  assumes "0 < sz" "sz \<le> INT_MAX" "malloc 112" "malloc 24" "malloc (4 * nat sz)"
  shows "\<exists>b. buf_new malloc sz = Returned b \<and> bb_inv sz (bb_init n b)"
  using rb_new_wf [OF assms(1,2,4,5)] assms(1,3)
  by (auto simp: buf_new_def bb_init_def bb_inv_def owns_slot_def owns_elem_def in_critical_def
      sum_list_replicate)

section \<open>Progress\<close>

definition bb_stuck :: "(nat \<Rightarrow> nat \<Rightarrow> bb_call option) \<Rightarrow> bb_sys \<Rightarrow> bool" where
  "bb_stuck client s \<longleftrightarrow> (\<forall>t < length (bb_threads s). bb_thread_step client t s = None)"

lemma critical_steps:
  assumes "in_critical (th_pc (bb_threads s ! t))" "t < length (bb_threads s)" "\<not> bb_fault s"
  shows "bb_thread_step client t s \<noteq> None"
  using assms
  by (cases "th_pc (bb_threads s ! t)")
    (auto simp: bb_thread_step_def in_critical_def is_pop_def Let_def split: outcome.splits)

lemma stuck_mutex_free:
  assumes "bb_inv sz s" and "bb_stuck client s"
  shows "bb_mtx (bb_obj s) = None"
proof (rule ccontr)
  assume "bb_mtx (bb_obj s) \<noteq> None"
  then obtain t where "bb_mtx (bb_obj s) = Some t" by auto
  with assms(1) have "t < length (bb_threads s)" "in_critical (th_pc (bb_threads s ! t))" "\<not> bb_fault s"
    by (auto simp: bb_inv_def)
  with assms(2) show False
    using critical_steps [of s t client] by (auto simp: bb_stuck_def)
qed

lemma stuck_thread:
  assumes "bb_inv sz s" and "bb_stuck client s" and "t < length (bb_threads s)"
  shows "(th_pc (bb_threads s ! t) = Idle \<and> client t (th_calls (bb_threads s ! t)) = None) \<or>
    (\<exists>v. th_pc (bb_threads s ! t) = PushWait v \<and> bb_capacity (bb_obj s) = 0) \<or>
    (th_pc (bb_threads s ! t) = PopWait \<and> bb_numElements (bb_obj s) = 0)"
proof -
  have "bb_thread_step client t s = None" "\<not> bb_fault s"
    using assms by (auto simp: bb_stuck_def bb_inv_def)
  moreover have "\<not> in_critical (th_pc (bb_threads s ! t))"
    using assms(1,3) stuck_mutex_free [OF assms(1,2)] by (auto simp: bb_inv_def)
  ultimately show ?thesis
    using assms(3) stuck_mutex_free [OF assms(1,2)]
    by (cases "th_pc (bb_threads s ! t)")
      (auto simp: bb_thread_step_def is_pop_def in_critical_def Let_def
        split: if_splits option.splits bb_call.splits)
qed

lemma stuck_owns_nothing:
  assumes "bb_inv sz s" and "bb_stuck client s"
  shows "slots_owned s = 0" and "elems_owned s = 0"
proof -
  have "owns_slot th = 0 \<and> owns_elem th = 0" if "th \<in> set (bb_threads s)" for th
    using that stuck_thread [OF assms]
    by (force simp: in_set_conv_nth owns_slot_def owns_elem_def)
  then show "slots_owned s = 0" and "elems_owned s = 0"
    by (simp_all add: sum_list_eq_0_iff)
qed

section \<open>The program: one producer, one consumer\<close>

text \<open>
  \<open>producer\<close> pushes 0 to 9 and returns; \<open>consumer\<close> pops for ever. (The \<open>nanosleep\<close> and
  \<open>printf\<close> calls do not touch the buffer.)
\<close>

definition producer :: "nat \<Rightarrow> bb_call option" where
  "producer i = (if int i < 10 then Some (Push (int i)) else None)"

definition consumer :: "nat \<Rightarrow> bb_call option" where
  "consumer i = Some Pop"

definition ex1_client :: "nat \<Rightarrow> nat \<Rightarrow> bb_call option" where
  "ex1_client t = (if t = 0 then producer else if t = 1 then consumer else (\<lambda>_. None))"

text \<open>What the producer has pushed is determined by how far it has come.\<close>

fun producer_done :: "bb_thread \<Rightarrow> nat" where
  "producer_done th = th_calls th + (case th_pc th of PushUnlock \<Rightarrow> 1 | PushPost \<Rightarrow> 1 | _ \<Rightarrow> 0)"

definition ex1_inv :: "bb_sys \<Rightarrow> bool" where
  "ex1_inv s \<longleftrightarrow>
     length (bb_threads s) = 2 \<and> is_pop (th_pc (bb_threads s ! 0)) = False \<and>
     (th_pc (bb_threads s ! 1) = Idle \<or> is_pop (th_pc (bb_threads s ! 1))) \<and>
     (th_pc (bb_threads s ! 0) \<noteq> Idle \<longrightarrow> th_calls (bb_threads s ! 0) < 10) \<and>
     th_calls (bb_threads s ! 0) \<le> 10 \<and>
     (\<forall>v. th_pc (bb_threads s ! 0) \<in> {PushWait v, PushLock v, PushBody v} \<longrightarrow>
        v = int (th_calls (bb_threads s ! 0))) \<and>
     bb_pushed s = map int [0..<producer_done (bb_threads s ! 0)]"

lemma ex1_producer_step:
  assumes inv: "ex1_inv s" and step: "bb_thread_step ex1_client 0 s = Some s'" and "\<not> bb_fault s'"
  shows "ex1_inv s'"
  using assms
  by (cases "th_pc (bb_threads s ! 0)")
    (auto simp: ex1_inv_def bb_thread_step_def ex1_client_def producer_def is_pop_def set_pc_def
      end_call_def Let_def split: if_splits outcome.splits)

lemma ex1_consumer_step:
  assumes inv: "ex1_inv s" and step: "bb_thread_step ex1_client 1 s = Some s'" and "\<not> bb_fault s'"
  shows "ex1_inv s'"
  using assms
  by (cases "th_pc (bb_threads s ! 1)")
    (auto simp: ex1_inv_def bb_thread_step_def ex1_client_def consumer_def is_pop_def set_pc_def
      end_call_def Let_def split: if_splits outcome.splits)

lemma ex1_reach_inv:
  assumes "bb_reach ex1_client s0 s" and "bb_inv sz s0" and "ex1_inv s0"
  shows "ex1_inv s"
  using assms(1,3)
proof (induction rule: bb_reach.induct)
  case bb_start
  then show ?case .
next
  case (bb_next s t s')
  have "\<not> bb_fault s'"
    using bb_reach_inv [OF bb_reach.bb_next [OF bb_next.hyps] assms(2)] by (simp add: bb_inv_def)
  moreover have "t < 2"
    using bb_next by (auto simp: bb_thread_step_def ex1_inv_def split: if_splits)
  then have "t = 0 \<or> t = 1" by auto
  ultimately show ?case
    using bb_next ex1_producer_step [of s s'] ex1_consumer_step [of s s'] by auto
qed

lemma ex1_init: "ex1_inv (bb_init 2 b)"
  by (simp add: ex1_inv_def bb_init_def is_pop_def)

section \<open>Schedules\<close>

text \<open>
  A schedule names the thread that steps next; \<open>bb_sched\<close> runs it and is \<open>None\<close> when it picks a
  thread that cannot step.
\<close>

fun bb_sched :: "(nat \<Rightarrow> nat \<Rightarrow> bb_call option) \<Rightarrow> nat list \<Rightarrow> bb_sys \<Rightarrow> bb_sys option" where
  "bb_sched client [] s = Some s"
| "bb_sched client (t # ts) s =
     (case bb_thread_step client t s of None \<Rightarrow> None | Some s' \<Rightarrow> bb_sched client ts s')"

lemma bb_sched_reach_from:
  "bb_sched client ts s = Some s' \<Longrightarrow> bb_reach client s0 s \<Longrightarrow> bb_reach client s0 s'"
  by (induction ts arbitrary: s) (auto split: option.splits intro: bb_reach.bb_next)

lemma bb_sched_reach: "bb_sched client ts s = Some s' \<Longrightarrow> bb_reach client s s'"
  by (rule bb_sched_reach_from [OF _ bb_reach.bb_start])

section \<open>The main program\<close>

text \<open>
  \<open>main\<close> joins the producer, cancels the consumer and destroys the buffer. Cancellation is a
  request: the consumer acts on it when it next reaches a cancellation point, which are
  \<open>nanosleep\<close> and \<open>printf\<close> (between calls) and \<open>sem_wait\<close>, and not \<open>pthread_mutex_lock\<close>,
  \<open>pthread_mutex_unlock\<close> or \<open>sem_post\<close>. \<open>main\<close> does not join the consumer.
\<close>

datatype main_pc = MJoin | MCancel | MDestroy | MReturn

record ex1_prog =
  pr_sys :: bb_sys
  pr_main :: main_pc
  pr_cancelled :: bool  \<comment> \<open>the consumer's cancellation is requested\<close>
  pr_gone :: bool  \<comment> \<open>the consumer has acted on it\<close>
  pr_freed :: bool
  pr_use_after_free :: bool

datatype ex1_who = Main | Thread nat

text \<open>\<open>buf_destroy\<close> destroys the ring, the mutex and both semaphores and frees the buffer: nothing of it is left.\<close>

definition buf_destroy :: "ex1_prog \<Rightarrow> ex1_prog" where
  "buf_destroy p = p\<lparr>pr_freed := True\<rparr>"

fun ex1_main_step :: "ex1_prog \<Rightarrow> ex1_prog option" where
  "ex1_main_step p =
     (case pr_main p of
        MJoin \<Rightarrow>
          if th_pc (bb_threads (pr_sys p) ! 0) = Idle
             \<and> producer (th_calls (bb_threads (pr_sys p) ! 0)) = None
          then Some (p\<lparr>pr_main := MCancel\<rparr>) else None
      | MCancel \<Rightarrow> Some (p\<lparr>pr_cancelled := True, pr_main := MDestroy\<rparr>)
      | MDestroy \<Rightarrow> Some ((buf_destroy p)\<lparr>pr_main := MReturn\<rparr>)
      | MReturn \<Rightarrow> None)"

definition ex1_thread_step :: "nat \<Rightarrow> ex1_prog \<Rightarrow> ex1_prog option" where
  "ex1_thread_step t p =
     (let pc = th_pc (bb_threads (pr_sys p) ! t) in
      if t = 1 \<and> pr_gone p then None
      else if t = 1 \<and> pr_cancelled p \<and> (pc = Idle \<or> pc = PopWait) then Some (p\<lparr>pr_gone := True\<rparr>)
      else if pr_freed p \<and> pc \<noteq> Idle then Some (p\<lparr>pr_use_after_free := True\<rparr>)
      else map_option (\<lambda>s. p\<lparr>pr_sys := s\<rparr>) (bb_thread_step ex1_client t (pr_sys p)))"

fun ex1_run :: "ex1_who list \<Rightarrow> ex1_prog \<Rightarrow> ex1_prog option" where
  "ex1_run [] p = Some p"
| "ex1_run (Main # ws) p =
     (case ex1_main_step p of None \<Rightarrow> None | Some p' \<Rightarrow> ex1_run ws p')"
| "ex1_run (Thread t # ws) p =
     (case ex1_thread_step t p of None \<Rightarrow> None | Some p' \<Rightarrow> ex1_run ws p')"

definition ex1_start :: "BoundedBuffer \<Rightarrow> ex1_prog" where
  "ex1_start b = \<lparr>pr_sys = bb_init 2 b, pr_main = MJoin, pr_cancelled = False, pr_gone = False,
     pr_freed = False, pr_use_after_free = False\<rparr>"

section \<open>Properties\<close>

lemma buf_new_returned:
  assumes "buf_new malloc sz = Returned b" "rb_buffer (bb_buf b) \<noteq> None" "0 < sz" "sz \<le> INT_MAX"
  shows "bb_inv sz (bb_init n b)"
proof -
  have "malloc 112" "malloc 24" using assms(1)
    by (auto simp: buf_new_def rb_new_def Let_def split: if_splits)
  moreover have "malloc (unat (4 * (word_of_int sz :: size_t)))"
    using assms(1,2) by (auto simp: buf_new_def rb_new_def Let_def split: if_splits)
  moreover have "unat (4 * (word_of_int sz :: size_t)) = 4 * nat sz"
    using assms(3,4) by (simp add: unat_word_ariths unsigned_of_int take_bit_int_eq_self nat_less_iff)
  ultimately show ?thesis
    using buf_new_inv [OF assms(3,4), of malloc n] assms(1) by auto
qed

text \<open>The buffer \<open>main\<close> makes, \<open>buf_new(5)\<close>, when its allocations succeed.\<close>

definition ex1_buffer :: BoundedBuffer where
  "ex1_buffer = \<lparr>bb_buf = \<lparr>rb_buffer = Some (replicate 5 None), rb_capacity = 5, rb_insertIdx = 0,
     rb_removeIdx = 0, rb_length = 0\<rparr>, bb_mtx = None, bb_numElements = 0, bb_capacity = 5\<rparr>"

lemma ex1_buffer_new: "buf_new (\<lambda>_. True) 5 = Returned ex1_buffer"
  by (simp add: buf_new_def rb_new_def ex1_buffer_def Let_def)

lemma ex1_buffer_inv: "bb_inv 5 (bb_init n ex1_buffer)"
  by (rule buf_new_returned [OF ex1_buffer_new]) (simp_all add: ex1_buffer_def)

text \<open>
  C5: the bounded buffer is safe under every interleaving of any number of threads making any
  calls: no assertion of the ring buffer ever fails and nothing undefined happens, at most one
  thread is between lock and unlock, the buffer never holds more than its size, and the values
  popped so far followed by the values in the buffer are the values pushed so far, in order.
\<close>
theorem bounded_buffer_safe:
  assumes "buf_new malloc sz = Returned b" "rb_buffer (bb_buf b) \<noteq> None" "0 < sz" "sz \<le> INT_MAX"
    and "bb_reach client (bb_init n b) s"
  shows "\<not> bb_fault s \<and>
    (\<forall>t u. t < n \<and> u < n \<and> in_critical (th_pc (bb_threads s ! t)) \<and> in_critical (th_pc (bb_threads s ! u))
       \<longrightarrow> t = u) \<and>
    length (rb_items (bb_buf (bb_obj s))) \<le> nat sz \<and>
    bb_pushed s = bb_popped s @ rb_items (bb_buf (bb_obj s))"
proof -
  have "length (bb_threads s) = n"
    using assms(5)
  proof (induction rule: bb_reach.induct)
    case bb_start
    then show ?case by (simp add: bb_init_def)
  next
    case (bb_next s t s')
    then show ?case by (simp add: bb_thread_step_length)
  qed
  moreover have "bb_inv sz s"
    using bb_reach_inv [OF assms(5)] buf_new_returned [OF assms(1-4)] by blast
  ultimately show ?thesis by (auto simp: bb_inv_def)
qed

theorem bounded_buffer_safe_witness:
  "\<exists>s. bb_reach ex1_client (bb_init 2 ex1_buffer) s \<and> bb_pushed s = [0, 1] \<and> bb_popped s = [0] \<and>
     \<not> bb_fault s \<and> rb_items (bb_buf (bb_obj s)) = [1]"
proof -
  let ?run = "bb_sched ex1_client (concat (replicate 2 [0, 0, 0, 0, 0, 0]) @ [1, 1, 1, 1]) (bb_init 2 ex1_buffer)"
  have "map_option (\<lambda>s. (bb_pushed s, bb_popped s)) ?run = Some ([0, 1], [0])"
    by code_simp
  then obtain s where "?run = Some s" and h: "bb_pushed s = [0, 1]" "bb_popped s = [0]" by auto
  then have r: "bb_reach ex1_client (bb_init 2 ex1_buffer) s" by (intro bb_sched_reach)
  then show ?thesis
    using bounded_buffer_safe [OF ex1_buffer_new _ _ _ r] h by (auto simp: ex1_buffer_def)
qed

text \<open>
  C17: no deadlock. When no thread can step, either every thread has finished, or the threads that
  have not are all waiting to push into a full buffer, or all waiting to pop from an empty one.
\<close>
theorem bounded_buffer_no_deadlock:
  assumes "buf_new malloc sz = Returned b" "rb_buffer (bb_buf b) \<noteq> None" "0 < sz" "sz \<le> INT_MAX"
    and "bb_reach client (bb_init n b) s" and "bb_stuck client s"
  defines "waits th \<equiv> th_pc th \<noteq> Idle"
  shows "(\<forall>th \<in> set (bb_threads s). waits th \<longrightarrow> (\<exists>v. th_pc th = PushWait v)) \<and>
      ((\<exists>th \<in> set (bb_threads s). waits th) \<longrightarrow> length (rb_items (bb_buf (bb_obj s))) = nat sz) \<or>
    (\<forall>th \<in> set (bb_threads s). waits th \<longrightarrow> th_pc th = PopWait) \<and>
      ((\<exists>th \<in> set (bb_threads s). waits th) \<longrightarrow> rb_items (bb_buf (bb_obj s)) = [])"
proof -
  have inv: "bb_inv sz s"
    using bb_reach_inv [OF assms(5)] buf_new_returned [OF assms(1-4)] by blast
  note owns = stuck_owns_nothing [OF inv assms(6)]
  have sums: "bb_capacity (bb_obj s) + length (rb_items (bb_buf (bb_obj s))) = nat sz"
    "bb_numElements (bb_obj s) = length (rb_items (bb_buf (bb_obj s)))"
    using inv owns by (auto simp: bb_inv_def)
  have thread: "\<not> waits th \<or> (\<exists>v. th_pc th = PushWait v) \<and> bb_capacity (bb_obj s) = 0 \<or>
      th_pc th = PopWait \<and> bb_numElements (bb_obj s) = 0" if th: "th \<in> set (bb_threads s)" for th
  proof -
    obtain i where "i < length (bb_threads s)" "th = bb_threads s ! i"
      using th by (metis in_set_conv_nth)
    then show ?thesis using stuck_thread [OF inv assms(6), of i] by (auto simp: waits_def)
  qed
  show ?thesis
    using thread sums assms(3) by (cases "bb_numElements (bb_obj s) = 0") fastforce+
qed

theorem bounded_buffer_no_deadlock_witness:
  "\<exists>s. bb_reach ex1_client (bb_init 2 ex1_buffer) s \<and> bb_stuck ex1_client s \<and>
     th_pc (bb_threads s ! 1) = PopWait \<and> rb_items (bb_buf (bb_obj s)) = []"
proof -
  let ?run = "bb_sched ex1_client (concat (replicate 10 (replicate 6 0 @ replicate 6 1)) @ [1]) (bb_init 2 ex1_buffer)"
  have "map_option (\<lambda>s. (bb_thread_step ex1_client 0 s = None, bb_thread_step ex1_client 1 s = None,
      length (bb_threads s), th_pc (bb_threads s ! 1))) ?run = Some (True, True, 2, PopWait)"
    by code_simp
  then obtain s where run: "?run = Some s"
    and h: "bb_thread_step ex1_client 0 s = None" "bb_thread_step ex1_client 1 s = None"
      "length (bb_threads s) = 2" "th_pc (bb_threads s ! 1) = PopWait" by auto
  then have stuck: "bb_stuck ex1_client s" by (auto simp: bb_stuck_def less_2_cases_iff)
  have r: "bb_reach ex1_client (bb_init 2 ex1_buffer) s" by (rule bb_sched_reach [OF run])
  have "bb_threads s ! 1 \<in> set (bb_threads s)" using h(3) by (intro nth_mem) simp
  then show ?thesis
    using bounded_buffer_no_deadlock [OF ex1_buffer_new _ _ _ r stuck] h(4) r stuck
    by (auto simp: ex1_buffer_def)
qed

text \<open>
  C16: the program's consumer gets what its producer pushes. Under every schedule the consumer has
  popped an initial segment of 0, 1, ..., 9 in order, and when the two threads cannot go on it has
  popped all ten.
\<close>
theorem producer_consumer_in_order:
  assumes "bb_reach ex1_client (bb_init 2 ex1_buffer) s"
  shows "(\<exists>k \<le> 10. bb_popped s = map int [0..<k]) \<and>
    (bb_stuck ex1_client s \<longrightarrow> bb_popped s = map int [0..<10])"
proof -
  have inv: "bb_inv 5 s" using bb_reach_inv [OF assms ex1_buffer_inv] .
  have ex1: "ex1_inv s" using ex1_reach_inv [OF assms ex1_buffer_inv ex1_init] .
  define k where "k = producer_done (bb_threads s ! 0)"
  have k: "bb_pushed s = map int [0..<k]" "k \<le> 10"
    using ex1 unfolding ex1_inv_def k_def by (blast, cases "th_pc (bb_threads s ! 0)") auto
  have split: "map int [0..<k] = bb_popped s @ rb_items (bb_buf (bb_obj s))"
    using inv k by (simp add: bb_inv_def)
  have "bb_popped s = take (length (bb_popped s)) (map int [0..<k])"
    using split by simp
  then have "bb_popped s = map int [0..<length (bb_popped s)]" "length (bb_popped s) \<le> k"
    using arg_cong [OF split, of length] by (auto simp: take_map)
  moreover have "bb_popped s = map int [0..<10]" if stuck: "bb_stuck ex1_client s"
  proof -
    note owns = stuck_owns_nothing [OF inv stuck]
    have two: "0 < length (bb_threads s)" "1 < length (bb_threads s)" using ex1 by (auto simp: ex1_inv_def)
    have "bb_numElements (bb_obj s) = 0"
      using stuck_thread [OF inv stuck two(2)] ex1
      by (auto simp: ex1_inv_def ex1_client_def consumer_def is_pop_def)
    then have empty: "rb_items (bb_buf (bb_obj s)) = []" and "bb_capacity (bb_obj s) \<noteq> 0"
      using inv owns by (auto simp: bb_inv_def)
    then have "th_pc (bb_threads s ! 0) = Idle \<and> producer (th_calls (bb_threads s ! 0)) = None"
      using stuck_thread [OF inv stuck two(1)] ex1 by (auto simp: ex1_inv_def ex1_client_def is_pop_def)
    then have "bb_pushed s = map int [0..<10]"
      using ex1 by (auto simp: ex1_inv_def producer_def split: if_splits)
    with inv empty show ?thesis by (simp add: bb_inv_def)
  qed
  ultimately show ?thesis using k(2) by (intro conjI exI [of _ "length (bb_popped s)"] impI) auto
qed

theorem producer_consumer_in_order_witness:
  "\<exists>s. bb_reach ex1_client (bb_init 2 ex1_buffer) s \<and> bb_stuck ex1_client s \<and>
     bb_popped s = map int [0..<10]"
proof -
  let ?run = "bb_sched ex1_client (concat (replicate 10 (replicate 6 0 @ replicate 6 1)) @ [1]) (bb_init 2 ex1_buffer)"
  have "map_option (\<lambda>s. (bb_thread_step ex1_client 0 s = None, bb_thread_step ex1_client 1 s = None,
      length (bb_threads s))) ?run = Some (True, True, 2)"
    by code_simp
  then obtain s where run: "?run = Some s"
    and h: "bb_thread_step ex1_client 0 s = None" "bb_thread_step ex1_client 1 s = None"
      "length (bb_threads s) = 2" by auto
  then have "bb_stuck ex1_client s" by (auto simp: bb_stuck_def less_2_cases_iff)
  moreover have "bb_reach ex1_client (bb_init 2 ex1_buffer) s" by (rule bb_sched_reach [OF run])
  ultimately show ?thesis using producer_consumer_in_order by blast
qed

text \<open>
  C39: \<open>main\<close> destroys the buffer while the consumer may still be in \<open>buf_pop\<close>: there is a run of
  the program in which the producer has finished, the cancellation is requested, the buffer is
  freed, and the consumer, past \<open>sem_wait\<close>, then locks the freed mutex.
\<close>
theorem consumer_use_after_free:
  "\<exists>ws p. ex1_run ws (ex1_start ex1_buffer) = Some p \<and> pr_main p = MReturn \<and> pr_freed p \<and>
     pr_cancelled p \<and> \<not> pr_gone p \<and> pr_use_after_free p \<and> th_pc (bb_threads (pr_sys p) ! 1) = PopLock"
proof -
  let ?ws = "concat (replicate 9 (replicate 6 (Thread 0) @ replicate 6 (Thread 1))) @
    replicate 6 (Thread 0) @ [Thread 1, Thread 1, Main, Main, Main, Thread 1]"
  have "map_option (\<lambda>p. (pr_main p, pr_freed p, pr_cancelled p, pr_gone p, pr_use_after_free p,
      th_pc (bb_threads (pr_sys p) ! 1))) (ex1_run ?ws (ex1_start ex1_buffer))
    = Some (MReturn, True, True, False, True, PopLock)"
    by code_simp
  then show ?thesis by fastforce
qed

end
