(* ===== verification/Shared_Variable.thy ===== *)
theory Shared_Variable
  imports C_Format
begin

text \<open>
  \<open>Exercise1/3 - shared variable/c/foo.c\<close>: two threads add to and subtract from the global
  \<open>i\<close>, each a million times, under one mutex. The update of \<open>i\<close> is a load and a store, so without
  the mutex updates could be lost. Any enabled thread steps next; the number of iterations is the
  parameter \<open>n\<close>, and the program is \<open>n = 1000000\<close>.
\<close>

section \<open>The threads\<close>

datatype sv_pc = Test | Lock | Load | Store int | Unlock | Done

record sv_thread =
  sv_j :: nat
  sv_pc :: sv_pc

datatype sv_who = Inc | Dec

record sv_state =
  sv_i :: int
  sv_mutex :: "sv_who option"
  sv_inc :: sv_thread
  sv_dec :: sv_thread

definition sv_init :: sv_state where
  "sv_init = \<lparr>sv_i = - 1, sv_mutex = None, sv_inc = \<lparr>sv_j = 0, sv_pc = Test\<rparr>,
     sv_dec = \<lparr>sv_j = 0, sv_pc = Test\<rparr>\<rparr>"

text \<open>
  One statement of \<open>incrementingThreadFunction\<close>: the loop test, \<open>pthread_mutex_lock\<close>, the load
  and the store of \<open>i += 1\<close>, \<open>pthread_mutex_unlock\<close> with the loop's \<open>j++\<close>. \<open>None\<close>: the thread is
  blocked or has returned.
\<close>

definition incrementingThreadFunction :: "nat \<Rightarrow> sv_state \<Rightarrow> sv_state option" where
  "incrementingThreadFunction n s =
     (let th = sv_inc s in case sv_pc th of
        Test \<Rightarrow> Some (s\<lparr>sv_inc := th\<lparr>sv_pc := if sv_j th < n then Lock else Done\<rparr>\<rparr>)
      | Lock \<Rightarrow> if sv_mutex s = None then Some (s\<lparr>sv_mutex := Some Inc, sv_inc := th\<lparr>sv_pc := Load\<rparr>\<rparr>) else None
      | Load \<Rightarrow> Some (s\<lparr>sv_inc := th\<lparr>sv_pc := Store (sv_i s)\<rparr>\<rparr>)
      | Store v \<Rightarrow> Some (s\<lparr>sv_i := v + 1, sv_inc := th\<lparr>sv_pc := Unlock\<rparr>\<rparr>)
      | Unlock \<Rightarrow> Some (s\<lparr>sv_mutex := None, sv_inc := \<lparr>sv_j = Suc (sv_j th), sv_pc = Test\<rparr>\<rparr>)
      | Done \<Rightarrow> None)"

definition decrementingThreadFunction :: "nat \<Rightarrow> sv_state \<Rightarrow> sv_state option" where
  "decrementingThreadFunction n s =
     (let th = sv_dec s in case sv_pc th of
        Test \<Rightarrow> Some (s\<lparr>sv_dec := th\<lparr>sv_pc := if sv_j th < n then Lock else Done\<rparr>\<rparr>)
      | Lock \<Rightarrow> if sv_mutex s = None then Some (s\<lparr>sv_mutex := Some Dec, sv_dec := th\<lparr>sv_pc := Load\<rparr>\<rparr>) else None
      | Load \<Rightarrow> Some (s\<lparr>sv_dec := th\<lparr>sv_pc := Store (sv_i s)\<rparr>\<rparr>)
      | Store v \<Rightarrow> Some (s\<lparr>sv_i := v - 1, sv_dec := th\<lparr>sv_pc := Unlock\<rparr>\<rparr>)
      | Unlock \<Rightarrow> Some (s\<lparr>sv_mutex := None, sv_dec := \<lparr>sv_j = Suc (sv_j th), sv_pc = Test\<rparr>\<rparr>)
      | Done \<Rightarrow> None)"

definition sv_step :: "nat \<Rightarrow> sv_who \<Rightarrow> sv_state \<Rightarrow> sv_state option" where
  "sv_step n w s = (case w of Inc \<Rightarrow> incrementingThreadFunction n s | Dec \<Rightarrow> decrementingThreadFunction n s)"

fun sv_sched :: "nat \<Rightarrow> sv_who list \<Rightarrow> sv_state \<Rightarrow> sv_state option" where
  "sv_sched n [] s = Some s"
| "sv_sched n (w # ws) s = (case sv_step n w s of None \<Rightarrow> None | Some s' \<Rightarrow> sv_sched n ws s')"

text \<open>\<open>main\<close> joins both threads and prints \<open>i\<close>; \<open>None\<close> while a join still waits.\<close>

definition sv_main_output :: "sv_state \<Rightarrow> string option" where
  "sv_main_output s =
     (if sv_pc (sv_inc s) = Done \<and> sv_pc (sv_dec s) = Done
      then Some (''The magic number is: '' @ show_int (sv_i s) @ [CHR 0x0A]) else None)"

section \<open>The invariant and the steps left\<close>

definition sv_holds :: "sv_thread \<Rightarrow> bool" where
  "sv_holds th = (case sv_pc th of Load \<Rightarrow> True | Store _ \<Rightarrow> True | Unlock \<Rightarrow> True | _ \<Rightarrow> False)"

definition sv_updates :: "sv_thread \<Rightarrow> int" where
  "sv_updates th = int (sv_j th) + (if sv_pc th = Unlock then 1 else 0)"

definition sv_thread_ok :: "nat \<Rightarrow> int \<Rightarrow> sv_thread \<Rightarrow> bool" where
  "sv_thread_ok n i th \<longleftrightarrow> sv_j th \<le> n \<and>
     (case sv_pc th of Test \<Rightarrow> True | Done \<Rightarrow> sv_j th = n | Store v \<Rightarrow> sv_j th < n \<and> v = i | _ \<Rightarrow> sv_j th < n)"

definition sv_inv :: "nat \<Rightarrow> sv_state \<Rightarrow> bool" where
  "sv_inv n s \<longleftrightarrow>
     sv_i s = - 1 + sv_updates (sv_inc s) - sv_updates (sv_dec s) \<and>
     sv_thread_ok n (sv_i s) (sv_inc s) \<and> sv_thread_ok n (sv_i s) (sv_dec s) \<and>
     (sv_holds (sv_inc s) \<longleftrightarrow> sv_mutex s = Some Inc) \<and> (sv_holds (sv_dec s) \<longleftrightarrow> sv_mutex s = Some Dec)"

text \<open>An iteration takes five steps, and leaving the loop one.\<close>

definition sv_left :: "nat \<Rightarrow> sv_thread \<Rightarrow> nat" where
  "sv_left n th = 5 * (n - sv_j th) +
     (case sv_pc th of Test \<Rightarrow> 1 | Lock \<Rightarrow> 0 | Load \<Rightarrow> 0 | Store _ \<Rightarrow> 0 | Unlock \<Rightarrow> 0 | Done \<Rightarrow> 0) -
     (case sv_pc th of Test \<Rightarrow> 0 | Lock \<Rightarrow> 0 | Load \<Rightarrow> 1 | Store _ \<Rightarrow> 2 | Unlock \<Rightarrow> 3 | Done \<Rightarrow> 0)"

definition sv_total :: "nat \<Rightarrow> sv_state \<Rightarrow> nat" where
  "sv_total n s = sv_left n (sv_inc s) + sv_left n (sv_dec s)"

lemma sv_thread_simps [simp]:
  "sv_holds \<lparr>sv_j = j, sv_pc = p\<rparr> \<longleftrightarrow>
     (case p of Load \<Rightarrow> True | Store _ \<Rightarrow> True | Unlock \<Rightarrow> True | _ \<Rightarrow> False)"
  "sv_updates \<lparr>sv_j = j, sv_pc = p\<rparr> = int j + (if p = Unlock then 1 else 0)"
  "sv_thread_ok n i \<lparr>sv_j = j, sv_pc = p\<rparr> \<longleftrightarrow> j \<le> n \<and>
     (case p of Test \<Rightarrow> True | Done \<Rightarrow> j = n | Store v \<Rightarrow> j < n \<and> v = i | _ \<Rightarrow> j < n)"
  by (simp_all add: sv_holds_def sv_updates_def sv_thread_ok_def split: sv_pc.split)

lemma sv_thread_ok_other: "\<not> sv_holds th \<Longrightarrow> sv_thread_ok n i th = sv_thread_ok n i' th"
  by (auto simp: sv_holds_def sv_thread_ok_def split: sv_pc.splits)

lemma sv_updates_range: "sv_thread_ok n i th \<Longrightarrow> 0 \<le> sv_updates th \<and> sv_updates th \<le> int n"
  by (auto simp: sv_updates_def sv_thread_ok_def)

lemma sv_updates_done: "sv_thread_ok n i th \<Longrightarrow> sv_pc th = Done \<Longrightarrow> sv_updates th = int n"
  by (simp add: sv_updates_def sv_thread_ok_def)

lemma sv_left_0_iff: "sv_thread_ok n i th \<Longrightarrow> sv_left n th = 0 \<longleftrightarrow> sv_pc th = Done"
  by (cases "sv_pc th") (auto simp: sv_left_def sv_thread_ok_def)

lemma sv_invD:
  assumes "sv_inv n s"
  shows "sv_i s = - 1 + sv_updates (sv_inc s) - sv_updates (sv_dec s)"
    and "sv_thread_ok n (sv_i s) (sv_inc s)" and "sv_thread_ok n (sv_i s) (sv_dec s)"
  using assms unfolding sv_inv_def by blast+

lemma sv_inv_range:
  assumes "sv_inv n s"
  shows "- 1 - int n \<le> sv_i s \<and> sv_i s \<le> int n - 1"
proof -
  have "0 \<le> sv_updates (sv_inc s) \<and> sv_updates (sv_inc s) \<le> int n"
    by (rule sv_updates_range [OF sv_invD(2) [OF assms]])
  moreover have "0 \<le> sv_updates (sv_dec s) \<and> sv_updates (sv_dec s) \<le> int n"
    by (rule sv_updates_range [OF sv_invD(3) [OF assms]])
  ultimately show ?thesis using sv_invD(1) [OF assms] by linarith
qed

lemma sv_inv_init: "sv_inv n sv_init"
  by (simp add: sv_init_def sv_inv_def)

lemma sv_inc_step:
  assumes "sv_inv n s" and "incrementingThreadFunction n s = Some s'"
  shows "sv_inv n s' \<and> sv_total n s = Suc (sv_total n s')"
proof -
  obtain j p where th: "sv_inc s = \<lparr>sv_j = j, sv_pc = p\<rparr>" by (cases "sv_inc s") auto
  show ?thesis
    using assms th sv_thread_ok_other [of "sv_dec s" n "sv_i s" "sv_i s'"]
    by (cases p) (auto simp: sv_inv_def sv_total_def sv_left_def [of n "\<lparr>sv_j = _, sv_pc = _\<rparr>"]
        incrementingThreadFunction_def split: if_splits)
qed

lemma sv_dec_step:
  assumes "sv_inv n s" and "decrementingThreadFunction n s = Some s'"
  shows "sv_inv n s' \<and> sv_total n s = Suc (sv_total n s')"
proof -
  obtain j p where th: "sv_dec s = \<lparr>sv_j = j, sv_pc = p\<rparr>" by (cases "sv_dec s") auto
  show ?thesis
    using assms th sv_thread_ok_other [of "sv_inc s" n "sv_i s" "sv_i s'"]
    by (cases p) (auto simp: sv_inv_def sv_total_def sv_left_def [of n "\<lparr>sv_j = _, sv_pc = _\<rparr>"]
        decrementingThreadFunction_def split: if_splits)
qed

lemma sv_step_inv:
  assumes "sv_inv n s" and "sv_step n w s = Some s'"
  shows "sv_inv n s' \<and> sv_total n s = Suc (sv_total n s')"
  using assms sv_inc_step [of n s s'] sv_dec_step [of n s s']
  by (cases w) (auto simp: sv_step_def)

lemma sv_sched_inv:
  "sv_sched n ws s = Some s' \<Longrightarrow> sv_inv n s \<Longrightarrow> sv_inv n s' \<and> sv_total n s = length ws + sv_total n s'"
proof (induction ws arbitrary: s)
  case Nil
  then show ?case by simp
next
  case (Cons w ws)
  then obtain s1 where "sv_step n w s = Some s1" and "sv_sched n ws s1 = Some s'"
    by (auto split: option.splits)
  then show ?case using Cons sv_step_inv [of n s w s1] by auto
qed

lemma sv_total_0_iff:
  assumes "sv_inv n s"
  shows "sv_total n s = 0 \<longleftrightarrow> sv_pc (sv_inc s) = Done \<and> sv_pc (sv_dec s) = Done"
  using assms by (auto simp: sv_total_def sv_inv_def sv_left_0_iff)

lemma sv_no_deadlock:
  assumes "sv_inv n s" and "0 < sv_total n s"
  shows "\<exists>w s'. sv_step n w s = Some s'"
proof (rule ccontr)
  assume "\<not> ?thesis"
  then have "sv_step n Inc s = None" "sv_step n Dec s = None" by auto
  then have inc: "sv_pc (sv_inc s) = Done \<or> sv_pc (sv_inc s) = Lock \<and> sv_mutex s \<noteq> None"
    and dec: "sv_pc (sv_dec s) = Done \<or> sv_pc (sv_dec s) = Lock \<and> sv_mutex s \<noteq> None"
    by (simp_all add: sv_step_def incrementingThreadFunction_def decrementingThreadFunction_def Let_def
        split: sv_pc.splits if_splits)
  then have "\<not> sv_holds (sv_inc s)" "\<not> sv_holds (sv_dec s)"
    by (auto simp: sv_holds_def)
  then have "sv_mutex s = None"
    using assms(1) by (cases "sv_mutex s", simp, cases "the (sv_mutex s)") (auto simp: sv_inv_def)
  with inc dec have "sv_pc (sv_inc s) = Done \<and> sv_pc (sv_dec s) = Done" by simp
  then have "sv_total n s = 0" by (simp add: sv_total_0_iff [OF assms(1)])
  with assms(2) show False by simp
qed

lemma sv_can_finish:
  assumes "sv_inv n s"
  shows "\<exists>ws s'. sv_sched n ws s = Some s' \<and> sv_total n s' = 0"
  using assms
proof (induction "sv_total n s" arbitrary: s)
  case 0
  then show ?case by (intro exI [of _ "[]"]) auto
next
  case (Suc m)
  then obtain w s1 where step: "sv_step n w s = Some s1"
    using sv_no_deadlock [of n s] by auto
  then have "sv_inv n s1" "m = sv_total n s1" using sv_step_inv Suc by auto
  then obtain ws s' where "sv_sched n ws s1 = Some s'" "sv_total n s' = 0" using Suc(1) by blast
  with step show ?case by (intro exI [of _ "w # ws"]) auto
qed

section \<open>Properties\<close>

definition iterations :: nat where "iterations = 1000000"

text \<open>
  C18: the magic number is -1. Under every schedule, as long as the two threads run, \<open>i\<close> stays
  within a million of -1 (so no addition overflows), some thread can step, and no schedule is
  longer than 10000002 steps; and when both have been joined, \<open>main\<close> prints -1.
\<close>
theorem magic_number:
  assumes "sv_sched iterations ws sv_init = Some s"
  shows "- 1000001 \<le> sv_i s \<and> sv_i s \<le> 999999 \<and> length ws \<le> 10000002 \<and>
    (sv_main_output s = None \<longrightarrow> (\<exists>w s'. sv_step iterations w s = Some s')) \<and>
    (sv_main_output s \<noteq> None \<longrightarrow> sv_main_output s = Some (''The magic number is: -1'' @ [CHR 0x0A]))"
proof -
  have inv: "sv_inv iterations s" and len: "sv_total iterations sv_init = length ws + sv_total iterations s"
    using sv_sched_inv [OF assms sv_inv_init] by auto
  have "length ws \<le> 10000002"
    using len by (simp add: sv_total_def sv_left_def sv_init_def iterations_def)
  moreover have "- 1000001 \<le> sv_i s" "sv_i s \<le> 999999"
    using sv_inv_range [OF inv] by (simp_all add: iterations_def)
  moreover have "sv_i s = - 1" if "sv_pc (sv_inc s) = Done" "sv_pc (sv_dec s) = Done"
  proof -
    have "sv_updates (sv_inc s) = int iterations"
      by (rule sv_updates_done [OF sv_invD(2) [OF inv] that(1)])
    moreover have "sv_updates (sv_dec s) = int iterations"
      by (rule sv_updates_done [OF sv_invD(3) [OF inv] that(2)])
    ultimately show ?thesis using sv_invD(1) [OF inv] by linarith
  qed
  moreover have "show_int (- 1) = ''-1''"
    by code_simp
  moreover have "\<exists>w s'. sv_step iterations w s = Some s'" if "sv_main_output s = None"
  proof -
    have "\<not> (sv_pc (sv_inc s) = Done \<and> sv_pc (sv_dec s) = Done)"
      using that by (simp add: sv_main_output_def split: if_splits)
    then have "0 < sv_total iterations s" using sv_total_0_iff [OF inv] by auto
    then show ?thesis by (rule sv_no_deadlock [OF inv])
  qed
  ultimately show ?thesis
    by (simp add: sv_main_output_def)
qed

theorem magic_number_witness:
  "\<exists>ws s. sv_sched iterations ws sv_init = Some s \<and>
     sv_main_output s = Some (''The magic number is: -1'' @ [CHR 0x0A])"
proof -
  obtain ws s where run: "sv_sched iterations ws sv_init = Some s" and "sv_total iterations s = 0"
    using sv_can_finish [OF sv_inv_init] by blast
  then have "sv_main_output s \<noteq> None"
    using sv_sched_inv [OF run sv_inv_init] by (simp add: sv_total_0_iff sv_main_output_def)
  with run show ?thesis using magic_number [OF run] by blast
qed

end
