(* ===== verification/Posix.thy ===== *)
theory Posix
  imports Rt_Prelude
begin

text \<open>
  The operating-system objects the program uses, as their manual pages document them: pointers that
  can be null or dangling, mutexes, and event counters (\<open>eventfd\<close>). A file descriptor that the
  program owns alone is represented by its object; \<open>None\<close> is the descriptor -1. Nothing here models
  a file of the repository.
\<close>

section \<open>Pointers and mutexes\<close>

datatype 'a ptr = Null | Dangling | Valid 'a

text \<open>
  A mutex that no thread of the model holds between two operations: an operation that runs under
  the lock is one step. Locking a mutex that is not initialised or destroyed is undefined; locking
  one that the same thread already holds never returns.
\<close>

datatype mutex = Mutex_Dead | Mutex_Free | Mutex_Held

section \<open>Event counters\<close>

record eventfd =
  efd_count :: "64 word"
  efd_semaphore :: bool

text \<open>
  A write adds to the counter unless that would reach the largest 64-bit value, and then it fails
  or blocks. A read of zero fails or blocks; else it takes 1 (\<open>EFD_SEMAPHORE\<close>) or everything.
  \<open>POLLIN\<close> is signalled while the counter is not zero.
\<close>

definition efd_write :: "64 word \<Rightarrow> eventfd \<Rightarrow> eventfd option" where
  "efd_write v e = (if unat (efd_count e) + unat v < 2 ^ 64 - 1
     then Some (e\<lparr>efd_count := efd_count e + v\<rparr>) else None)"

lemma efd_write_code [code]:
  "efd_write v e = (if uint (efd_count e) + uint v < 18446744073709551615
     then Some (e\<lparr>efd_count := efd_count e + v\<rparr>) else None)"
proof -
  have "unat (efd_count e) + unat v < 2 ^ 64 - 1 \<longleftrightarrow> int (unat (efd_count e) + unat v) < int (2 ^ 64 - 1)"
    by (simp only: of_nat_less_iff)
  then show ?thesis by (simp add: efd_write_def)
qed

definition efd_read :: "eventfd \<Rightarrow> (64 word \<times> eventfd) option" where
  "efd_read e =
     (if efd_count e = 0 then None
      else if efd_semaphore e then Some (1, e\<lparr>efd_count := efd_count e - 1\<rparr>)
      else Some (efd_count e, e\<lparr>efd_count := 0\<rparr>))"

definition efd_readable :: "eventfd option \<Rightarrow> bool" where
  "efd_readable fd = (case fd of None \<Rightarrow> False | Some e \<Rightarrow> efd_count e \<noteq> 0)"

text \<open>The callers ignore the result of \<open>write\<close> and \<open>read\<close>, and so the errors too.\<close>

definition efd_signal :: "eventfd option \<Rightarrow> eventfd option" where
  "efd_signal fd = (case fd of None \<Rightarrow> None
     | Some e \<Rightarrow> (case efd_write 1 e of None \<Rightarrow> Some e | Some e' \<Rightarrow> Some e'))"

definition efd_take :: "eventfd option \<Rightarrow> eventfd option" where
  "efd_take fd = (case fd of None \<Rightarrow> None
     | Some e \<Rightarrow> (case efd_read e of None \<Rightarrow> Some e | Some (v, e') \<Rightarrow> Some e'))"

lemma efd_signal_readable: "efd_signal (Some e) = Some e' \<Longrightarrow> efd_readable (Some e')"
proof -
  assume s: "efd_signal (Some e) = Some e'"
  show ?thesis
  proof (cases "unat (efd_count e) + 1 < 2 ^ 64 - 1")
    case True
    then have "unat (efd_count e + 1) = unat (efd_count e) + 1"
      by (simp add: unat_word_ariths)
    then have "efd_count e + 1 \<noteq> 0" by (metis add_is_0 one_neq_zero unat_0)
    with s True show ?thesis by (auto simp: efd_signal_def efd_write_def efd_readable_def)
  next
    case False
    then have "efd_count e \<noteq> 0" by auto
    with s False show ?thesis by (auto simp: efd_signal_def efd_write_def efd_readable_def)
  qed
qed

end
