(* ===== verification/Fifo_Queue.thy ===== *)
theory Fifo_Queue
  imports Queue_Interface Posix
begin

text \<open>
  \<open>rtsystem/src/core/fifo_queue.c\<close> on items of one type: slot \<open>i\<close> of the buffer stands for the
  bytes from \<open>i * item_size\<close> on, and \<open>memcpy\<close> of one item is a copy of a slot. (That the address
  arithmetic on the bytes comes to this is proved in \<open>Fifo_Bytes\<close>.) Each operation runs under the
  queue's mutex, so it is one step; \<open>None\<close> is undefined behaviour.
\<close>

section \<open>The queue and its operations\<close>

record 'a fifo_queue =
  q_buffer :: "'a option list ptr"
  q_item_size :: size_t
  q_capacity :: size_t
  q_head :: size_t
  q_tail :: size_t
  q_count :: size_t
  q_lock :: mutex
  q_event_fd :: "eventfd option"

text \<open>
  \<open>malloc\<close> and \<open>eventfd_ok\<close> say whether the two requests succeed. The product
  \<open>item_size * capacity\<close> wraps around in \<open>size_t\<close>, and the buffer has as many slots as whole
  items fit into the bytes requested.
\<close>

definition fifo_queue_init :: "(nat \<Rightarrow> bool) \<Rightarrow> bool \<Rightarrow> 'a fifo_queue \<Rightarrow> size_t \<Rightarrow> size_t \<Rightarrow> int \<times> 'a fifo_queue" where
  "fifo_queue_init malloc eventfd_ok q item_size capacity =
     (let bytes = unat (item_size * capacity) in
      if \<not> malloc bytes then (- 1, q\<lparr>q_buffer := Null\<rparr>)
      else
        let q1 = q\<lparr>q_buffer := Valid (replicate (bytes div unat item_size) None),
                  q_item_size := item_size, q_capacity := capacity,
                  q_head := 0, q_tail := 0, q_count := 0, q_lock := Mutex_Free\<rparr> in
        if \<not> eventfd_ok then (- 1, q1\<lparr>q_event_fd := None, q_buffer := Dangling, q_lock := Mutex_Dead\<rparr>)
        else (0, q1\<lparr>q_event_fd := Some \<lparr>efd_count = 0, efd_semaphore = True\<rparr>\<rparr>))"

definition fifo_queue_destroy :: "'a fifo_queue \<Rightarrow> 'a fifo_queue option" where
  "fifo_queue_destroy q =
     (if q_buffer q = Dangling \<or> q_lock q \<noteq> Mutex_Free then None
      else Some (q\<lparr>q_buffer := Null, q_event_fd := None, q_lock := Mutex_Dead\<rparr>))"

definition fifo_queue_send :: "'a fifo_queue \<Rightarrow> 'a \<Rightarrow> (int \<times> 'a fifo_queue) option" where
  "fifo_queue_send q item =
     (if q_lock q \<noteq> Mutex_Free then None
      else if q_count q \<ge> q_capacity q then Some (- 1, q)
      else case q_buffer q of
        Valid buf \<Rightarrow>
          if \<not> unat (q_head q) < length buf then None
          else Some (0, q\<lparr>q_buffer := Valid (buf[unat (q_head q) := Some item]),
            q_head := (q_head q + 1) mod q_capacity q,
            q_count := q_count q + 1,
            q_event_fd := efd_signal (q_event_fd q)\<rparr>)
      | _ \<Rightarrow> None)"

text \<open>The received item is the middle component; a failing call leaves \<open>*item\<close> alone.\<close>

definition fifo_queue_receive :: "'a fifo_queue \<Rightarrow> (int \<times> 'a option \<times> 'a fifo_queue) option" where
  "fifo_queue_receive q =
     (if q_lock q \<noteq> Mutex_Free then None
      else if q_count q = 0 then Some (- 1, None, q)
      else case q_buffer q of
        Valid buf \<Rightarrow>
          if \<not> unat (q_tail q) < length buf then None
          else (case buf ! unat (q_tail q) of
            None \<Rightarrow> None
          | Some item \<Rightarrow> Some (0, Some item, q\<lparr>
              q_tail := (q_tail q + 1) mod q_capacity q,
              q_count := q_count q - 1,
              q_event_fd := efd_take (q_event_fd q)\<rparr>))
      | _ \<Rightarrow> None)"

definition fifo_queue_count :: "'a fifo_queue \<Rightarrow> size_t option" where
  "fifo_queue_count q = (if q_lock q \<noteq> Mutex_Free then None else Some (q_count q))"

section \<open>Well-formed queues\<close>

definition fq_window :: "'a fifo_queue \<Rightarrow> 'a option list" where
  "fq_window q = (case q_buffer q of
     Valid buf \<Rightarrow> ring_list buf (unat (q_capacity q)) (unat (q_tail q)) (unat (q_count q)) | _ \<Rightarrow> [])"

definition fq_items :: "'a fifo_queue \<Rightarrow> 'a list" where
  "fq_items q = map the (fq_window q)"

text \<open>
  The indices are in range and the head follows the window of \<open>count\<close> slots from the tail, the
  slots of the window are written, the mutex is alive, and the event counter equals \<open>count\<close>.
\<close>

definition fq_wf :: "'a fifo_queue \<Rightarrow> bool" where
  "fq_wf q \<longleftrightarrow>
     0 < q_capacity q \<and> q_capacity q \<noteq> - 1 \<and>
     (\<exists>buf. q_buffer q = Valid buf \<and> length buf = unat (q_capacity q)) \<and>
     q_head q < q_capacity q \<and> q_tail q < q_capacity q \<and> q_count q \<le> q_capacity q \<and>
     unat (q_head q) = (unat (q_tail q) + unat (q_count q)) mod unat (q_capacity q) \<and>
     None \<notin> set (fq_window q) \<and> q_lock q = Mutex_Free \<and>
     q_event_fd q = Some \<lparr>efd_count = q_count q, efd_semaphore = True\<rparr>"

lemma fq_wfE:
  assumes "fq_wf q"
  obtains buf where "q_buffer q = Valid buf" "length buf = unat (q_capacity q)"
    "0 < unat (q_capacity q)" "unat (q_capacity q) < 2 ^ 64 - 1"
    "unat (q_tail q) < unat (q_capacity q)" "unat (q_count q) \<le> unat (q_capacity q)"
    "unat (q_head q) = (unat (q_tail q) + unat (q_count q)) mod unat (q_capacity q)"
    "fq_window q = ring_list buf (unat (q_capacity q)) (unat (q_tail q)) (unat (q_count q))"
    "None \<notin> set (fq_window q)" "q_lock q = Mutex_Free"
    "q_event_fd q = Some \<lparr>efd_count = q_count q, efd_semaphore = True\<rparr>"
proof -
  have "unat (q_capacity q) \<noteq> unat (- 1 :: size_t)"
    using assms by (simp add: fq_wf_def word_unat_eq_iff)
  moreover have "unat (q_capacity q) < 2 ^ 64"
    using unsigned_less [of "q_capacity q"] by simp
  ultimately have "unat (q_capacity q) < 2 ^ 64 - 1"
    by (simp add: unsigned_minus_1_eq_mask mask_eq_exp_minus_1)
  then show thesis
    using assms that by (auto simp: fq_wf_def fq_window_def word_less_nat_alt word_le_nat_alt)
qed

lemma length_fq_items: "fq_wf q \<Longrightarrow> length (fq_items q) = unat (q_count q)"
  by (auto simp: fq_wf_def fq_items_def fq_window_def)

lemma fq_send_full:
  "q_lock q = Mutex_Free \<Longrightarrow> q_capacity q \<le> q_count q \<Longrightarrow> fifo_queue_send q x = Some (- 1, q)"
  by (simp add: fifo_queue_send_def)

lemma fq_receive_empty:
  "q_lock q = Mutex_Free \<Longrightarrow> q_count q = 0 \<Longrightarrow> fifo_queue_receive q = Some (- 1, None, q)"
  by (simp add: fifo_queue_receive_def)

lemma fq_send_room:
  assumes wf: "fq_wf q" and room: "q_count q < q_capacity q"
  shows "\<exists>q'. fifo_queue_send q x = Some (0, q') \<and> fq_wf q' \<and> fq_items q' = fq_items q @ [x] \<and>
    q_capacity q' = q_capacity q \<and> q_item_size q' = q_item_size q"
  using wf
proof (rule fq_wfE)
  fix buf
  let ?c = "unat (q_capacity q)" and ?t = "unat (q_tail q)" and ?n = "unat (q_count q)"
  assume q: "q_buffer q = Valid buf" "length buf = ?c" "0 < ?c" "?c < 2 ^ 64 - 1" "?t < ?c" "?n \<le> ?c"
    "unat (q_head q) = (?t + ?n) mod ?c" "fq_window q = ring_list buf ?c ?t ?n"
    "None \<notin> set (fq_window q)" "q_lock q = Mutex_Free"
    "q_event_fd q = Some \<lparr>efd_count = q_count q, efd_semaphore = True\<rparr>"
  have n: "?n < ?c" using room by (simp add: word_less_nat_alt)
  have head: "q_head q < q_capacity q" using wf by (simp add: fq_wf_def)
  have count: "unat (q_count q + 1) = Suc ?n" using room by (rule unat_plus_one)
  have signal: "efd_signal (q_event_fd q) = Some \<lparr>efd_count = q_count q + 1, efd_semaphore = True\<rparr>"
    using q n by (simp add: efd_signal_def efd_write_def)
  let ?buf = "buf[(?t + ?n) mod ?c := Some x]"
  let ?q = "q\<lparr>q_buffer := Valid ?buf, q_head := (q_head q + 1) mod q_capacity q,
     q_count := q_count q + 1, q_event_fd := efd_signal (q_event_fd q)\<rparr>"
  have "fifo_queue_send q x = Some (0, ?q)"
    using q room by (simp add: fifo_queue_send_def)
  moreover have win: "fq_window ?q = fq_window q @ [Some x]"
    using q n count by (simp add: fq_window_def ring_list_push)
  moreover have "fq_wf ?q"
    using wf q n head count win signal
    by (simp add: fq_wf_def unat_ring_next mod_less_word word_le_nat_alt mod_simps)
  ultimately show ?thesis by (auto simp: fq_items_def)
qed

lemma fq_receive_some:
  assumes wf: "fq_wf q" and some: "q_count q \<noteq> 0"
  shows "\<exists>y q'. fifo_queue_receive q = Some (0, Some y, q') \<and> fq_wf q' \<and> fq_items q = y # fq_items q' \<and>
    q_capacity q' = q_capacity q \<and> q_item_size q' = q_item_size q"
  using wf
proof (rule fq_wfE)
  fix buf
  let ?c = "unat (q_capacity q)" and ?t = "unat (q_tail q)" and ?n = "unat (q_count q)"
  assume q: "q_buffer q = Valid buf" "length buf = ?c" "0 < ?c" "?c < 2 ^ 64 - 1" "?t < ?c" "?n \<le> ?c"
    "unat (q_head q) = (?t + ?n) mod ?c" "fq_window q = ring_list buf ?c ?t ?n"
    "None \<notin> set (fq_window q)" "q_lock q = Mutex_Free"
    "q_event_fd q = Some \<lparr>efd_count = q_count q, efd_semaphore = True\<rparr>"
  obtain m where m: "?n = Suc m"
    using some by (metis not0_implies_Suc unat_eq_zero)
  have tail: "q_tail q < q_capacity q" using wf by (simp add: fq_wf_def)
  have count: "unat (q_count q - 1) = m" using some m by (simp add: word_index)
  have take: "efd_take (q_event_fd q) = Some \<lparr>efd_count = q_count q - 1, efd_semaphore = True\<rparr>"
    using q some by (simp add: efd_take_def efd_read_def)
  have ring: "fq_window q = buf ! ?t # ring_list buf ?c (Suc ?t mod ?c) m"
    using q by (simp add: m ring_list_Cons)
  then obtain y where y: "buf ! ?t = Some y" using q(9) by (cases "buf ! ?t") auto
  let ?q = "q\<lparr>q_tail := (q_tail q + 1) mod q_capacity q, q_count := q_count q - 1,
     q_event_fd := efd_take (q_event_fd q)\<rparr>"
  have "fifo_queue_receive q = Some (0, Some y, ?q)"
    using q some y by (simp add: fifo_queue_receive_def)
  moreover have win: "fq_window q = Some y # fq_window ?q"
    using q y ring tail count by (simp add: fq_window_def unat_ring_next)
  moreover have "None \<notin> set (fq_window ?q)"
    using q(9) unfolding win by simp
  then have "fq_wf ?q"
    using wf q m tail count take
    by (simp add: fq_wf_def unat_ring_next mod_less_word word_le_nat_alt mod_simps)
  ultimately show ?thesis by (auto simp: fq_items_def)
qed

lemma fq_init_wf:
  assumes "malloc (unat (item_size * capacity))"
    and "0 < item_size" "0 < capacity" "capacity \<noteq> - 1"
    and "unat item_size * unat capacity < 2 ^ 64"
  shows "\<exists>q'. fifo_queue_init malloc True q item_size capacity = (0, q') \<and> fq_wf q' \<and>
    fq_items q' = [] \<and> q_capacity q' = capacity \<and> q_item_size q' = item_size"
proof -
  have "unat (item_size * capacity) = unat item_size * unat capacity"
    using assms(5) by (simp add: unat_word_ariths)
  moreover have "unat item_size \<noteq> 0"
    using assms(2) by (simp add: unat_eq_zero word_gt_0)
  ultimately show ?thesis
    using assms(1,3,4) by (simp add: fifo_queue_init_def Let_def fq_wf_def fq_items_def fq_window_def)
qed

lemma fq_destroy_wf:
  "fq_wf q \<Longrightarrow> fifo_queue_destroy q = Some (q\<lparr>q_buffer := Null, q_event_fd := None, q_lock := Mutex_Dead\<rparr>)"
  by (auto simp: fq_wf_def fifo_queue_destroy_def)

section \<open>The queue is a pollable bounded queue\<close>

definition fq_enq :: "'a fifo_queue \<Rightarrow> 'a \<Rightarrow> 'a fifo_queue option" where
  "fq_enq q x = (case fifo_queue_send q x of Some (r, q') \<Rightarrow> if r = 0 then Some q' else None | None \<Rightarrow> None)"

definition fq_deq :: "'a fifo_queue \<Rightarrow> ('a \<times> 'a fifo_queue) option" where
  "fq_deq q = (case fifo_queue_receive q of Some (r, Some y, q') \<Rightarrow> if r = 0 then Some (y, q') else None
     | _ \<Rightarrow> None)"

text \<open>What \<open>poll\<close> on the queue's \<open>event_fd\<close> reports.\<close>

definition fq_ready :: "'a fifo_queue \<Rightarrow> bool" where
  "fq_ready q = efd_readable (q_event_fd q)"

lemma fq_enq_wf:
  assumes "fq_wf q"
  shows "fq_enq q x = None \<and> length (fq_items q) = unat (q_capacity q) \<or>
    (\<exists>q'. fq_enq q x = Some q' \<and> length (fq_items q) < unat (q_capacity q) \<and> fq_wf q' \<and>
       fq_items q' = fq_items q @ [x] \<and> q_capacity q' = q_capacity q)"
proof (cases "q_count q < q_capacity q")
  case True
  then show ?thesis
    using fq_send_room [OF assms True, of x] length_fq_items [OF assms]
    by (auto simp: fq_enq_def word_less_nat_alt)
next
  case False
  moreover have "q_lock q = Mutex_Free" "q_count q \<le> q_capacity q"
    using assms by (auto simp: fq_wf_def)
  ultimately show ?thesis
    using fq_send_full [of q x] length_fq_items [OF assms] by (auto simp: fq_enq_def)
qed

lemma fq_deq_wf:
  assumes "fq_wf q"
  shows "fq_deq q = None \<and> fq_items q = [] \<or>
    (\<exists>y q'. fq_deq q = Some (y, q') \<and> fq_items q = y # fq_items q' \<and> fq_wf q' \<and>
       q_capacity q' = q_capacity q)"
proof (cases "q_count q = 0")
  case True
  then show ?thesis
    using fq_receive_empty [of q] length_fq_items [OF assms] assms by (auto simp: fq_deq_def fq_wf_def)
next
  case False
  then show ?thesis
    using fq_receive_some [OF assms False] by (auto simp: fq_deq_def)
qed

interpretation fq: pollable_queue fq_wf fq_items "\<lambda>q. unat (q_capacity q)" fq_enq fq_deq fq_ready
proof
  fix q q' :: "'a fifo_queue" and x y :: 'a
  assume wf: "fq_wf q"
  then show "length (fq_items q) \<le> unat (q_capacity q)"
    by (auto simp: length_fq_items fq_wf_def word_le_nat_alt)
  show "map_option fq_items (fq_enq q x) = spec_enq (unat (q_capacity q)) (fq_items q) x"
    using fq_enq_wf [OF wf, of x] by (auto simp: spec_enq_def)
  show "map_option (map_prod id fq_items) (fq_deq q) = spec_deq (fq_items q)"
    using fq_deq_wf [OF wf] by auto
  show "fq_enq q x = Some q' \<Longrightarrow> fq_wf q' \<and> unat (q_capacity q') = unat (q_capacity q)"
    using fq_enq_wf [OF wf, of x] by auto
  show "fq_deq q = Some (y, q') \<Longrightarrow> fq_wf q' \<and> unat (q_capacity q') = unat (q_capacity q)"
    using fq_deq_wf [OF wf] by auto
  have "fq_items q \<noteq> [] \<longleftrightarrow> q_count q \<noteq> 0"
    using length_fq_items [OF wf] by (metis length_0_conv unat_eq_zero)
  then show "fq_ready q \<longleftrightarrow> fq_items q \<noteq> []"
    using wf by (auto simp: fq_ready_def fq_wf_def efd_readable_def)
qed

section \<open>Properties\<close>

text \<open>A small queue for the witnesses: three slots of one byte, with one item.\<close>

definition fq_sample :: "nat fifo_queue" where
  "fq_sample = \<lparr>q_buffer = Valid [Some 7, None, None], q_item_size = 1, q_capacity = 3, q_head = 1,
     q_tail = 0, q_count = 1, q_lock = Mutex_Free,
     q_event_fd = Some \<lparr>efd_count = 1, efd_semaphore = True\<rparr>\<rparr>"

lemma fq_sample_wf: "fq_wf fq_sample" and fq_sample_items: "fq_items fq_sample = [7]"
  and fq_sample_capacity: "unat (q_capacity fq_sample) = 3"
  by (simp_all add: fq_wf_def fq_sample_def fq_window_def fq_items_def ring_list_def)

lemma fq_full_iff: "fq_wf q \<Longrightarrow> length (fq_items q) = unat (q_capacity q) \<longleftrightarrow> q_capacity q \<le> q_count q"
  by (auto simp: length_fq_items word_le_nat_alt fq_wf_def)

lemma fq_empty_iff: "fq_wf q \<Longrightarrow> fq_items q = [] \<longleftrightarrow> q_count q = 0"
  by (metis length_0_conv length_fq_items unat_eq_zero)

lemma fq_send_cases:
  assumes "fq_wf q"
  shows "if length (fq_items q) = unat (q_capacity q) then fifo_queue_send q x = Some (- 1, q)
    else \<exists>q'. fifo_queue_send q x = Some (0, q') \<and> fq_wf q' \<and> fq_items q' = fq_items q @ [x] \<and>
      q_capacity q' = q_capacity q"
proof -
  have "q_lock q = Mutex_Free" using assms by (simp add: fq_wf_def)
  then show ?thesis
    using fq_send_full [of q x] fq_send_room [OF assms, of x]
    by (auto simp: fq_full_iff [OF assms] not_le)
qed

lemma fq_receive_cases:
  assumes "fq_wf q"
  shows "if fq_items q = [] then fifo_queue_receive q = Some (- 1, None, q)
    else \<exists>q'. fifo_queue_receive q = Some (0, Some (hd (fq_items q)), q') \<and> fq_wf q' \<and>
      fq_items q' = tl (fq_items q) \<and> q_capacity q' = q_capacity q"
proof -
  have "q_lock q = Mutex_Free" using assms by (simp add: fq_wf_def)
  then show ?thesis
    using fq_receive_empty [of q] fq_receive_some [OF assms]
    by (fastforce simp: fq_empty_iff [OF assms])
qed

text \<open>
  What the operations of the queue do, on every branch. On a well-formed queue no call is
  undefined; \<open>fifo_queue_send\<close> returns -1 and changes nothing exactly when the queue is full, and
  else returns 0 and appends the item; \<open>fifo_queue_receive\<close> returns -1 and changes nothing exactly
  when it is empty, and else returns 0 and the oldest item; \<open>fifo_queue_count\<close> is the number of
  items.
\<close>
theorem fifo_queue_operations:
  assumes "fq_wf q"
  shows "(if length (fq_items q) = unat (q_capacity q) then fifo_queue_send q x = Some (- 1, q)
      else \<exists>q'. fifo_queue_send q x = Some (0, q') \<and> fq_wf q' \<and> fq_items q' = fq_items q @ [x] \<and>
        q_capacity q' = q_capacity q) \<and>
    (if fq_items q = [] then fifo_queue_receive q = Some (- 1, None, q)
      else \<exists>q'. fifo_queue_receive q = Some (0, Some (hd (fq_items q)), q') \<and> fq_wf q' \<and>
        fq_items q' = tl (fq_items q) \<and> q_capacity q' = q_capacity q) \<and>
    map_option unat (fifo_queue_count q) = Some (length (fq_items q))"
  using fq_send_cases [OF assms, of x] fq_receive_cases [OF assms] length_fq_items [OF assms] assms
  by (simp add: fifo_queue_count_def fq_wf_def)

theorem fifo_queue_operations_witness:
  "\<exists>q'. fifo_queue_send fq_sample 8 = Some (0, q') \<and> fq_items q' = [7, 8] \<and>
     (\<exists>q''. fifo_queue_receive fq_sample = Some (0, Some 7, q'') \<and> fq_items q'' = [])"
proof -
  have "length (fq_items fq_sample) \<noteq> unat (q_capacity fq_sample)"
    by (simp add: fq_sample_items fq_sample_capacity)
  then show ?thesis
    using fifo_queue_operations [OF fq_sample_wf, of 8] by (auto simp: fq_sample_items)
qed






end
