(* ===== verification/Fifo_Bytes.thy ===== *)
theory Fifo_Bytes
  imports Fifo_Queue
begin

text \<open>
  The memory behind \<open>fifo_queue.c\<close>: the buffer as the bytes that \<open>malloc\<close> returned, the
  destination and source addresses computed in \<open>size_t\<close>, and \<open>memcpy\<close> as the copy of
  \<open>item_size\<close> bytes. An item is the list of bytes of the object the caller points to. The theory
  shows that, as long as the size of the buffer does not overflow, these operations are those of
  \<open>Fifo_Queue\<close> on slots.
\<close>

section \<open>The operations on bytes\<close>

record byte_queue =
  b_buffer :: "byte list ptr"
  b_item_size :: size_t
  b_capacity :: size_t
  b_head :: size_t
  b_tail :: size_t
  b_count :: size_t
  b_lock :: mutex
  b_event_fd :: "eventfd option"

text \<open>Here \<open>malloc\<close> returns the block with its (arbitrary) contents, of the requested length.\<close>

definition bytes_init :: "(nat \<Rightarrow> byte list option) \<Rightarrow> bool \<Rightarrow> byte_queue \<Rightarrow> size_t \<Rightarrow> size_t \<Rightarrow> int \<times> byte_queue" where
  "bytes_init malloc eventfd_ok q item_size capacity =
     (case malloc (unat (item_size * capacity)) of
        None \<Rightarrow> (- 1, q\<lparr>b_buffer := Null\<rparr>)
      | Some block \<Rightarrow>
          let q1 = q\<lparr>b_buffer := Valid block, b_item_size := item_size, b_capacity := capacity,
                    b_head := 0, b_tail := 0, b_count := 0, b_lock := Mutex_Free\<rparr> in
          if \<not> eventfd_ok then (- 1, q1\<lparr>b_event_fd := None, b_buffer := Dangling, b_lock := Mutex_Dead\<rparr>)
          else (0, q1\<lparr>b_event_fd := Some \<lparr>efd_count = 0, efd_semaphore = True\<rparr>\<rparr>))"

text \<open>\<open>memcpy\<close> into and out of a block; \<open>None\<close> when either side is too short.\<close>

definition copy_in :: "byte list \<Rightarrow> size_t \<Rightarrow> byte list \<Rightarrow> size_t \<Rightarrow> byte list option" where
  "copy_in buf off item n =
     (if unat off + unat n \<le> length buf \<and> unat n \<le> length item
      then Some (take (unat off) buf @ take (unat n) item @ drop (unat off + unat n) buf) else None)"

definition copy_out :: "byte list \<Rightarrow> size_t \<Rightarrow> size_t \<Rightarrow> byte list option" where
  "copy_out buf off n =
     (if unat off + unat n \<le> length buf then Some (take (unat n) (drop (unat off) buf)) else None)"

definition bytes_send :: "byte_queue \<Rightarrow> byte list \<Rightarrow> (int \<times> byte_queue) option" where
  "bytes_send q item =
     (if b_lock q \<noteq> Mutex_Free then None
      else if b_count q \<ge> b_capacity q then Some (- 1, q)
      else case b_buffer q of
        Valid buf \<Rightarrow>
          (case copy_in buf (b_head q * b_item_size q) item (b_item_size q) of
             None \<Rightarrow> None
           | Some buf' \<Rightarrow> Some (0, q\<lparr>b_buffer := Valid buf',
               b_head := (b_head q + 1) mod b_capacity q,
               b_count := b_count q + 1,
               b_event_fd := efd_signal (b_event_fd q)\<rparr>))
      | _ \<Rightarrow> None)"

definition bytes_receive :: "byte_queue \<Rightarrow> (int \<times> byte list option \<times> byte_queue) option" where
  "bytes_receive q =
     (if b_lock q \<noteq> Mutex_Free then None
      else if b_count q = 0 then Some (- 1, None, q)
      else case b_buffer q of
        Valid buf \<Rightarrow>
          (case copy_out buf (b_tail q * b_item_size q) (b_item_size q) of
             None \<Rightarrow> None
           | Some item \<Rightarrow> Some (0, Some item, q\<lparr>
               b_tail := (b_tail q + 1) mod b_capacity q,
               b_count := b_count q - 1,
               b_event_fd := efd_take (b_event_fd q)\<rparr>))
      | _ \<Rightarrow> None)"

section \<open>Slots of the buffer\<close>

definition chunk :: "nat \<Rightarrow> byte list \<Rightarrow> nat \<Rightarrow> byte list" where
  "chunk n buf i = take n (drop (i * n) buf)"

definition slots :: "nat \<Rightarrow> nat \<Rightarrow> byte list \<Rightarrow> byte list option list" where
  "slots n c buf = map (\<lambda>i. Some (chunk n buf i)) [0..<c]"

definition on_slots :: "byte_queue \<Rightarrow> byte list fifo_queue" where
  "on_slots q = \<lparr>
     q_buffer = (case b_buffer q of Null \<Rightarrow> Null | Dangling \<Rightarrow> Dangling
       | Valid buf \<Rightarrow> Valid (slots (unat (b_item_size q)) (unat (b_capacity q)) buf)),
     q_item_size = b_item_size q, q_capacity = b_capacity q, q_head = b_head q, q_tail = b_tail q,
     q_count = b_count q, q_lock = b_lock q, q_event_fd = b_event_fd q\<rparr>"

text \<open>The buffer has exactly the bytes of \<open>capacity\<close> items, and that number fits \<open>size_t\<close>.\<close>

definition bytes_fit :: "byte_queue \<Rightarrow> bool" where
  "bytes_fit q \<longleftrightarrow>
     (\<exists>buf. b_buffer q = Valid buf \<and> length buf = unat (b_item_size q) * unat (b_capacity q)) \<and>
     unat (b_item_size q) * unat (b_capacity q) < 2 ^ 64"

definition bytes_wf :: "byte_queue \<Rightarrow> bool" where
  "bytes_wf q \<longleftrightarrow> bytes_fit q \<and> fq_wf (on_slots q)"

definition bytes_items :: "byte_queue \<Rightarrow> byte list list" where
  "bytes_items q = fq_items (on_slots q)"

lemma on_slots_simps [simp]:
  "q_item_size (on_slots q) = b_item_size q" "q_capacity (on_slots q) = b_capacity q"
  "q_head (on_slots q) = b_head q" "q_tail (on_slots q) = b_tail q"
  "q_count (on_slots q) = b_count q" "q_lock (on_slots q) = b_lock q"
  "q_event_fd (on_slots q) = b_event_fd q"
  by (simp_all add: on_slots_def)

lemma length_slots [simp]: "length (slots n c buf) = c"
  by (simp add: slots_def)

lemma slot_end: "i < c \<Longrightarrow> i * n + n \<le> n * (c::nat)"
  using mult_le_mono1 [of "Suc i" c n] by (simp add: mult.commute add.commute)

lemma nth_patch:
  assumes "off + length item \<le> length buf" and "m < length buf"
  shows "(take off buf @ item @ drop (off + length item) buf) ! m =
    (if off \<le> m \<and> m < off + length item then item ! (m - off) else buf ! m)"
  using assms by (auto simp: nth_append min_def)

lemma chunk_patch:
  assumes "length buf = n * c" "length item = n" "i < c" "j < c"
  shows "chunk n (take (i * n) buf @ item @ drop (i * n + n) buf) j =
    (if j = i then item else chunk n buf j)"
proof -
  define new where "new = take (i * n) buf @ item @ drop (i * n + n) buf"
  have ends: "i * n + n \<le> length buf" "j * n + n \<le> length buf"
    using assms slot_end by auto
  have new: "length new = length buf" using ends assms(2) by (simp add: new_def)
  have nth: "new ! (j * n + k) = (if j = i then item ! k else buf ! (j * n + k))" if k: "k < n" for k
  proof -
    have "j * n + n \<le> i * n" if "j < i" using that mult_le_mono1 [of "Suc j" i n] by simp
    moreover have "i * n + n \<le> j * n" if "i < j" using that mult_le_mono1 [of "Suc i" j n] by simp
    ultimately have "i * n \<le> j * n + k \<and> j * n + k < i * n + n \<longleftrightarrow> j = i"
      using k by (cases i j rule: linorder_cases) auto
    then show ?thesis
      using nth_patch [of "i * n" item buf "j * n + k"] ends assms(2) k by (auto simp: new_def)
  qed
  have len: "length (chunk n new j) = n" "length (chunk n buf j) = n"
    using ends(2) new by (simp_all add: chunk_def)
  have "chunk n new j = (if j = i then item else chunk n buf j)"
    by (rule nth_equalityI) (use len assms(2) nth ends(2) new in \<open>auto simp: chunk_def\<close>)
  then show ?thesis by (simp only: new_def)
qed

lemma slots_patch:
  assumes "length buf = n * c" "length item = n" "i < c"
  shows "slots n c (take (i * n) buf @ item @ drop (i * n + n) buf) = (slots n c buf)[i := Some item]"
  by (rule nth_equalityI) (use assms(3) in \<open>auto simp: slots_def nth_list_update chunk_patch [OF assms]\<close>)

lemma offset_no_wrap:
  assumes "unat (n::size_t) * unat c < 2 ^ 64" and "i < c"
  shows "unat (i * n) = unat i * unat n"
proof -
  have "unat i * unat n \<le> unat n * unat c"
    using assms(2) by (simp add: word_less_nat_alt mult.commute)
  also note assms(1)
  finally have "unat i * unat n < 2 ^ LENGTH(64)" by simp
  then show ?thesis by (simp only: unat_mult_lem)
qed

section \<open>The operations on bytes are those on slots\<close>

lemma bytes_send_slots:
  assumes "bytes_fit q" "b_head q < b_capacity q" "length item = unat (b_item_size q)"
  shows "map_option (map_prod id on_slots) (bytes_send q item) = fifo_queue_send (on_slots q) item"
    and "bytes_send q item = Some (r, q') \<Longrightarrow> bytes_fit q'"
proof -
  let ?n = "unat (b_item_size q)" and ?c = "unat (b_capacity q)" and ?h = "unat (b_head q)"
  obtain buf where buf: "b_buffer q = Valid buf" "length buf = ?n * ?c"
    using assms(1) by (auto simp: bytes_fit_def)
  have off: "unat (b_head q * b_item_size q) = ?h * ?n"
    using assms(1,2) by (auto simp: bytes_fit_def intro: offset_no_wrap)
  have h: "?h < ?c" using assms(2) by (simp add: word_less_nat_alt)
  have copy: "copy_in buf (b_head q * b_item_size q) item (b_item_size q)
      = Some (take (?h * ?n) buf @ item @ drop (?h * ?n + ?n) buf)"
    using slot_end [OF h, of ?n] buf(2) assms(3) by (simp add: copy_in_def off)
  show "map_option (map_prod id on_slots) (bytes_send q item) = fifo_queue_send (on_slots q) item"
    using buf copy h slots_patch [OF buf(2) assms(3) h]
    by (simp add: bytes_send_def fifo_queue_send_def on_slots_def)
  show "bytes_fit q'" if "bytes_send q item = Some (r, q')"
    using that buf copy assms slot_end [OF h, of ?n]
    by (auto simp: bytes_send_def bytes_fit_def split: if_splits)
qed

lemma bytes_receive_slots:
  assumes "bytes_fit q" "b_tail q < b_capacity q"
  shows "map_option (map_prod id (map_prod id on_slots)) (bytes_receive q) = fifo_queue_receive (on_slots q)"
    and "bytes_receive q = Some (r, x, q') \<Longrightarrow> bytes_fit q'"
proof -
  let ?n = "unat (b_item_size q)" and ?c = "unat (b_capacity q)" and ?t = "unat (b_tail q)"
  obtain buf where buf: "b_buffer q = Valid buf" "length buf = ?n * ?c"
    using assms(1) by (auto simp: bytes_fit_def)
  have off: "unat (b_tail q * b_item_size q) = ?t * ?n"
    using assms(1,2) by (auto simp: bytes_fit_def intro: offset_no_wrap)
  have t: "?t < ?c" using assms(2) by (simp add: word_less_nat_alt)
  have copy: "copy_out buf (b_tail q * b_item_size q) (b_item_size q) = Some (chunk ?n buf ?t)"
    using slot_end [OF t, of ?n] buf(2) by (simp add: copy_out_def off chunk_def)
  have slot: "slots ?n ?c buf ! ?t = Some (chunk ?n buf ?t)"
    using t by (simp add: slots_def)
  show "map_option (map_prod id (map_prod id on_slots)) (bytes_receive q) = fifo_queue_receive (on_slots q)"
    using buf copy t slot by (simp add: bytes_receive_def fifo_queue_receive_def on_slots_def)
  show "bytes_fit q'" if "bytes_receive q = Some (r, x, q')"
    using that buf copy assms by (auto simp: bytes_receive_def bytes_fit_def split: if_splits)
qed

lemma bytes_init_slots:
  assumes "\<And>n block. malloc n = Some block \<Longrightarrow> length block = n"
    and "unat item_size * unat capacity < 2 ^ 64"
    and "bytes_init malloc efd_ok q item_size capacity = (0, q')"
  shows "bytes_fit q' \<and> b_capacity q' = capacity \<and> b_item_size q' = item_size \<and> b_count q' = 0 \<and>
    b_head q' = 0 \<and> b_tail q' = 0 \<and> b_lock q' = Mutex_Free \<and>
    b_event_fd q' = Some \<lparr>efd_count = 0, efd_semaphore = True\<rparr>"
proof -
  have "unat (item_size * capacity) = unat item_size * unat capacity"
    using assms(2) by (simp add: unat_word_ariths)
  with assms show ?thesis
    by (auto simp: bytes_init_def bytes_fit_def Let_def split: option.splits if_splits)
qed

section \<open>Runs\<close>

definition bytes_enq :: "byte_queue \<Rightarrow> byte list \<Rightarrow> byte_queue option" where
  "bytes_enq q item = (case bytes_send q item of Some (r, q') \<Rightarrow> if r = 0 then Some q' else None | None \<Rightarrow> None)"

definition bytes_deq :: "byte_queue \<Rightarrow> (byte list \<times> byte_queue) option" where
  "bytes_deq q = (case bytes_receive q of Some (r, Some y, q') \<Rightarrow> if r = 0 then Some (y, q') else None
     | _ \<Rightarrow> None)"

lemma bytes_wfD:
  "bytes_wf q \<Longrightarrow> bytes_fit q \<and> b_head q < b_capacity q \<and> b_tail q < b_capacity q \<and> fq_wf (on_slots q)"
  by (auto simp: bytes_wf_def fq_wf_def)

lemma bytes_send_item_size: "bytes_send q item = Some (r, q') \<Longrightarrow> b_item_size q' = b_item_size q"
  by (auto simp: bytes_send_def split: if_splits ptr.splits option.splits)

lemma bytes_receive_item_size: "bytes_receive q = Some (r, x, q') \<Longrightarrow> b_item_size q' = b_item_size q"
  by (auto simp: bytes_receive_def split: if_splits ptr.splits option.splits)

lemma bytes_enq_slots:
  assumes "bytes_wf q" "length item = unat (b_item_size q)"
  shows "map_option on_slots (bytes_enq q item) = fq_enq (on_slots q) item"
    and "bytes_enq q item = Some q' \<Longrightarrow> bytes_wf q' \<and> b_item_size q' = b_item_size q"
proof -
  note fit = bytes_wfD [OF assms(1)]
  note step = bytes_send_slots [of q item, OF _ _ assms(2)]
  show enq: "map_option on_slots (bytes_enq q item) = fq_enq (on_slots q) item"
    unfolding bytes_enq_def fq_enq_def step(1) [OF conjunct1 [OF fit] conjunct1 [OF conjunct2 [OF fit]], symmetric]
    by (cases "bytes_send q item") auto
  show "bytes_wf q' \<and> b_item_size q' = b_item_size q" if some: "bytes_enq q item = Some q'"
  proof -
    have "fq_enq (on_slots q) item = Some (on_slots q')" by (simp add: enq [symmetric] some)
    then have "fq_wf (on_slots q')"
      using fq.enq_keeps [of "on_slots q" item "on_slots q'"] fit by simp
    moreover obtain r where r: "bytes_send q item = Some (r, q')"
      using some by (auto simp: bytes_enq_def split: option.splits if_splits prod.splits)
    ultimately show ?thesis
      using step(2) [OF _ _ r] fit bytes_send_item_size [OF r] by (simp add: bytes_wf_def)
  qed
qed

lemma bytes_deq_slots:
  assumes "bytes_wf q"
  shows "map_option (map_prod id on_slots) (bytes_deq q) = fq_deq (on_slots q)"
    and "bytes_deq q = Some (y, q') \<Longrightarrow> bytes_wf q' \<and> b_item_size q' = b_item_size q"
proof -
  note fit = bytes_wfD [OF assms(1)]
  note step = bytes_receive_slots [of q]
  show deq: "map_option (map_prod id on_slots) (bytes_deq q) = fq_deq (on_slots q)"
    unfolding bytes_deq_def fq_deq_def
      step(1) [OF conjunct1 [OF fit] conjunct1 [OF conjunct2 [OF conjunct2 [OF fit]]], symmetric]
    by (cases "bytes_receive q") (auto split: option.split)
  show "bytes_wf q' \<and> b_item_size q' = b_item_size q" if some: "bytes_deq q = Some (y, q')"
  proof -
    have "fq_deq (on_slots q) = Some (y, on_slots q')" by (simp add: deq [symmetric] some)
    then have "fq_wf (on_slots q')"
      using fq.deq_keeps [of "on_slots q" y "on_slots q'"] fit by simp
    moreover obtain r where r: "bytes_receive q = Some (r, Some y, q')"
      using some by (auto simp: bytes_deq_def split: option.splits if_splits)
    ultimately show ?thesis
      using step(2) [OF _ _ r] fit bytes_receive_item_size [OF r] by (simp add: bytes_wf_def)
  qed
qed

lemma bytes_run_slots:
  assumes "bytes_wf q" "\<forall>item. Send item \<in> set ops \<longrightarrow> length item = unat (b_item_size q)"
  shows "map_prod on_slots id (q_run bytes_enq bytes_deq q ops) = q_run fq_enq fq_deq (on_slots q) ops"
  using assms
proof (induction ops arbitrary: q)
  case Nil
  then show ?case by simp
next
  case (Cons e ops)
  show ?case
  proof (cases e)
    case (Send item)
    with Cons.prems have len: "length item = unat (b_item_size q)" by simp
    show ?thesis
    proof (cases "bytes_enq q item")
      case None
      then have "fq_enq (on_slots q) item = None"
        using bytes_enq_slots(1) [OF Cons.prems(1) len] by simp
      with None Send Cons show ?thesis by simp
    next
      case (Some q1)
      then have fq: "fq_enq (on_slots q) item = Some (on_slots q1)"
        using bytes_enq_slots(1) [OF Cons.prems(1) len] by simp
      obtain r s g where run: "q_run bytes_enq bytes_deq q1 ops = (r, s, g)" by (metis prod_cases3)
      have "q_run fq_enq fq_deq (on_slots q1) ops = (on_slots r, s, g)"
        using Cons.IH [of q1] Cons.prems bytes_enq_slots(2) [OF Cons.prems(1) len Some] run by simp
      with run Send Some fq show ?thesis by simp
    qed
  next
    case Receive
    show ?thesis
    proof (cases "bytes_deq q")
      case None
      then have "fq_deq (on_slots q) = None"
        using bytes_deq_slots(1) [OF Cons.prems(1)] by simp
      with None Receive Cons show ?thesis by simp
    next
      case (Some a)
      then obtain y q1 where d: "bytes_deq q = Some (y, q1)" by (cases a) simp
      then have fq: "fq_deq (on_slots q) = Some (y, on_slots q1)"
        using bytes_deq_slots(1) [OF Cons.prems(1)] by (metis map_prod_simp id_apply option.simps(9))
      obtain r s g where run: "q_run bytes_enq bytes_deq q1 ops = (r, s, g)" by (metis prod_cases3)
      have "q_run fq_enq fq_deq (on_slots q1) ops = (on_slots r, s, g)"
        using Cons.IH [of q1] Cons.prems bytes_deq_slots(2) [OF Cons.prems(1) d] run by simp
      with run Receive d fq show ?thesis by simp
    qed
  qed
qed

lemma bytes_init_wf:
  assumes "\<And>n block. malloc n = Some block \<Longrightarrow> length block = n"
    and "0 < capacity" "capacity \<noteq> - 1" "unat item_size * unat capacity < 2 ^ 64"
    and "bytes_init malloc efd_ok q item_size capacity = (0, q')"
  shows "bytes_wf q' \<and> bytes_items q' = [] \<and> b_capacity q' = capacity \<and> b_item_size q' = item_size"
proof -
  note init = bytes_init_slots [OF assms(1,4,5)]
  then obtain buf where "b_buffer q' = Valid buf" by (auto simp: bytes_fit_def)
  with init assms(2,3) show ?thesis
    by (simp add: bytes_wf_def bytes_items_def fq_wf_def fq_items_def fq_window_def)
      (simp add: on_slots_def)
qed

section \<open>Properties\<close>


definition bytes_blank :: byte_queue where
  "bytes_blank = \<lparr>b_buffer = Null, b_item_size = 0, b_capacity = 0, b_head = 0, b_tail = 0, b_count = 0,
     b_lock = Mutex_Dead, b_event_fd = None\<rparr>"


end
