(* ===== verification/Log_Queue.thy ===== *)
theory Log_Queue
  imports Fifo_Queue C_Format "HOL-Library.Monad_Syntax"
begin

text \<open>
  \<open>rtsystem/include/rtsystem/async_log_helper.h\<close>: log messages, the global state of the logger and
  the macro \<open>ALOG\<close> that every task logs with; and the printing half of
  \<open>rtsystem/src/tasks/log_task.c\<close>: tag colours and \<open>print_log_message\<close>. The state is a record that
  the later theories extend. A function that may run into undefined behaviour returns an option, and
  \<open>None\<close> is undefined behaviour.
\<close>

section \<open>Messages and the logger's state\<close>

record timespec =
  tv_sec :: int
  tv_nsec :: int

text \<open>The arrays \<open>tag[32]\<close> and \<open>message[256]\<close> hold a string and its NUL.\<close>

record log_message =
  lm_level :: int
  lm_tag :: string
  lm_message :: string
  lm_timestamp :: timespec

definition LOG_LEVEL_DEBUG :: int where "LOG_LEVEL_DEBUG = 0"
definition LOG_LEVEL_INFO :: int where "LOG_LEVEL_INFO = 1"
definition LOG_LEVEL_WARN :: int where "LOG_LEVEL_WARN = 2"
definition LOG_LEVEL_ERROR :: int where "LOG_LEVEL_ERROR = 3"

lemmas log_levels = LOG_LEVEL_DEBUG_def LOG_LEVEL_INFO_def LOG_LEVEL_WARN_def LOG_LEVEL_ERROR_def

datatype thread_status = T_None | T_Running | T_Cancelling | T_Exited | T_Joined

text \<open>
  \<open>g_log_queue\<close>, \<open>g_log_running\<close>, \<open>g_log_done_fd\<close> (null for -1, dangling for a closed descriptor
  that the variable still names), the thread of the log task, the real-time clock, and what has
  been written to \<open>stderr\<close>.
\<close>

record log_state =
  g_log_queue :: "log_message fifo_queue"
  g_log_running :: bool
  g_log_done_fd :: "eventfd ptr"
  log_thread :: thread_status
  clock :: timespec
  stderr :: "string list"

definition write_stderr :: "string \<Rightarrow> 'z log_state_scheme \<Rightarrow> 'z log_state_scheme" where
  "write_stderr line s = s\<lparr>stderr := stderr s @ [line]\<rparr>"

definition make_message :: "int \<Rightarrow> string \<Rightarrow> string \<Rightarrow> timespec \<Rightarrow> log_message" where
  "make_message level tag msg now =
     \<lparr>lm_level = level, lm_tag = c_trunc 32 tag, lm_message = c_trunc 256 msg, lm_timestamp = now\<rparr>"

text \<open>
  \<open>ALOG(level, tag, fmt, ...)\<close> in a file compiled with \<open>LOG_LEVEL\<close> \<open>threshold\<close>; \<open>msg\<close> is the
  formatted text before \<open>snprintf\<close> truncates it. The two halves, up to the time stamp and from
  \<open>fifo_queue_send\<close> on, are separate because another thread can log in between.
\<close>

definition ALOG_begin :: "int \<Rightarrow> string \<Rightarrow> string \<Rightarrow> 'z log_state_scheme \<Rightarrow> log_message \<times> 'z log_state_scheme" where
  "ALOG_begin level tag msg s =
     (let s1 = (if g_log_running s then s
        else write_stderr (''WARN: attempting to log while log_task not running ['' @ tag @ '']'' @ newline) s)
      in (make_message level tag msg (clock s), s1))"

definition ALOG_send :: "string \<Rightarrow> log_message \<Rightarrow> 'z log_state_scheme \<Rightarrow> 'z log_state_scheme option" where
  "ALOG_send tag m s = do {
     (r, q) \<leftarrow> fifo_queue_send (g_log_queue s) m;
     let s1 = s\<lparr>g_log_queue := q\<rparr>;
     Some (if r \<noteq> 0 then write_stderr (''ERR: log queue full ['' @ tag @ '']'' @ newline) s1 else s1)
   }"

definition ALOG :: "int \<Rightarrow> int \<Rightarrow> string \<Rightarrow> string \<Rightarrow> 'z log_state_scheme \<Rightarrow> 'z log_state_scheme option" where
  "ALOG threshold level tag msg s =
     (if level \<ge> threshold
      then (case ALOG_begin level tag msg s of (m, s1) \<Rightarrow> ALOG_send tag m s1)
      else Some s)"

text \<open>Every file of \<open>rtsystem\<close> that logs defines \<open>LOG_LEVEL\<close> as \<open>LOG_LEVEL_DEBUG\<close>.\<close>

definition LOGD :: "string \<Rightarrow> string \<Rightarrow> 'z log_state_scheme \<Rightarrow> 'z log_state_scheme option" where
  "LOGD = ALOG LOG_LEVEL_DEBUG LOG_LEVEL_DEBUG"

definition LOGI :: "string \<Rightarrow> string \<Rightarrow> 'z log_state_scheme \<Rightarrow> 'z log_state_scheme option" where
  "LOGI = ALOG LOG_LEVEL_DEBUG LOG_LEVEL_INFO"

definition LOGW :: "string \<Rightarrow> string \<Rightarrow> 'z log_state_scheme \<Rightarrow> 'z log_state_scheme option" where
  "LOGW = ALOG LOG_LEVEL_DEBUG LOG_LEVEL_WARN"

definition LOGE :: "string \<Rightarrow> string \<Rightarrow> 'z log_state_scheme \<Rightarrow> 'z log_state_scheme option" where
  "LOGE = ALOG LOG_LEVEL_DEBUG LOG_LEVEL_ERROR"

text \<open>\<open>LOGx_ERRNO\<close> appends the text of \<open>errno\<close>, here the argument \<open>err\<close>.\<close>

definition LOGD_ERRNO :: "string \<Rightarrow> string \<Rightarrow> string \<Rightarrow> 'z log_state_scheme \<Rightarrow> 'z log_state_scheme option" where
  "LOGD_ERRNO tag msg err = LOGD tag (msg @ '': '' @ err)"

definition LOGI_ERRNO :: "string \<Rightarrow> string \<Rightarrow> string \<Rightarrow> 'z log_state_scheme \<Rightarrow> 'z log_state_scheme option" where
  "LOGI_ERRNO tag msg err = LOGI tag (msg @ '': '' @ err)"

definition LOGW_ERRNO :: "string \<Rightarrow> string \<Rightarrow> string \<Rightarrow> 'z log_state_scheme \<Rightarrow> 'z log_state_scheme option" where
  "LOGW_ERRNO tag msg err = LOGW tag (msg @ '': '' @ err)"

definition LOGE_ERRNO :: "string \<Rightarrow> string \<Rightarrow> string \<Rightarrow> 'z log_state_scheme \<Rightarrow> 'z log_state_scheme option" where
  "LOGE_ERRNO tag msg err = LOGE tag (msg @ '': '' @ err)"

section \<open>Printing\<close>

definition tag_colors :: "string list" where
  "tag_colors = map esc [''38;5;141'', ''38;5;179'', ''38;5;109'', ''38;5;175'', ''38;5;149'', ''38;5;74'',
     ''38;5;183'', ''38;5;216'', ''38;5;121'', ''38;5;210'', ''38;5;117'']"

text \<open>The hash is an \<open>unsigned\<close> of 32 bits and wraps around.\<close>

fun tag_hash :: "32 word \<Rightarrow> string \<Rightarrow> 32 word" where
  "tag_hash h [] = h"
| "tag_hash h (c # cs) = tag_hash (h * 31 + of_char c) cs"

definition get_tag_color :: "string \<Rightarrow> string" where
  "get_tag_color tag = tag_colors ! unat (tag_hash 0 tag mod word_of_nat (length tag_colors))"

definition level_colors :: "string list" where
  "level_colors = map esc [''36'', ''32'', ''33'', ''31'']"

definition level_names :: "string list" where
  "level_names = [''D'', ''I'', ''W'', ''E'']"

definition COLOR_RESET :: string where [simp]: "COLOR_RESET = esc ''0''"
definition LOG_TIME_RESOLUTION_NS :: int where [simp]: "LOG_TIME_RESOLUTION_NS = 1000"
definition LOG_TAG_MIN_WIDTH :: nat where [simp]: "LOG_TAG_MIN_WIDTH = 12"

text \<open>
  \<open>localtime t\<close> is the hour, minute and second that \<open>localtime_r\<close> gives for \<open>t\<close>. The two tables
  are indexed by the level.
\<close>

definition print_log_message :: "(int \<Rightarrow> int \<times> int \<times> int) \<Rightarrow> log_message \<Rightarrow> string option" where
  "print_log_message localtime m =
     (if \<not> (0 \<le> lm_level m \<and> lm_level m < 4) then None
      else case localtime (tv_sec (lm_timestamp m)) of (hh, mm, ss) \<Rightarrow>
        let color = level_colors ! nat (lm_level m) in
        Some (pad0 2 (show_int hh) @ '':'' @ pad0 2 (show_int mm) @ '':'' @ pad0 2 (show_int ss) @ ''.'' @
          pad0 6 (show_int (tv_nsec (lm_timestamp m) div LOG_TIME_RESOLUTION_NS)) @ '' '' @
          color @ level_names ! nat (lm_level m) @ '' '' @
          get_tag_color (lm_tag m) @ pad_right LOG_TAG_MIN_WIDTH (lm_tag m) @ color @ '': '' @ lm_message m @
          COLOR_RESET @ newline))"

section \<open>The tag colours\<close>

lemma tag_hash_snoc: "tag_hash h (cs @ [c]) = tag_hash h cs * 31 + of_char c"
  by (induction cs arbitrary: h) simp_all

lemma tag_hash_polynomial:
  "tag_hash 0 tag = of_nat (\<Sum>i < length tag. of_char (tag ! i) * 31 ^ (length tag - 1 - i))"
proof (induction tag rule: rev_induct)
  case Nil
  then show ?case by simp
next
  case (snoc c cs)
  have "(\<Sum>i < length cs. of_char ((cs @ [c]) ! i) * 31 ^ (length cs - i))
      = (\<Sum>i < length cs. of_char (cs ! i) * 31 ^ (length cs - 1 - i)) * (31::nat)"
    unfolding sum_distrib_right
  proof (rule sum.cong)
    fix i
    assume "i \<in> {..<length cs}"
    then have "length cs - i = Suc (length cs - 1 - i)" "(cs @ [c]) ! i = cs ! i"
      by (auto simp: nth_append)
    then show "of_char ((cs @ [c]) ! i) * 31 ^ (length cs - i)
        = of_char (cs ! i) * 31 ^ (length cs - 1 - i) * (31::nat)"
      by simp
  qed simp
  then show ?case by (simp add: tag_hash_snoc snoc String.of_nat_of_char)
qed

lemma tag_color_in_table: "get_tag_color tag \<in> set tag_colors"
proof -
  have "unat (tag_hash 0 tag mod word_of_nat (length tag_colors)) < length tag_colors"
    by (simp add: tag_colors_def unat_mod_distrib)
  then show ?thesis unfolding get_tag_color_def by (rule nth_mem)
qed

section \<open>Facts about logging\<close>

definition log_wf :: "'z log_state_scheme \<Rightarrow> bool" where
  "log_wf s \<longleftrightarrow> fq_wf (g_log_queue s) \<and> (\<forall>m \<in> set (fq_items (g_log_queue s)). 0 \<le> lm_level m \<and> lm_level m < 4)"

definition queued :: "'z log_state_scheme \<Rightarrow> log_message list" where
  "queued s = fq_items (g_log_queue s)"

definition log_capacity :: "'z log_state_scheme \<Rightarrow> nat" where
  "log_capacity s = unat (q_capacity (g_log_queue s))"

lemma ALOG_send_wf:
  assumes "log_wf s" "0 \<le> lm_level m" "lm_level m < 4"
  shows "\<exists>q. fq_wf q \<and> (\<forall>m \<in> set (fq_items q). 0 \<le> lm_level m \<and> lm_level m < 4) \<and>
    q_capacity q = q_capacity (g_log_queue s) \<and>
    (if length (queued s) < log_capacity s
     then ALOG_send tag m s = Some (s\<lparr>g_log_queue := q\<rparr>) \<and> fq_items q = queued s @ [m]
     else ALOG_send tag m s = Some (write_stderr (''ERR: log queue full ['' @ tag @ '']'' @ newline) s)
       \<and> q = g_log_queue s)"
proof -
  let ?q = "g_log_queue s"
  have wf: "fq_wf ?q" and lev: "\<forall>m \<in> set (fq_items ?q). 0 \<le> lm_level m \<and> lm_level m < 4"
    using assms(1) by (simp_all add: log_wf_def)
  have len: "length (fq_items ?q) \<le> unat (q_capacity ?q)" by (rule fq.items_bound [OF wf])
  show ?thesis
  proof (cases "length (fq_items ?q) = unat (q_capacity ?q)")
    case True
    then have "fifo_queue_send ?q m = Some (- 1, ?q)"
      using fq_send_full [of ?q m] wf length_fq_items [OF wf] by (auto simp: fq_wf_def word_le_nat_alt)
    with True wf lev show ?thesis
      by (intro exI [of _ ?q]) (simp add: ALOG_send_def queued_def log_capacity_def)
  next
    case False
    then have "q_count ?q < q_capacity ?q"
      using len length_fq_items [OF wf] by (simp add: word_less_nat_alt)
    then obtain q' where "fifo_queue_send ?q m = Some (0, q')" "fq_wf q'" "fq_items q' = fq_items ?q @ [m]"
        "q_capacity q' = q_capacity ?q"
      using fq_send_room [OF wf, of m] by blast
    with False len lev assms show ?thesis
      by (intro exI [of _ q']) (auto simp: ALOG_send_def queued_def log_capacity_def)
  qed
qed

text \<open>
  \<open>logged s s'\<close>: \<open>s'\<close> differs from \<open>s\<close> only in the log queue and in what was written to \<open>stderr\<close>, and
  the queue is still well-formed. Every call of the logging macros is such a step.
\<close>

definition logged :: "'z log_state_scheme \<Rightarrow> 'z log_state_scheme \<Rightarrow> bool" where
  "logged s s' \<longleftrightarrow> log_wf s' \<and> log_capacity s' = log_capacity s \<and>
     (\<exists>q e. s' = s\<lparr>g_log_queue := q, stderr := e\<rparr>)"

lemma log_wf_cong:
  "g_log_queue s = g_log_queue s' \<Longrightarrow> log_wf s = log_wf s'"
  by (simp add: log_wf_def)

lemma log_wf_update [simp]:
  "log_wf (s\<lparr>stderr := e\<rparr>) = log_wf s"
  "log_wf (s\<lparr>g_log_running := b\<rparr>) = log_wf s"
  "log_wf (s\<lparr>clock := c\<rparr>) = log_wf s"
  "log_wf (s\<lparr>g_log_done_fd := d\<rparr>) = log_wf s"
  "log_wf (s\<lparr>log_thread := t\<rparr>) = log_wf s"
  by (simp_all add: log_wf_def)

lemma loggedD: "logged s s' \<Longrightarrow> log_wf s'"
  by (simp add: logged_def)

lemma log_capacity_update [simp]:
  "log_capacity (s\<lparr>stderr := e\<rparr>) = log_capacity s"
  "log_capacity (s\<lparr>g_log_running := b\<rparr>) = log_capacity s"
  "log_capacity (s\<lparr>clock := c\<rparr>) = log_capacity s"
  "log_capacity (s\<lparr>g_log_done_fd := d\<rparr>) = log_capacity s"
  "log_capacity (s\<lparr>log_thread := t\<rparr>) = log_capacity s"
  "log_capacity (s\<lparr>g_log_queue := q\<rparr>) = unat (q_capacity q)"
  by (simp_all add: log_capacity_def)

lemma logged_refl [simp]: "log_wf s \<Longrightarrow> logged s s"
  unfolding logged_def by (intro conjI exI [of _ "g_log_queue s"] exI [of _ "stderr s"]) simp_all

lemma logged_write [simp]: "logged s (write_stderr l s) = log_wf s"
  by (auto simp: logged_def write_stderr_def)
    (intro exI [of _ "g_log_queue s"] exI, simp)

lemma logged_trans: "logged s s' \<Longrightarrow> logged s' s'' \<Longrightarrow> logged s s''"
  by (fastforce simp: logged_def)

lemma logged_same:
  assumes "logged s s'"
  shows "g_log_running s' = g_log_running s" "g_log_done_fd s' = g_log_done_fd s"
    "log_thread s' = log_thread s" "clock s' = clock s"
    "log_state.more s' = log_state.more s" "log_capacity s' = log_capacity s"
  using assms by (auto simp: logged_def)

lemma write_stderr_same [simp]:
  "g_log_queue (write_stderr l s) = g_log_queue s" "g_log_running (write_stderr l s) = g_log_running s"
  "g_log_done_fd (write_stderr l s) = g_log_done_fd s" "log_thread (write_stderr l s) = log_thread s"
  "clock (write_stderr l s) = clock s" "log_state.more (write_stderr l s) = log_state.more s"
  "stderr (write_stderr l s) = stderr s @ [l]" "log_wf (write_stderr l s) = log_wf s"
  "queued (write_stderr l s) = queued s" "log_capacity (write_stderr l s) = log_capacity s"
  by (simp_all add: write_stderr_def queued_def log_capacity_def)

lemma ALOG_send_logged:
  assumes "log_wf s" "0 \<le> lm_level m" "lm_level m < 4"
  shows "\<exists>s'. ALOG_send tag m s = Some s' \<and> logged s s'"
proof -
  obtain q where q: "fq_wf q" "\<forall>m \<in> set (fq_items q). 0 \<le> lm_level m \<and> lm_level m < 4"
      "q_capacity q = q_capacity (g_log_queue s)"
      "ALOG_send tag m s = Some (s\<lparr>g_log_queue := q\<rparr>) \<or>
       ALOG_send tag m s = Some (write_stderr (''ERR: log queue full ['' @ tag @ '']'' @ newline) s)"
    using ALOG_send_wf [OF assms, of tag] by (auto split: if_splits)
  have "logged s (s\<lparr>g_log_queue := q\<rparr>)"
    using q(1-3) by (auto simp: logged_def log_wf_def log_capacity_def intro!: exI [of _ q] exI [of _ "stderr s"])
  with q(4) assms(1) show ?thesis by auto
qed

lemma ALOG_wf:
  assumes "log_wf s" "0 \<le> level" "level < 4"
  shows "\<exists>s'. ALOG threshold level tag msg s = Some s' \<and> logged s s'"
proof (cases "level \<ge> threshold")
  case False
  with assms show ?thesis by (simp add: ALOG_def)
next
  case True
  obtain m s1 where b: "ALOG_begin level tag msg s = (m, s1)" by fastforce
  then have m: "lm_level m = level" and s1: "logged s s1"
    using assms by (auto simp: ALOG_begin_def make_message_def Let_def split: if_splits)
  obtain s2 where "ALOG_send tag m s1 = Some s2" "logged s1 s2"
    using ALOG_send_logged [OF loggedD [OF s1], of m tag] m assms by auto
  with True b s1 show ?thesis by (auto simp: ALOG_def intro: logged_trans)
qed

lemma LOG_wf:
  assumes "log_wf s"
  shows "\<exists>s'. LOGD tag msg s = Some s' \<and> logged s s'"
    and "\<exists>s'. LOGW tag msg s = Some s' \<and> logged s s'"
    and "\<exists>s'. LOGE tag msg s = Some s' \<and> logged s s'"
    and "\<exists>s'. LOGI tag msg s = Some s' \<and> logged s s'"
  using ALOG_wf [OF assms] by (simp_all add: LOGD_def LOGI_def LOGW_def LOGE_def log_levels)

lemma LOG_ERRNO_wf:
  assumes "log_wf s"
  shows "\<exists>s'. LOGW_ERRNO tag msg err s = Some s' \<and> logged s s'"
    and "\<exists>s'. LOGE_ERRNO tag msg err s = Some s' \<and> logged s s'"
    and "\<exists>s'. LOGD_ERRNO tag msg err s = Some s' \<and> logged s s'"
    and "\<exists>s'. LOGI_ERRNO tag msg err s = Some s' \<and> logged s s'"
  using LOG_wf [OF assms] by (simp_all add: LOGD_ERRNO_def LOGI_ERRNO_def LOGW_ERRNO_def LOGE_ERRNO_def)

lemma ALOG_queue:
  assumes wf: "log_wf s" and run: "g_log_running s" and lv: "0 \<le> level" "level < 4" "threshold \<le> level"
  shows "\<exists>s'. ALOG threshold level tag msg s = Some s' \<and> logged s s' \<and>
    (if length (queued s) < log_capacity s
     then queued s' = queued s @ [make_message level tag msg (clock s)] \<and> stderr s' = stderr s
     else queued s' = queued s \<and> stderr s' = stderr s @ [''ERR: log queue full ['' @ tag @ '']'' @ newline])"
proof -
  let ?m = "make_message level tag msg (clock s)"
  obtain s' where s': "ALOG threshold level tag msg s = Some s'" "logged s s'"
    using ALOG_wf [OF wf lv(1,2)] by blast
  have "ALOG threshold level tag msg s = ALOG_send tag ?m s"
    using run lv(3) by (simp add: ALOG_def ALOG_begin_def)
  moreover have "0 \<le> lm_level ?m" "lm_level ?m < 4" using lv by (simp_all add: make_message_def)
  ultimately show ?thesis
    using ALOG_send_wf [OF wf, of ?m tag] s' by (auto simp: queued_def split: if_splits)
qed


definition log_sample :: log_state where
  "log_sample = \<lparr>g_log_queue = snd (fifo_queue_init (\<lambda>n. True) True
       \<lparr>q_buffer = Null, q_item_size = 0, q_capacity = 0, q_head = 0, q_tail = 0, q_count = 0,
        q_lock = Mutex_Dead, q_event_fd = None\<rparr> 312 2),
     g_log_running = True, g_log_done_fd = Valid \<lparr>efd_count = 0, efd_semaphore = False\<rparr>,
     log_thread = T_Running, clock = \<lparr>tv_sec = 3661, tv_nsec = 5000\<rparr>, stderr = []\<rparr>"

lemma log_sample_wf: "log_wf log_sample" and log_sample_queued: "queued log_sample = []"
  and log_sample_capacity: "log_capacity log_sample = 2"
  by (simp_all add: log_wf_def log_sample_def queued_def log_capacity_def fifo_queue_init_def
      fq_wf_def fq_items_def fq_window_def Let_def)


end
