(* ===== verification/Action_System.thy ===== *)
theory Action_System
  imports Main
begin

text \<open>
  Systems that move by actions: an action is enabled in a state or not, and taking it gives the next state, or
  \<open>None\<close> where the program has undefined behaviour. The reachable states, runs along a list of actions, and the
  interface by which an invariant, once every enabled action keeps it, holds in all of them. The logger and the
  whole real-time program are such systems.
\<close>

inductive act_reach :: "('a \<Rightarrow> 's \<Rightarrow> bool) \<Rightarrow> ('a \<Rightarrow> 's \<Rightarrow> 's option) \<Rightarrow> 's \<Rightarrow> 's option \<Rightarrow> bool"
  for enabled :: "'a \<Rightarrow> 's \<Rightarrow> bool" and act :: "'a \<Rightarrow> 's \<Rightarrow> 's option" and s0 :: 's where
  start: "act_reach enabled act s0 (Some s0)"
| step: "act_reach enabled act s0 (Some s) \<Longrightarrow> enabled a s \<Longrightarrow> act_reach enabled act s0 (act a s)"

text \<open>A run along a list of actions, each of which must be enabled.\<close>

fun act_exec :: "('a \<Rightarrow> 's \<Rightarrow> bool) \<Rightarrow> ('a \<Rightarrow> 's \<Rightarrow> 's option) \<Rightarrow> 'a list \<Rightarrow> 's \<Rightarrow> 's option" where
  "act_exec enabled act [] s = Some s"
| "act_exec enabled act (a # as) s =
     (if enabled a s then (case act a s of None \<Rightarrow> None | Some s' \<Rightarrow> act_exec enabled act as s') else None)"

lemma act_exec_Cons:
  "act_exec enabled act (a # as) s = Some s' \<longleftrightarrow>
     enabled a s \<and> (\<exists>s1. act a s = Some s1 \<and> act_exec enabled act as s1 = Some s')"
  by (auto split: option.splits)

lemma act_reach_step: "act_reach enabled act s0 (Some s) \<Longrightarrow> enabled a s \<Longrightarrow> act a s = Some s' \<Longrightarrow> act_reach enabled act s0 (Some s')"
  by (metis act_reach.step)

lemma act_exec_reach:
  assumes "act_exec enabled act as s = Some s'" "act_reach enabled act s0 (Some s)"
  shows "act_reach enabled act s0 (Some s')"
  using assms
proof (induction as arbitrary: s)
  case (Cons a as)
  then show ?case using act_reach_step unfolding act_exec_Cons by metis
qed simp

locale action_system =
  fixes enabled :: "'a \<Rightarrow> 's \<Rightarrow> bool" and act :: "'a \<Rightarrow> 's \<Rightarrow> 's option" and inv :: "'s \<Rightarrow> bool"
  assumes act_keeps: "inv s \<Longrightarrow> enabled a s \<Longrightarrow> \<exists>s'. act a s = Some s' \<and> inv s'"
begin

lemma reach_keeps:
  assumes "act_reach enabled act s0 r" "inv s0"
  shows "\<exists>s. r = Some s \<and> inv s"
  using assms(1)
proof (induction rule: act_reach.induct)
  case start
  with assms(2) show ?case by simp
next
  case (step s a)
  then show ?case using act_keeps by auto
qed

lemma reach_step:
  assumes "act_reach enabled act s0 (Some s)" "inv s" "enabled a s"
  shows "\<exists>s'. act a s = Some s' \<and> act_reach enabled act s0 (Some s') \<and> inv s'"
  using act_keeps [OF assms(2,3)] act_reach_step [OF assms(1,3)] by blast

text \<open>Along a run of enabled actions nothing is undefined.\<close>

lemma exec_keeps: "act_exec enabled act as s = Some s' \<Longrightarrow> inv s \<Longrightarrow> inv s'"
proof (induction as arbitrary: s)
  case (Cons a as)
  then obtain s1 where "enabled a s" "act a s = Some s1" "act_exec enabled act as s1 = Some s'"
    unfolding act_exec_Cons by blast
  with act_keeps [OF Cons.prems(2)] Cons.IH show ?case by fastforce
qed simp

end

end
