(* ===== verification/Log_Task.thy ===== *)
theory Log_Task
  imports Log_Queue Action_System
begin

text \<open>
  The thread of \<open>rtsystem/src/tasks/log_task.c\<close>, statement by statement, beside any number of threads
  that log through \<open>ALOG\<close> and a \<open>main\<close> that stops it; and the functions of \<open>log_task.h\<close>. One step is
  one statement; the operations on the log queue are one step each because they hold its mutex.
  \<open>None\<close> is undefined behaviour. The record of the system has two history fields, which the program
  does not have: the messages the queue accepted and the messages printed.
\<close>

section \<open>The system: log task, senders, main\<close>

text \<open>
  Where the log task is: before its first \<open>LOGD\<close>, with the message made but not sent, at the head of
  the outer loop, at the \<open>poll\<close>, at a receive or with a received message to print (\<open>True\<close> in the final
  drain), and at the five statements that end it.
\<close>

datatype log_pc =
    LT_Begin | LT_Begin_Send log_message | LT_While | LT_Poll
  | LT_Receive bool | LT_Print bool log_message
  | LT_Set | LT_Exit | LT_Exit_Send log_message | LT_Clear | LT_Signal | LT_Return | LT_Done

text \<open>What \<open>poll\<close> answers: -1 with a text for \<open>errno\<close>, 0 after the timeout, or readable.\<close>

datatype poll_answer = Poll_Error string | Poll_Timeout | Poll_Ready

record log_sys =
  ls_state :: log_state
  ls_pc :: log_pc
  ls_pending :: "nat \<Rightarrow> (string \<times> log_message) option"
  ls_accepted :: "log_message list"
  ls_printed :: "log_message list"

definition log_TAG :: string where "log_TAG = ''log_task''"

definition accepted_by :: "log_state \<Rightarrow> log_message \<Rightarrow> log_message list" where
  "accepted_by s m = (case fifo_queue_send (g_log_queue s) m of
     Some (r, q) \<Rightarrow> if r = 0 then [m] else [] | None \<Rightarrow> [])"

definition sys_send :: "string \<Rightarrow> log_message \<Rightarrow> log_sys \<Rightarrow> log_sys option" where
  "sys_send tag m S = do {
     s \<leftarrow> ALOG_send tag m (ls_state S);
     Some (S\<lparr>ls_state := s, ls_accepted := ls_accepted S @ accepted_by (ls_state S) m\<rparr>)
   }"

definition goto_pc :: "log_pc \<Rightarrow> log_sys \<Rightarrow> log_sys" where
  "goto_pc pc S = S\<lparr>ls_pc := pc\<rparr>"

definition log_begin_own :: "string \<Rightarrow> (log_message \<Rightarrow> log_pc) \<Rightarrow> log_sys \<Rightarrow> log_sys" where
  "log_begin_own msg pc S = (case ALOG_begin LOG_LEVEL_DEBUG log_TAG msg (ls_state S) of
     (m, s) \<Rightarrow> S\<lparr>ls_state := s, ls_pc := pc m\<rparr>)"

definition log_task_step :: "(int \<Rightarrow> int \<times> int \<times> int) \<Rightarrow> poll_answer \<Rightarrow> log_sys \<Rightarrow> log_sys option" where
  "log_task_step localtime answer S =
     (let s = ls_state S in
      case ls_pc S of
        LT_Begin \<Rightarrow> Some (log_begin_own ''successfully initialized. Logging queue...'' LT_Begin_Send S)
      | LT_Begin_Send m \<Rightarrow> map_option (goto_pc LT_While) (sys_send log_TAG m S)
      | LT_While \<Rightarrow> Some (goto_pc (if g_log_running s then LT_Poll else LT_Set) S)
      | LT_Poll \<Rightarrow> (case answer of
            Poll_Error err \<Rightarrow> Some (goto_pc LT_While
              (S\<lparr>ls_state := write_stderr (log_TAG @ '' : could not poll log queue: '' @ err) s\<rparr>))
          | Poll_Timeout \<Rightarrow> Some (goto_pc LT_While S)
          | Poll_Ready \<Rightarrow> Some (goto_pc (LT_Receive False) S))
      | LT_Receive fin \<Rightarrow> do {
          (r, m, q) \<leftarrow> fifo_queue_receive (g_log_queue s);
          Some (if r = 0 then goto_pc (LT_Print fin (the m)) (S\<lparr>ls_state := s\<lparr>g_log_queue := q\<rparr>\<rparr>)
                else goto_pc (if fin then LT_Signal else LT_While) S)
        }
      | LT_Print fin m \<Rightarrow> do {
          line \<leftarrow> print_log_message localtime m;
          Some (goto_pc (LT_Receive fin)
            (S\<lparr>ls_state := write_stderr line s, ls_printed := ls_printed S @ [m]\<rparr>))
        }
      | LT_Set \<Rightarrow> Some (goto_pc LT_Exit (S\<lparr>ls_state := s\<lparr>g_log_running := True\<rparr>\<rparr>))
      | LT_Exit \<Rightarrow> Some (log_begin_own ''received shutdown signal, draining remaining messages...'' LT_Exit_Send S)
      | LT_Exit_Send m \<Rightarrow> map_option (goto_pc LT_Clear) (sys_send log_TAG m S)
      | LT_Clear \<Rightarrow> Some (goto_pc (LT_Receive True) (S\<lparr>ls_state := s\<lparr>g_log_running := False\<rparr>\<rparr>))
      | LT_Signal \<Rightarrow> (case g_log_done_fd s of
            Valid e \<Rightarrow> Some (goto_pc LT_Return
              (S\<lparr>ls_state := s\<lparr>g_log_done_fd := Valid (the (efd_signal (Some e)))\<rparr>\<rparr>))
          | Null \<Rightarrow> Some (goto_pc LT_Return S)
          | Dangling \<Rightarrow> None)
      | LT_Return \<Rightarrow> Some (goto_pc LT_Done (S\<lparr>ls_state := s\<lparr>log_thread := T_Exited\<rparr>\<rparr>))
      | LT_Done \<Rightarrow> Some S)"

definition log_task_stop :: "'z log_state_scheme \<Rightarrow> 'z log_state_scheme" where
  "log_task_stop s = s\<lparr>g_log_running := False\<rparr>"

text \<open>
  The actions of the system: a step of the log task, the two halves of a log call of thread \<open>i\<close>,
  \<open>log_task_stop\<close> called by \<open>main\<close>, and the clock, which may be set to any time.
\<close>

datatype log_action =
    Act_Task poll_answer | Act_Begin nat int string string | Act_Send nat | Act_Stop | Act_Clock timespec

text \<open>
  \<open>poll\<close> reports the descriptor of the queue readable exactly when its counter is not zero; it may
  fail at any time.
\<close>

definition log_enabled :: "log_action \<Rightarrow> log_sys \<Rightarrow> bool" where
  "log_enabled a S = (case a of
     Act_Task ans \<Rightarrow> ls_pc S \<noteq> LT_Done \<and> (ls_pc S = LT_Poll \<longrightarrow>
       (case ans of Poll_Error e \<Rightarrow> True
        | Poll_Timeout \<Rightarrow> \<not> efd_readable (q_event_fd (g_log_queue (ls_state S)))
        | Poll_Ready \<Rightarrow> efd_readable (q_event_fd (g_log_queue (ls_state S)))))
   | Act_Begin i level tag msg \<Rightarrow> ls_pending S i = None \<and> 0 \<le> level \<and> level < 4
   | Act_Send i \<Rightarrow> ls_pending S i \<noteq> None
   | Act_Stop \<Rightarrow> True
   | Act_Clock t \<Rightarrow> True)"

definition log_act :: "(int \<Rightarrow> int \<times> int \<times> int) \<Rightarrow> log_action \<Rightarrow> log_sys \<Rightarrow> log_sys option" where
  "log_act localtime a S = (case a of
     Act_Task ans \<Rightarrow> log_task_step localtime ans S
   | Act_Begin i level tag msg \<Rightarrow> (case ALOG_begin level tag msg (ls_state S) of
       (m, s) \<Rightarrow> Some (S\<lparr>ls_state := s, ls_pending := (ls_pending S)(i := Some (tag, m))\<rparr>))
   | Act_Send i \<Rightarrow> (case ls_pending S i of
       None \<Rightarrow> Some S
     | Some (tag, m) \<Rightarrow> map_option (\<lambda>S'. S'\<lparr>ls_pending := (ls_pending S)(i := None)\<rparr>) (sys_send tag m S))
   | Act_Stop \<Rightarrow> Some (S\<lparr>ls_state := log_task_stop (ls_state S)\<rparr>)
   | Act_Clock t \<Rightarrow> Some (S\<lparr>ls_state := (ls_state S)\<lparr>clock := t\<rparr>\<rparr>))"

text \<open>The states the system can reach; \<open>None\<close> is reached when a step is undefined.\<close>

abbreviation log_reach :: "(int \<Rightarrow> int \<times> int \<times> int) \<Rightarrow> log_sys \<Rightarrow> log_sys option \<Rightarrow> bool" where
  "log_reach localtime \<equiv> act_reach log_enabled (log_act localtime)"

definition log_sys_init :: "log_state \<Rightarrow> log_sys" where
  "log_sys_init s = \<lparr>ls_state = s, ls_pc = LT_Begin, ls_pending = \<lambda>i. None, ls_accepted = [], ls_printed = []\<rparr>"

text \<open>The log task alone, with a list of answers for its calls of \<open>poll\<close>.\<close>

fun log_task_run :: "(int \<Rightarrow> int \<times> int \<times> int) \<Rightarrow> poll_answer list \<Rightarrow> log_sys \<Rightarrow> log_sys option" where
  "log_task_run localtime [] S = Some S"
| "log_task_run localtime (a # as) S = (case log_task_step localtime a S of
     None \<Rightarrow> None | Some S' \<Rightarrow> log_task_run localtime as S')"

section \<open>Start, join, cancel, cleanup\<close>

text \<open>
  The answers of the operating system to \<open>log_task_init\<close>: \<open>malloc\<close>, the two calls of \<open>eventfd\<close>, the
  error number of \<open>pthread_create\<close> (given the \<open>SCHED_FIFO\<close> priority, if one is set), and the texts
  of \<open>strerror\<close>.
\<close>

record log_init_env =
  ie_malloc :: "nat \<Rightarrow> bool"
  ie_queue_eventfd :: bool
  ie_done_eventfd :: bool
  ie_create :: "int option \<Rightarrow> int"
  ie_errno :: string
  ie_strerror :: "int \<Rightarrow> string"

definition sizeof_log_message :: size_t where "sizeof_log_message = 312"

definition sched_attr :: "int \<Rightarrow> int option" where
  "sched_attr priority = (if priority > 0 then Some priority else None)"

definition perror :: "string \<Rightarrow> string \<Rightarrow> 'z log_state_scheme \<Rightarrow> 'z log_state_scheme" where
  "perror msg err = write_stderr (msg @ '': '' @ err @ newline)"

definition log_queue_destroy :: "'z log_state_scheme \<Rightarrow> 'z log_state_scheme option" where
  "log_queue_destroy s = map_option (\<lambda>q. s\<lparr>g_log_queue := q\<rparr>) (fifo_queue_destroy (g_log_queue s))"

definition log_task_init :: "log_init_env \<Rightarrow> size_t \<Rightarrow> int \<Rightarrow> 'z log_state_scheme \<Rightarrow> (int \<times> 'z log_state_scheme) option" where
  "log_task_init env queue_size priority s =
     (case fifo_queue_init (ie_malloc env) (ie_queue_eventfd env) (g_log_queue s) sizeof_log_message queue_size of
        (r, q) \<Rightarrow>
        let s1 = s\<lparr>g_log_queue := q\<rparr> in
        if r \<noteq> 0 then Some (- 1, perror ''log_task_init: fifo_queue_init'' (ie_errno env) s1)
        else if \<not> ie_done_eventfd env
        then do {
          s2 \<leftarrow> log_queue_destroy (perror ''log_task_init: eventfd'' (ie_errno env) (s1\<lparr>g_log_done_fd := Null\<rparr>));
          Some (- 1, s2)
        }
        else
          let s2 = s1\<lparr>g_log_done_fd := Valid \<lparr>efd_count = 0, efd_semaphore = False\<rparr>\<rparr>;
              err = ie_create env (sched_attr priority) in
          if err \<noteq> 0
          then do {
            s3 \<leftarrow> log_queue_destroy ((write_stderr (''log_task_init: pthread_create: '' @ ie_strerror env err @ newline) s2)
              \<lparr>g_log_done_fd := Dangling\<rparr>);
            Some (- 1, s3)
          }
          else Some (0, s2\<lparr>log_thread := T_Running\<rparr>))"

text \<open>Joining a thread that has not ended does not return, and joining twice is undefined.\<close>

definition log_task_join :: "'z log_state_scheme \<Rightarrow> 'z log_state_scheme option" where
  "log_task_join s = (if log_thread s = T_Exited then Some (s\<lparr>log_thread := T_Joined\<rparr>) else None)"

definition log_task_cancel :: "'z log_state_scheme \<Rightarrow> 'z log_state_scheme option" where
  "log_task_cancel s = (case log_thread s of
     T_Running \<Rightarrow> Some (s\<lparr>log_thread := T_Cancelling\<rparr>)
   | T_Cancelling \<Rightarrow> Some s
   | T_Exited \<Rightarrow> Some s
   | _ \<Rightarrow> None)"

definition log_task_cleanup :: "'z log_state_scheme \<Rightarrow> 'z log_state_scheme option" where
  "log_task_cleanup s = do {
     s1 \<leftarrow> log_queue_destroy s;
     (case g_log_done_fd s1 of
        Null \<Rightarrow> Some s1
      | Dangling \<Rightarrow> None
      | Valid e \<Rightarrow> Some (s1\<lparr>g_log_done_fd := Null\<rparr>))
   }"

section \<open>The invariant of the system\<close>

definition level_ok :: "log_message \<Rightarrow> bool" where
  "level_ok m \<longleftrightarrow> 0 \<le> lm_level m \<and> lm_level m < 4"

fun in_hand :: "log_pc \<Rightarrow> log_message list" where
  "in_hand (LT_Print fin m) = [m]"
| "in_hand pc = []"

fun to_send :: "log_pc \<Rightarrow> log_message list" where
  "to_send (LT_Begin_Send m) = [m]"
| "to_send (LT_Exit_Send m) = [m]"
| "to_send pc = []"

definition done_signalled :: "'z log_state_scheme \<Rightarrow> bool \<Rightarrow> bool" where
  "done_signalled s b \<longleftrightarrow> g_log_done_fd s = Valid \<lparr>efd_count = of_bool b, efd_semaphore = False\<rparr>"

definition log_sys_inv :: "log_sys \<Rightarrow> bool" where
  "log_sys_inv S \<longleftrightarrow>
     log_wf (ls_state S) \<and>
     (\<forall>i tag m. ls_pending S i = Some (tag, m) \<longrightarrow> level_ok m) \<and>
     (\<forall>m \<in> set (in_hand (ls_pc S) @ to_send (ls_pc S)). level_ok m) \<and>
     ls_accepted S = ls_printed S @ in_hand (ls_pc S) @ queued (ls_state S) \<and>
     done_signalled (ls_state S) (ls_pc S = LT_Return \<or> ls_pc S = LT_Done) \<and>
     (ls_pc S = LT_Done \<longrightarrow> log_thread (ls_state S) = T_Exited)"

lemma log_wf_levels: "log_wf s \<longleftrightarrow> fq_wf (g_log_queue s) \<and> (\<forall>m \<in> set (queued s). level_ok m)"
  by (simp add: log_wf_def queued_def level_ok_def)

lemma queued_update [simp]:
  "queued (s\<lparr>g_log_running := b\<rparr>) = queued s" "queued (s\<lparr>clock := t\<rparr>) = queued s"
  "queued (s\<lparr>g_log_done_fd := d\<rparr>) = queued s" "queued (s\<lparr>log_thread := h\<rparr>) = queued s"
  "queued (s\<lparr>stderr := e\<rparr>) = queued s" "queued (s\<lparr>g_log_queue := q\<rparr>) = fq_items q"
  by (simp_all add: queued_def)

lemma done_signalled_update [simp]:
  "done_signalled (s\<lparr>g_log_running := b\<rparr>) d = done_signalled s d"
  "done_signalled (s\<lparr>clock := t\<rparr>) d = done_signalled s d"
  "done_signalled (s\<lparr>log_thread := h\<rparr>) d = done_signalled s d"
  "done_signalled (s\<lparr>g_log_queue := q\<rparr>) d = done_signalled s d"
  "done_signalled (write_stderr l s) d = done_signalled s d"
  by (simp_all add: done_signalled_def)

text \<open>One receive and one send on the queue of a well-formed logger.\<close>

lemma log_receive_empty:
  "log_wf s \<Longrightarrow> queued s = [] \<Longrightarrow> fifo_queue_receive (g_log_queue s) = Some (- 1, None, g_log_queue s)"
  using length_fq_items [of "g_log_queue s"]
  by (auto simp: log_wf_def queued_def fq_receive_empty fq_wf_def unat_eq_zero)

lemma log_receive_some:
  assumes "log_wf s" "queued s = m # ms"
  shows "\<exists>q. fifo_queue_receive (g_log_queue s) = Some (0, Some m, q) \<and> fq_items q = ms \<and>
    log_wf (s\<lparr>g_log_queue := q\<rparr>) \<and> level_ok m"
proof -
  have wf: "fq_wf (g_log_queue s)" using assms(1) by (simp add: log_wf_def)
  have "q_count (g_log_queue s) \<noteq> 0"
    using length_fq_items [OF wf] assms(2) by (auto simp: queued_def)
  from fq_receive_some [OF wf this] obtain y q where
    q: "fifo_queue_receive (g_log_queue s) = Some (0, Some y, q)" "fq_wf q"
      "fq_items (g_log_queue s) = y # fq_items q" by blast
  with assms show ?thesis by (auto simp: log_wf_levels queued_def)
qed

lemma sys_send_wf:
  assumes "log_wf (ls_state S)" "level_ok m"
  shows "\<exists>s ms. sys_send tag m S = Some (S\<lparr>ls_state := s, ls_accepted := ls_accepted S @ ms\<rparr>) \<and>
    logged (ls_state S) s \<and> queued s = queued (ls_state S) @ ms \<and> length ms \<le> 1"
proof -
  let ?s = "ls_state S"
  have wf: "fq_wf (g_log_queue ?s)" using assms(1) by (simp add: log_wf_def)
  have lv: "0 \<le> lm_level m" "lm_level m < 4" using assms(2) by (simp_all add: level_ok_def)
  obtain q where q: "fq_wf q" "\<forall>m \<in> set (fq_items q). 0 \<le> lm_level m \<and> lm_level m < 4"
      "unat (q_capacity q) = log_capacity ?s"
    and sent: "if length (queued ?s) < log_capacity ?s
     then ALOG_send tag m ?s = Some (?s\<lparr>g_log_queue := q\<rparr>) \<and> fq_items q = queued ?s @ [m]
     else ALOG_send tag m ?s = Some (write_stderr (''ERR: log queue full ['' @ tag @ '']'' @ newline) ?s)
       \<and> q = g_log_queue ?s"
    using ALOG_send_wf [OF assms(1) lv, of tag] unfolding log_capacity_def by auto
  have le: "length (fq_items (g_log_queue ?s)) \<le> unat (q_capacity (g_log_queue ?s))"
    by (rule fq.items_bound [OF wf])
  note ops = fq_send_cases [OF wf, of m]
  show ?thesis
  proof (cases "length (queued ?s) < log_capacity ?s")
    case True
    then have "accepted_by ?s m = [m]"
      using ops le by (auto simp: accepted_by_def queued_def log_capacity_def)
    moreover have "logged ?s (?s\<lparr>g_log_queue := q\<rparr>)"
      using q by (auto simp: logged_def log_wf_def intro!: exI [of _ q] exI [of _ "stderr ?s"])
    ultimately show ?thesis
      using True sent by (intro exI [of _ "?s\<lparr>g_log_queue := q\<rparr>"] exI [of _ "[m]"]) (simp add: sys_send_def)
  next
    case False
    then have "accepted_by ?s m = []"
      using ops le by (auto simp: accepted_by_def queued_def log_capacity_def)
    with False sent assms(1) show ?thesis
      by (intro exI [of _ "write_stderr (''ERR: log queue full ['' @ tag @ '']'' @ newline) ?s"]
          exI [of _ "[]"]) (simp add: sys_send_def)
  qed
qed

lemma print_defined: "level_ok m \<Longrightarrow> \<exists>line. print_log_message localtime m = Some line"
  by (auto simp: print_log_message_def level_ok_def Let_def split: prod.splits)

lemma logged_done: "logged s s' \<Longrightarrow> done_signalled s' b = done_signalled s b"
  by (simp add: done_signalled_def logged_same)

lemma ALOG_begin_wf:
  assumes "log_wf s" "0 \<le> level" "level < 4" "ALOG_begin level tag msg s = (m, s')"
  shows "logged s s' \<and> queued s' = queued s \<and> log_thread s' = log_thread s \<and> level_ok m"
  using assms by (auto simp: ALOG_begin_def make_message_def level_ok_def Let_def split: if_splits)

lemma log_begin_own_inv:
  assumes "log_sys_inv S" "in_hand (ls_pc S) = []" "\<not> (ls_pc S = LT_Return \<or> ls_pc S = LT_Done)"
    and "\<And>m. in_hand (pc m) = [] \<and> to_send (pc m) = [m] \<and> pc m \<noteq> LT_Return \<and> pc m \<noteq> LT_Done"
  shows "log_sys_inv (log_begin_own msg pc S)"
proof -
  obtain m s where b: "ALOG_begin LOG_LEVEL_DEBUG log_TAG msg (ls_state S) = (m, s)" by fastforce
  have "log_wf (ls_state S)" using assms(1) by (simp add: log_sys_inv_def)
  then have "logged (ls_state S) s \<and> queued s = queued (ls_state S) \<and>
      log_thread s = log_thread (ls_state S) \<and> level_ok m"
    using ALOG_begin_wf [OF _ _ _ b] by (simp add: log_levels)
  with assms b show ?thesis
    by (auto simp: log_sys_inv_def log_begin_own_def loggedD logged_done)
qed

lemma sys_send_inv:
  assumes "log_sys_inv S" "in_hand (ls_pc S) = []" "level_ok m"
    and "\<not> (ls_pc S = LT_Return \<or> ls_pc S = LT_Done)"
    and "in_hand pc = []" "to_send pc = []" "\<not> (pc = LT_Return \<or> pc = LT_Done)"
  shows "\<exists>S'. map_option (goto_pc pc) (sys_send tag m S) = Some S' \<and> log_sys_inv S'"
  using sys_send_wf [of S m tag] assms
  by (fastforce simp: log_sys_inv_def goto_pc_def loggedD logged_done)

lemma log_receive_inv:
  assumes inv: "log_sys_inv S" and pc: "ls_pc S = LT_Receive fin"
  shows "\<exists>S'. log_task_step localtime ans S = Some S' \<and> log_sys_inv S'"
proof (cases "queued (ls_state S)")
  case Nil
  then have "fifo_queue_receive (g_log_queue (ls_state S)) = Some (- 1, None, g_log_queue (ls_state S))"
    using inv log_receive_empty [of "ls_state S"] by (simp add: log_sys_inv_def)
  with inv pc show ?thesis
    by (simp add: log_task_step_def goto_pc_def log_sys_inv_def)
next
  case (Cons m ms)
  moreover have "log_wf (ls_state S)" using inv by (simp add: log_sys_inv_def)
  ultimately obtain q where "fifo_queue_receive (g_log_queue (ls_state S)) = Some (0, Some m, q)"
      "fq_items q = ms" "log_wf (ls_state S\<lparr>g_log_queue := q\<rparr>)" "level_ok m"
    using log_receive_some by blast
  with inv pc Cons show ?thesis
    by (simp add: log_task_step_def goto_pc_def log_sys_inv_def)
qed

lemma log_print_inv:
  assumes inv: "log_sys_inv S" and pc: "ls_pc S = LT_Print fin m"
  shows "\<exists>S'. log_task_step localtime ans S = Some S' \<and> log_sys_inv S'"
proof -
  obtain line where "print_log_message localtime m = Some line"
    using print_defined inv pc by (force simp: log_sys_inv_def)
  with inv pc show ?thesis
    by (simp add: log_task_step_def goto_pc_def log_sys_inv_def)
qed

lemma log_task_step_inv:
  assumes inv: "log_sys_inv S"
  shows "\<exists>S'. log_task_step localtime ans S = Some S' \<and> log_sys_inv S'"
proof (cases "ls_pc S")
  case LT_Begin
  then show ?thesis
    using log_begin_own_inv [OF inv, of LT_Begin_Send] by (simp add: log_task_step_def)
next
  case (LT_Begin_Send m)
  then show ?thesis
    using sys_send_inv [OF inv, of m LT_While log_TAG] inv by (simp add: log_task_step_def log_sys_inv_def)
next
  case LT_Exit
  then show ?thesis
    using log_begin_own_inv [OF inv, of LT_Exit_Send] by (simp add: log_task_step_def)
next
  case (LT_Exit_Send m)
  then show ?thesis
    using sys_send_inv [OF inv, of m LT_Clear log_TAG] inv by (simp add: log_task_step_def log_sys_inv_def)
next
  case LT_Signal
  then show ?thesis
    using inv by (simp add: log_task_step_def log_sys_inv_def goto_pc_def done_signalled_def
        efd_signal_def efd_write_def)
qed (use inv log_receive_inv [OF inv] log_print_inv [OF inv] in
    \<open>auto simp: log_task_step_def log_sys_inv_def goto_pc_def split: poll_answer.splits\<close>)

lemma log_act_inv:
  assumes inv: "log_sys_inv S" and en: "log_enabled a S"
  shows "\<exists>S'. log_act localtime a S = Some S' \<and> log_sys_inv S'"
proof (cases a)
  case (Act_Task ans)
  then show ?thesis using log_task_step_inv [OF inv, of localtime ans] by (simp add: log_act_def)
next
  case (Act_Begin i level tag msg)
  obtain m s where b: "ALOG_begin level tag msg (ls_state S) = (m, s)" by fastforce
  with Act_Begin en inv have "logged (ls_state S) s \<and> queued s = queued (ls_state S) \<and>
      log_thread s = log_thread (ls_state S) \<and> level_ok m"
    using ALOG_begin_wf [OF _ _ _ b] by (simp add: log_enabled_def log_sys_inv_def)
  with Act_Begin b inv show ?thesis
    by (auto simp: log_act_def log_sys_inv_def loggedD logged_done)
next
  case (Act_Send i)
  then obtain tag m where p: "ls_pending S i = Some (tag, m)"
    using en by (auto simp: log_enabled_def)
  with inv have "level_ok m" "log_wf (ls_state S)" by (auto simp: log_sys_inv_def)
  then obtain s ms where "sys_send tag m S = Some (S\<lparr>ls_state := s, ls_accepted := ls_accepted S @ ms\<rparr>)"
      "logged (ls_state S) s" "queued s = queued (ls_state S) @ ms"
    using sys_send_wf [of S m tag] by blast
  with Act_Send p inv show ?thesis
    by (auto simp: log_act_def log_sys_inv_def loggedD logged_done logged_same)
qed (use inv in \<open>auto simp: log_act_def log_sys_inv_def log_task_stop_def\<close>)

interpretation logger: action_system log_enabled "log_act localtime" log_sys_inv for localtime
  by unfold_locales (rule log_act_inv)

lemmas log_reach_inv = logger.reach_keeps

section \<open>The log task ends\<close>

text \<open>
  Once \<open>g_log_running\<close> is 0, or the log task has left its outer loop, \<open>log_rank\<close> bounds the steps it
  still takes: each statement before its end once, and two for each message in the queue.
\<close>

definition stopping :: "log_sys \<Rightarrow> bool" where
  "stopping S = (case ls_pc S of
     LT_Set \<Rightarrow> True | LT_Exit \<Rightarrow> True | LT_Exit_Send m \<Rightarrow> True | LT_Clear \<Rightarrow> True
   | LT_Receive fin \<Rightarrow> fin \<or> \<not> g_log_running (ls_state S)
   | LT_Print fin m \<Rightarrow> fin \<or> \<not> g_log_running (ls_state S)
   | LT_Signal \<Rightarrow> True | LT_Return \<Rightarrow> True | LT_Done \<Rightarrow> True
   | _ \<Rightarrow> \<not> g_log_running (ls_state S))"

definition log_rank :: "log_sys \<Rightarrow> nat" where
  "log_rank S = (case ls_pc S of
     LT_Begin \<Rightarrow> 15 | LT_Begin_Send m \<Rightarrow> 14 | LT_While \<Rightarrow> 10 | LT_Poll \<Rightarrow> 12
   | LT_Receive fin \<Rightarrow> (if fin then 3 else 11) | LT_Print fin m \<Rightarrow> (if fin then 4 else 12)
   | LT_Set \<Rightarrow> 9 | LT_Exit \<Rightarrow> 8 | LT_Exit_Send m \<Rightarrow> 7 | LT_Clear \<Rightarrow> 4
   | LT_Signal \<Rightarrow> 2 | LT_Return \<Rightarrow> 1 | LT_Done \<Rightarrow> 0) +
   (if ls_pc S \<in> {LT_Signal, LT_Return, LT_Done} then 0 else 2 * length (queued (ls_state S)))"

definition drain_over :: "log_sys \<Rightarrow> bool" where
  "drain_over S \<longleftrightarrow> ls_pc S \<in> {LT_Signal, LT_Return, LT_Done}"

lemmas progress_defs = stopping_def log_rank_def drain_over_def goto_pc_def

lemma log_rank_bound: "log_rank S \<le> 15 + 2 * length (queued (ls_state S))"
  by (auto simp: log_rank_def split: log_pc.splits)

lemma receive_progress:
  assumes inv: "log_sys_inv S" and pc: "ls_pc S = LT_Receive fin" and stop: "stopping S"
    and stp: "log_task_step localtime ans S = Some S'"
  shows "stopping S' \<and> log_rank S' < log_rank S \<and> ls_accepted S' = ls_accepted S \<and>
    (drain_over S' \<longrightarrow> queued (ls_state S') = [])"
proof (cases "queued (ls_state S)")
  case Nil
  then have "fifo_queue_receive (g_log_queue (ls_state S)) = Some (- 1, None, g_log_queue (ls_state S))"
    using inv log_receive_empty [of "ls_state S"] by (simp add: log_sys_inv_def)
  with pc stop stp Nil show ?thesis
    by (auto simp: log_task_step_def progress_defs)
next
  case (Cons m ms)
  moreover have "log_wf (ls_state S)" using inv by (simp add: log_sys_inv_def)
  ultimately obtain q where "fifo_queue_receive (g_log_queue (ls_state S)) = Some (0, Some m, q)"
      "fq_items q = ms"
    using log_receive_some by blast
  with pc stop stp Cons show ?thesis
    by (auto simp: log_task_step_def progress_defs)
qed

lemma send_progress:
  assumes inv: "log_sys_inv S" and pc: "to_send (ls_pc S) = [m]" and stop: "stopping S"
    and stp: "log_task_step localtime ans S = Some S'"
  shows "stopping S' \<and> log_rank S' < log_rank S \<and> (\<exists>ms. ls_accepted S' = ls_accepted S @ ms) \<and>
    (drain_over S' \<longrightarrow> queued (ls_state S') = [])"
proof -
  have "log_wf (ls_state S)" "level_ok m" using inv pc by (auto simp: log_sys_inv_def)
  then obtain s ms where
    send: "sys_send log_TAG m S = Some (S\<lparr>ls_state := s, ls_accepted := ls_accepted S @ ms\<rparr>)"
    and s: "logged (ls_state S) s" "queued s = queued (ls_state S) @ ms" "length ms \<le> 1"
    using sys_send_wf [of S m log_TAG] by blast
  have "ls_pc S = LT_Begin_Send m \<or> ls_pc S = LT_Exit_Send m"
    using pc by (cases "ls_pc S") auto
  with stp stop send s show ?thesis
    by (auto simp: log_task_step_def progress_defs logged_same)
qed

lemma log_begin_own_same:
  "log_wf (ls_state S) \<Longrightarrow> ls_accepted (log_begin_own msg pc S) = ls_accepted S \<and>
   queued (ls_state (log_begin_own msg pc S)) = queued (ls_state S) \<and>
   g_log_running (ls_state (log_begin_own msg pc S)) = g_log_running (ls_state S) \<and>
   (\<exists>m. ls_pc (log_begin_own msg pc S) = pc m)"
  by (auto simp: log_begin_own_def ALOG_begin_def Let_def)

lemma log_task_progress:
  assumes inv: "log_sys_inv S" and stop: "stopping S" and pc: "ls_pc S \<noteq> LT_Done"
    and stp: "log_task_step localtime ans S = Some S'"
  shows "stopping S' \<and> log_rank S' < log_rank S \<and> (\<exists>ms. ls_accepted S' = ls_accepted S @ ms) \<and>
    ((drain_over S \<longrightarrow> queued (ls_state S) = []) \<longrightarrow> drain_over S' \<longrightarrow> queued (ls_state S') = [])"
proof -
  have wf: "log_wf (ls_state S)" using inv by (simp add: log_sys_inv_def)
  show ?thesis
  proof (cases "ls_pc S")
    case LT_Begin
    then show ?thesis
      using stp stop log_begin_own_same [OF wf, of "''successfully initialized. Logging queue...''" LT_Begin_Send]
      by (auto simp: log_task_step_def progress_defs)
  next
    case LT_Exit
    then show ?thesis
      using stp stop log_begin_own_same [OF wf,
          of "''received shutdown signal, draining remaining messages...''" LT_Exit_Send]
      by (auto simp: log_task_step_def progress_defs)
  next
    case (LT_Print fin m)
    then obtain line where "print_log_message localtime m = Some line"
      using stp by (cases "print_log_message localtime m") (auto simp: log_task_step_def)
    with LT_Print stp stop show ?thesis
      by (auto simp: log_task_step_def progress_defs)
  next
    case LT_Signal
    then show ?thesis
      using stp by (auto simp: log_task_step_def progress_defs Let_def split: ptr.splits)
  qed (use stp stop pc send_progress [OF inv _ stop stp] receive_progress [OF inv _ stop stp] in
      \<open>auto simp: log_task_step_def progress_defs split: poll_answer.splits ptr.splits\<close>)
qed

lemma log_task_run_ends:
  assumes "log_sys_inv S" "stopping S" "drain_over S \<longrightarrow> queued (ls_state S) = []"
    and "log_rank S \<le> length as"
  shows "\<exists>S'. log_task_run localtime as S = Some S' \<and> log_sys_inv S' \<and> ls_pc S' = LT_Done \<and>
    queued (ls_state S') = [] \<and> (\<exists>ms. ls_accepted S' = ls_accepted S @ ms)"
  using assms
proof (induction as arbitrary: S)
  case Nil
  then have "ls_pc S = LT_Done"
    by (auto simp: log_rank_def split: log_pc.splits if_splits)
  with Nil show ?case by (simp add: drain_over_def)
next
  case (Cons a as)
  obtain S1 where S1: "log_task_step localtime a S = Some S1" "log_sys_inv S1"
    using log_task_step_inv [OF Cons.prems(1)] by blast
  show ?case
  proof (cases "ls_pc S = LT_Done")
    case True
    then have "S1 = S" using S1 by (simp add: log_task_step_def)
    moreover have "log_rank S = 0" using True by (simp add: log_rank_def)
    ultimately show ?thesis using Cons.IH [of S] Cons.prems S1 by simp
  next
    case False
    note prog = log_task_progress [OF Cons.prems(1,2) False S1(1)]
    then obtain ms where "ls_accepted S1 = ls_accepted S @ ms" by blast
    moreover have "log_rank S1 \<le> length as" using prog Cons.prems(4) by simp
    moreover have "drain_over S1 \<longrightarrow> queued (ls_state S1) = []" using prog Cons.prems(3) by blast
    ultimately show ?thesis
      using Cons.IH [of S1] prog S1 by auto
  qed
qed

section \<open>Starting the log task\<close>

lemma log_queue_size_ok:
  fixes queue_size :: size_t
  assumes "0 < queue_size" "unat queue_size \<le> 2 ^ 32"
  shows "0 < sizeof_log_message" "queue_size \<noteq> - 1" "unat sizeof_log_message * unat queue_size < 2 ^ 64"
proof -
  have "unat sizeof_log_message = 312" by (simp add: sizeof_log_message_def)
  then show "unat sizeof_log_message * unat queue_size < 2 ^ 64"
    using assms(2) by simp
  have "unat (- 1 :: size_t) = 2 ^ 64 - 1"
    by (simp add: unsigned_minus_1_eq_mask mask_eq_exp_minus_1)
  moreover have "unat queue_size < 2 ^ 64 - 1" using assms(2) by simp
  ultimately have "unat queue_size < unat (- 1 :: size_t)" by (simp only:)
  then show "queue_size \<noteq> - 1" by auto
qed (simp add: sizeof_log_message_def)

text \<open>What \<open>log_task_init\<close> leaves behind when it succeeds and when it fails.\<close>

definition log_started :: "size_t \<Rightarrow> 'z log_state_scheme \<Rightarrow> 'z log_state_scheme \<Rightarrow> bool" where
  "log_started queue_size s s' \<longleftrightarrow> log_wf s' \<and> queued s' = [] \<and> log_capacity s' = unat queue_size \<and>
     done_signalled s' False \<and> log_thread s' = T_Running \<and> stderr s' = stderr s \<and>
     g_log_running s' = g_log_running s \<and> log_state.more s' = log_state.more s"

definition log_not_started :: "'z log_state_scheme \<Rightarrow> 'z log_state_scheme \<Rightarrow> bool" where
  "log_not_started s s' \<longleftrightarrow> (\<forall>buf. q_buffer (g_log_queue s') \<noteq> Valid buf) \<and>
     (\<forall>e. g_log_done_fd s' = Valid e \<longrightarrow> g_log_done_fd s = Valid e) \<and>
     log_thread s' = log_thread s \<and> (\<exists>line. stderr s' = stderr s @ [line]) \<and>
     log_state.more s' = log_state.more s"

lemma log_queue_init_cases:
  assumes "0 < queue_size" "unat queue_size \<le> 2 ^ 32"
    and "fifo_queue_init malloc efd q sizeof_log_message queue_size = (r, q')"
  shows "if malloc (312 * unat queue_size) \<and> efd
    then r = 0 \<and> fq_wf q' \<and> fq_items q' = [] \<and> q_capacity q' = queue_size
    else r = - 1 \<and> (\<forall>buf. q_buffer q' \<noteq> Valid buf)"
proof -
  note ok = log_queue_size_ok [OF assms(1,2)]
  have bytes: "unat (sizeof_log_message * queue_size) = 312 * unat queue_size"
    using ok(3) by (simp add: unat_word_ariths sizeof_log_message_def)
  show ?thesis
  proof (cases "malloc (312 * unat queue_size) \<and> efd")
    case True
    with fq_init_wf [of malloc sizeof_log_message queue_size q] ok assms bytes show ?thesis by auto
  next
    case False
    with assms(3) bytes show ?thesis by (auto simp: fifo_queue_init_def Let_def split: if_splits)
  qed
qed

lemma log_task_init_ok:
  assumes "0 < queue_size" "unat queue_size \<le> 2 ^ 32"
    and "ie_malloc env (312 * unat queue_size)" "ie_queue_eventfd env" "ie_done_eventfd env"
    and "ie_create env (sched_attr priority) = 0"
  shows "\<exists>s'. log_task_init env queue_size priority s = Some (0, s') \<and> log_started queue_size s s'"
proof -
  obtain r q where init: "fifo_queue_init (ie_malloc env) (ie_queue_eventfd env) (g_log_queue s)
      sizeof_log_message queue_size = (r, q)" by fastforce
  from log_queue_init_cases [OF assms(1,2) init] init assms(3-) show ?thesis
    by (auto simp: log_task_init_def log_started_def log_wf_def queued_def log_capacity_def
        done_signalled_def Let_def)
qed

lemma log_task_init_fails:
  assumes "0 < queue_size" "unat queue_size \<le> 2 ^ 32"
    and "\<not> (ie_malloc env (312 * unat queue_size) \<and> ie_queue_eventfd env \<and> ie_done_eventfd env \<and>
      ie_create env (sched_attr priority) = 0)"
  shows "\<exists>s'. log_task_init env queue_size priority s = Some (- 1, s') \<and> log_not_started s s'"
proof -
  obtain r q where init: "fifo_queue_init (ie_malloc env) (ie_queue_eventfd env) (g_log_queue s)
      sizeof_log_message queue_size = (r, q)" by fastforce
  note queue = log_queue_init_cases [OF assms(1,2) init]
  show ?thesis
  proof (cases "ie_malloc env (312 * unat queue_size) \<and> ie_queue_eventfd env")
    case False
    with queue init show ?thesis
      by (auto simp: log_task_init_def log_not_started_def perror_def Let_def)
  next
    case True
    with queue have "r = 0" "fq_wf q" by auto
    with init assms(3) True fq_destroy_wf [of q] show ?thesis
      by (auto simp: log_task_init_def log_not_started_def log_queue_destroy_def perror_def Let_def)
  qed
qed

lemma log_task_init_inv:
  assumes "0 < queue_size" "unat queue_size \<le> 2 ^ 32"
    and "log_task_init env queue_size priority s = Some (0, s')"
  shows "log_sys_inv (log_sys_init s')"
proof -
  have "log_started queue_size s s'"
    using log_task_init_ok [OF assms(1,2), of env priority s]
      log_task_init_fails [OF assms(1,2), of env priority s] assms(3) by fastforce
  then show ?thesis by (simp add: log_sys_inv_def log_sys_init_def log_started_def)
qed

section \<open>Properties\<close>

definition ok_env :: log_init_env where
  "ok_env = \<lparr>ie_malloc = \<lambda>n. n \<le> 65536, ie_queue_eventfd = True, ie_done_eventfd = True,
     ie_create = \<lambda>p. 0, ie_errno = '''', ie_strerror = \<lambda>e. ''''\<rparr>"

text \<open>
  \<open>log_task_init\<close> never runs into undefined behaviour and returns 0 or -1. It returns 0 exactly
  when the allocation, both \<open>eventfd\<close> calls and \<open>pthread_create\<close> succeed; then the queue is empty
  with the given capacity, the done event is not signalled, and the thread runs. When it returns -1
  the buffer and the event of this call are released, no thread was started, and one line is on
  \<open>stderr\<close>.
\<close>
theorem log_task_init_result:
  assumes "0 < queue_size" "unat queue_size \<le> 2 ^ 32"
  shows "if ie_malloc env (312 * unat queue_size) \<and> ie_queue_eventfd env \<and> ie_done_eventfd env \<and>
      ie_create env (sched_attr priority) = 0
    then \<exists>s'. log_task_init env queue_size priority s = Some (0, s') \<and> log_started queue_size s s'
    else \<exists>s'. log_task_init env queue_size priority s = Some (- 1, s') \<and> log_not_started s s'"
  using log_task_init_ok [OF assms, of env priority s] log_task_init_fails [OF assms, of env priority s]
  by (simp del: One_nat_def)

theorem log_task_init_result_witness:
  "\<exists>s'. log_task_init ok_env 4 10 log_sample = Some (0, s') \<and> queued s' = [] \<and> log_capacity s' = 4"
  using log_task_init_result [of 4 ok_env 10 log_sample] by (auto simp: ok_env_def log_started_def)

text \<open>
  C2: the log task, any number of threads that log, and a \<open>main\<close> that stops it, under every
  interleaving: nothing undefined happens, and the messages printed are, in order, an initial segment
  of the messages the queue accepted: each exactly once, except those still in the queue and the one
  received and not yet printed. At the end of the log task its done event is signalled.
\<close>
theorem log_messages_printed_in_order:
  assumes "0 < queue_size" "unat queue_size \<le> 2 ^ 32"
    and "log_task_init env queue_size priority s = Some (0, s0)"
    and "log_reach localtime (log_sys_init s0) r"
  shows "\<exists>S. r = Some S \<and>
    ls_accepted S = ls_printed S @ in_hand (ls_pc S) @ queued (ls_state S) \<and>
    (ls_pc S = LT_Done \<longrightarrow> g_log_done_fd (ls_state S) = Valid \<lparr>efd_count = 1, efd_semaphore = False\<rparr>)"
  using log_reach_inv [OF assms(4) log_task_init_inv [OF assms(1,2,3)]]
  by (auto simp: log_sys_inv_def done_signalled_def)

definition utc :: "int \<Rightarrow> int \<times> int \<times> int" where
  "utc t = (t div 3600 mod 24, t div 60 mod 60, t mod 60)"

definition log_s0 :: log_state where
  "log_s0 = snd (the (log_task_init ok_env 4 10 log_sample))"

lemma log_s0_init: "log_task_init ok_env 4 10 log_sample = Some (0, log_s0)"
  and log_s0_started: "log_started 4 log_sample log_s0"
  using log_task_init_ok [of 4 ok_env 10 log_sample] by (auto simp: ok_env_def log_s0_def)

theorem log_messages_printed_in_order_witness:
  "\<exists>S. log_act utc (Act_Task Poll_Timeout) (log_sys_init log_s0) = Some S \<and>
     ls_accepted S = ls_printed S @ in_hand (ls_pc S) @ queued (ls_state S)"
proof -
  have "log_reach utc (log_sys_init log_s0) (log_act utc (Act_Task Poll_Timeout) (log_sys_init log_s0))"
    by (intro act_reach.intros) (simp add: log_enabled_def log_sys_init_def)
  then show ?thesis
    using log_messages_printed_in_order [OF _ _ log_s0_init, of utc
        "log_act utc (Act_Task Poll_Timeout) (log_sys_init log_s0)"] by auto
qed

text \<open>
  C13: the log task ends. From every reachable state in which \<open>g_log_running\<close> is 0 (or the task is
  already past its outer loop) and the final drain is not over, the log task running alone reaches its
  end within \<open>log_rank\<close> steps, whatever \<open>poll\<close> answers; then everything that was accepted is printed,
  the queue is empty and the done event is signalled.
\<close>
theorem log_task_terminates:
  assumes "0 < queue_size" "unat queue_size \<le> 2 ^ 32"
    and "log_task_init env queue_size priority s = Some (0, s0)"
    and "log_reach localtime (log_sys_init s0) (Some S)"
    and "stopping S" "\<not> drain_over S" "log_rank S \<le> length answers"
  shows "\<exists>S'. log_task_run localtime answers S = Some S' \<and> ls_pc S' = LT_Done \<and>
    queued (ls_state S') = [] \<and> ls_printed S' = ls_accepted S' \<and>
    (\<exists>ms. ls_accepted S' = ls_accepted S @ ms) \<and>
    g_log_done_fd (ls_state S') = Valid \<lparr>efd_count = 1, efd_semaphore = False\<rparr>"
proof -
  have "log_sys_inv S"
    using log_reach_inv [OF assms(4) log_task_init_inv [OF assms(1,2,3)]] by simp
  then obtain S' where "log_task_run localtime answers S = Some S'" "log_sys_inv S'" "ls_pc S' = LT_Done"
      "queued (ls_state S') = []" "\<exists>ms. ls_accepted S' = ls_accepted S @ ms"
    using log_task_run_ends [of S answers localtime] assms(5-7) by blast
  then show ?thesis by (auto simp: log_sys_inv_def done_signalled_def)
qed

definition log_stopped :: log_sys where
  "log_stopped = the (log_act utc Act_Stop (log_sys_init log_s0))"

theorem log_task_terminates_witness:
  "\<exists>S'. log_task_run utc (replicate 15 Poll_Timeout) log_stopped = Some S' \<and> ls_pc S' = LT_Done \<and>
     queued (ls_state S') = []"
proof -
  have queue: "queued log_s0 = []"
    using log_s0_started by (simp add: log_started_def)
  have stop: "log_act utc Act_Stop (log_sys_init log_s0) = Some log_stopped"
    and stopped: "log_stopped = (log_sys_init log_s0)\<lparr>ls_state := log_task_stop log_s0\<rparr>"
    by (simp_all add: log_stopped_def log_act_def log_sys_init_def)
  have "log_reach utc (log_sys_init log_s0) (log_act utc Act_Stop (log_sys_init log_s0))"
    by (intro act_reach.intros) (simp add: log_enabled_def)
  then have "log_reach utc (log_sys_init log_s0) (Some log_stopped)" by (simp add: stop)
  moreover have "stopping log_stopped" "\<not> drain_over log_stopped" "log_rank log_stopped \<le> 15"
    using queue
    by (simp_all add: stopped log_sys_init_def log_task_stop_def stopping_def drain_over_def log_rank_def)
  ultimately show ?thesis
    using log_task_terminates [OF _ _ log_s0_init, of utc log_stopped "replicate 15 Poll_Timeout"]
    by auto
qed

text \<open>Executing a list of actions.\<close>

abbreviation log_exec :: "(int \<Rightarrow> int \<times> int \<times> int) \<Rightarrow> log_action list \<Rightarrow> log_sys \<Rightarrow> log_sys option" where
  "log_exec localtime \<equiv> act_exec log_enabled (log_act localtime)"

lemma replicate_4: "replicate 4 x = [x, x, x, x]"
  by (simp add: numeral_eq_Suc)

lemma log_s0_value [code]:
  "log_s0 = \<lparr>g_log_queue = \<lparr>q_buffer = Valid [None, None, None, None], q_item_size = 312, q_capacity = 4,
       q_head = 0, q_tail = 0, q_count = 0, q_lock = Mutex_Free,
       q_event_fd = Some \<lparr>efd_count = 0, efd_semaphore = True\<rparr>\<rparr>,
     g_log_running = True, g_log_done_fd = Valid \<lparr>efd_count = 0, efd_semaphore = False\<rparr>,
     log_thread = T_Running, clock = \<lparr>tv_sec = 3661, tv_nsec = 5000\<rparr>, stderr = []\<rparr>"
  by (simp add: log_s0_def log_task_init_def ok_env_def log_sample_def fifo_queue_init_def
      sizeof_log_message_def Let_def replicate_4)

definition late_send :: "log_action list" where
  "late_send = replicate 3 (Act_Task Poll_Ready) @
     [Act_Begin 1 0 ''a'' ''first'', Act_Clock \<lparr>tv_sec = 9000, tv_nsec = 0\<rparr>,
      Act_Begin 2 0 ''b'' ''second'', Act_Send 2, Act_Send 1] @ replicate 7 (Act_Task Poll_Ready)"

lemma late_send_exec:
  "map_option (\<lambda>S. map (\<lambda>m. (lm_message m, tv_sec (lm_timestamp m))) (tl (ls_printed S)))
     (log_exec utc late_send (log_sys_init log_s0)) = Some [(''second'', 9000), (''first'', 3661)]"
  by code_simp




end
