(* ===== verification/Task_Helper.thy ===== *)
theory Task_Helper
  imports Log_Task
begin

text \<open>
  \<open>rtsystem/src/core/task_helper.c\<close>: task handles and arrays of them. The world is the state of the
  logger with the program's handles, arrays and threads, each in a map by number, and the variables of
  the program's own tasks (\<open>user\<close>); a pointer to a handle or an array is its number and a null pointer
  is \<open>None\<close>. A callback is a number too, and the
  argument \<open>callback\<close> of the operations says what each one does with the handle it is called on.

  \<open>None\<close> as the result of an operation is undefined behaviour (a null or dangling pointer, a dead
  mutex, a second join) or a call that never returns (a thread that locks a mutex it holds, a join
  with a thread that does not end).
\<close>

section \<open>The data\<close>

datatype task_state = TASK_STATE_INIT | TASK_STATE_RUNNING | TASK_STATE_STOPPING | TASK_STATE_STOPPED

record task_handle =
  th_thread :: nat
  th_done_fd :: "eventfd option"
  th_state :: task_state
  th_name :: string
  th_on_stop :: "nat option"
  th_on_cleanup :: "nat option"
  th_array :: "nat option"

record task_array =
  ta_slots :: "nat option list ptr"
  ta_capacity :: size_t
  ta_lock :: mutex

record 'u world = log_state +
  handles :: "nat \<Rightarrow> task_handle"
  arrays :: "nat \<Rightarrow> task_array"
  threads :: "nat \<Rightarrow> thread_status"
  user :: 'u

type_synonym 'u callbacks = "nat \<Rightarrow> nat \<Rightarrow> 'u world \<Rightarrow> 'u world option"

definition th_TAG :: string where "th_TAG = ''task_helper''"

definition quoted :: "string \<Rightarrow> string" where "quoted s = [CHR 0x27] @ s @ [CHR 0x27]"

definition set_handle :: "nat \<Rightarrow> task_handle \<Rightarrow> 'u world \<Rightarrow> 'u world" where
  "set_handle h t w = w\<lparr>handles := (handles w)(h := t)\<rparr>"

definition set_array :: "nat \<Rightarrow> task_array \<Rightarrow> 'u world \<Rightarrow> 'u world" where
  "set_array a t w = w\<lparr>arrays := (arrays w)(a := t)\<rparr>"

definition lock_array :: "nat \<Rightarrow> 'u world \<Rightarrow> 'u world option" where
  "lock_array a w = (if ta_lock (arrays w a) = Mutex_Free
     then Some (set_array a ((arrays w a)\<lparr>ta_lock := Mutex_Held\<rparr>) w) else None)"

definition unlock_array :: "nat \<Rightarrow> 'u world \<Rightarrow> 'u world option" where
  "unlock_array a w = (if ta_lock (arrays w a) = Mutex_Held
     then Some (set_array a ((arrays w a)\<lparr>ta_lock := Mutex_Free\<rparr>) w) else None)"

text \<open>\<open>arr->slots[i]\<close>, read and written; a null or dangling array and an index past its end are undefined.\<close>

definition get_slot :: "nat \<Rightarrow> nat \<Rightarrow> 'u world \<Rightarrow> nat option option" where
  "get_slot a i w = (case ta_slots (arrays w a) of
     Valid xs \<Rightarrow> if i < length xs then Some (xs ! i) else None | _ \<Rightarrow> None)"

definition put_slot :: "nat \<Rightarrow> nat \<Rightarrow> nat option \<Rightarrow> 'u world \<Rightarrow> 'u world option" where
  "put_slot a i p w = (case ta_slots (arrays w a) of
     Valid xs \<Rightarrow> if i < length xs
       then Some (set_array a ((arrays w a)\<lparr>ta_slots := Valid (xs[i := p])\<rparr>) w) else None
   | _ \<Rightarrow> None)"

definition array_size :: "nat \<Rightarrow> 'u world \<Rightarrow> nat" where
  "array_size a w = unat (ta_capacity (arrays w a))"

section \<open>Arrays: add and remove\<close>

text \<open>The search loop \<open>for (i = 0; i < capacity; i++) if (slots[i] == p)\<close>, from \<open>i\<close>, \<open>n\<close> more rounds.\<close>

fun find_slot :: "nat \<Rightarrow> nat option \<Rightarrow> nat \<Rightarrow> nat \<Rightarrow> 'u world \<Rightarrow> nat option option" where
  "find_slot a p 0 i w = Some None"
| "find_slot a p (Suc n) i w = (case get_slot a i w of
     None \<Rightarrow> None
   | Some q \<Rightarrow> if q = p then Some (Some i) else find_slot a p n (Suc i) w)"

definition task_array_add :: "nat \<Rightarrow> nat \<Rightarrow> 'u world \<Rightarrow> (int \<times> 'u world) option" where
  "task_array_add a h w = do {
     w1 \<leftarrow> lock_array a w;
     found \<leftarrow> find_slot a None (array_size a w1) 0 w1;
     case found of
       Some i \<Rightarrow> do {
         w2 \<leftarrow> put_slot a i (Some h) w1;
         w3 \<leftarrow> unlock_array a (set_handle h ((handles w2 h)\<lparr>th_array := Some a\<rparr>) w2);
         w4 \<leftarrow> LOGD th_TAG (''added task '' @ quoted (th_name (handles w3 h)) @ '' to array at slot '' @ show_nat i) w3;
         Some (0, w4)
       }
     | None \<Rightarrow> do {
         w2 \<leftarrow> unlock_array a w1;
         w3 \<leftarrow> LOGE th_TAG (''task array full, cannot add task '' @ quoted (th_name (handles w2 h))) w2;
         Some (- 1, w3)
       }
   }"

definition task_array_remove :: "nat \<Rightarrow> nat \<Rightarrow> 'u world \<Rightarrow> (int \<times> 'u world) option" where
  "task_array_remove a h w = do {
     w1 \<leftarrow> lock_array a w;
     found \<leftarrow> find_slot a (Some h) (array_size a w1) 0 w1;
     case found of
       Some i \<Rightarrow> do {
         w2 \<leftarrow> put_slot a i None w1;
         w3 \<leftarrow> unlock_array a (set_handle h ((handles w2 h)\<lparr>th_array := None\<rparr>) w2);
         w4 \<leftarrow> LOGD th_TAG (''removed task '' @ quoted (th_name (handles w3 h)) @ '' from array slot '' @ show_nat i) w3;
         Some (0, w4)
       }
     | None \<Rightarrow> do {
         w2 \<leftarrow> unlock_array a w1;
         w3 \<leftarrow> LOGW th_TAG (''task '' @ quoted (th_name (handles w2 h)) @ '' not found in array'') w2;
         Some (- 1, w3)
       }
   }"

text \<open>
  \<open>calloc\<close> says whether the request for that many bytes succeeds; \<open>calloc\<close> itself checks the product.
\<close>

definition task_array_init :: "(nat \<Rightarrow> bool) \<Rightarrow> nat \<Rightarrow> size_t \<Rightarrow> 'u world \<Rightarrow> (int \<times> 'u world) option" where
  "task_array_init calloc a capacity w =
     (if \<not> (unat capacity * 8 < 2 ^ 64 \<and> calloc (unat capacity * 8))
      then do {
        w1 \<leftarrow> LOGE th_TAG (''failed to allocate task array of capacity '' @ show_nat (unat capacity))
          (set_array a ((arrays w a)\<lparr>ta_slots := Null\<rparr>) w);
        Some (- 1, w1)
      }
      else do {
        w1 \<leftarrow> LOGD th_TAG (''initialized task array with capacity '' @ show_nat (unat capacity))
          (set_array a \<lparr>ta_slots = Valid (replicate (unat capacity) None), ta_capacity = capacity,
             ta_lock = Mutex_Free\<rparr> w);
        Some (0, w1)
      })"

definition task_array_destroy :: "nat \<Rightarrow> 'u world \<Rightarrow> 'u world option" where
  "task_array_destroy a w =
     (if ta_lock (arrays w a) \<noteq> Mutex_Free \<or> ta_slots (arrays w a) = Dangling then None
      else LOGD th_TAG ''destroyed task array''
        (set_array a \<lparr>ta_slots = Null, ta_capacity = 0, ta_lock = Mutex_Dead\<rparr> w))"

section \<open>Handles\<close>

definition task_handle_init :: "bool \<Rightarrow> string \<Rightarrow> nat \<Rightarrow> string \<Rightarrow> 'u world \<Rightarrow> (int \<times> 'u world) option" where
  "task_handle_init eventfd_ok err h name w =
     (let t = \<lparr>th_thread = 0, th_done_fd = None, th_state = TASK_STATE_INIT, th_name = name,
                th_on_stop = None, th_on_cleanup = None, th_array = None\<rparr> in
      if \<not> eventfd_ok
      then do {
        w1 \<leftarrow> LOGE_ERRNO th_TAG (''eventfd failed for task '' @ quoted name @ '': '') err (set_handle h t w);
        Some (- 1, w1)
      }
      else do {
        w1 \<leftarrow> LOGD th_TAG (''initialized handle for task '' @ quoted name)
          (set_handle h (t\<lparr>th_done_fd := Some \<lparr>efd_count = 0, efd_semaphore = False\<rparr>\<rparr>) w);
        Some (0, w1)
      })"

definition task_handle_destroy :: "nat \<Rightarrow> 'u world \<Rightarrow> 'u world option" where
  "task_handle_destroy h w = do {
     w1 \<leftarrow> (case th_array (handles w h) of
        Some a \<Rightarrow> map_option snd (task_array_remove a h w) | None \<Rightarrow> Some w);
     LOGD th_TAG (''destroyed handle for task '' @ quoted (th_name (handles w1 h)))
       (set_handle h ((handles w1 h)\<lparr>th_done_fd := None, th_state := TASK_STATE_STOPPED\<rparr>) w1)
   }"

definition task_handle_mark_done :: "nat \<Rightarrow> 'u world \<Rightarrow> 'u world option" where
  "task_handle_mark_done h w =
     LOGD th_TAG (''task '' @ quoted (th_name (handles w h)) @ '' marked done'')
       (set_handle h ((handles w h)\<lparr>th_state := TASK_STATE_STOPPED,
          th_done_fd := efd_signal (th_done_fd (handles w h))\<rparr>) w)"

definition task_stop :: "'u callbacks \<Rightarrow> nat \<Rightarrow> 'u world \<Rightarrow> 'u world option" where
  "task_stop callback h w = do {
     w1 \<leftarrow> (case th_on_stop (handles w h) of
        Some c \<Rightarrow> callback c h w
      | None \<Rightarrow> Some (set_handle h ((handles w h)\<lparr>th_state := TASK_STATE_STOPPING\<rparr>) w));
     LOGD th_TAG (''stop signal sent to task '' @ quoted (th_name (handles w1 h))) w1
   }"

text \<open>
  Joining returns when the thread has ended; \<open>T_Exited\<close> includes a thread that will end without
  doing anything more. A cancelled thread may still be running.
\<close>

definition pthread_join :: "nat \<Rightarrow> 'u world \<Rightarrow> 'u world option" where
  "pthread_join t w = (if threads w t = T_Exited
     then Some (w\<lparr>threads := (threads w)(t := T_Joined)\<rparr>) else None)"

definition pthread_cancel :: "nat \<Rightarrow> 'u world \<Rightarrow> 'u world option" where
  "pthread_cancel t w = (case threads w t of
     T_Running \<Rightarrow> Some (w\<lparr>threads := (threads w)(t := T_Cancelling)\<rparr>)
   | T_Cancelling \<Rightarrow> Some w
   | T_Exited \<Rightarrow> Some w
   | _ \<Rightarrow> None)"

definition task_join :: "nat \<Rightarrow> 'u world \<Rightarrow> 'u world option" where
  "task_join h w = do {
     w1 \<leftarrow> pthread_join (th_thread (handles w h)) w;
     LOGD th_TAG (''joined task '' @ quoted (th_name (handles w1 h))) w1
   }"

definition task_cancel :: "nat \<Rightarrow> 'u world \<Rightarrow> 'u world option" where
  "task_cancel h w = do {
     w1 \<leftarrow> pthread_cancel (th_thread (handles w h)) w;
     LOGW th_TAG (''cancelled task '' @ quoted (th_name (handles w1 h))) w1
   }"

section \<open>All tasks of an array\<close>

text \<open>
  The loops over the slots: the body runs for each slot that is not null when the loop reaches it; the
  loops run under the array's lock, and no function that they call assigns \<open>capacity\<close>. The first
  component of the loop's state holds the local counters.
\<close>

definition each_task :: "nat \<Rightarrow> (nat \<Rightarrow> nat \<Rightarrow> 'c \<times> 'u world \<Rightarrow> ('c \<times> 'u world) option)
    \<Rightarrow> nat \<Rightarrow> 'c \<times> 'u world \<Rightarrow> ('c \<times> 'u world) option" where
  "each_task a body i s = (case get_slot a i (snd s) of
     None \<Rightarrow> None
   | Some None \<Rightarrow> Some s
   | Some (Some h) \<Rightarrow> body i h s)"

definition slots_loop :: "nat \<Rightarrow> (nat \<Rightarrow> nat \<Rightarrow> 'c \<times> 'u world \<Rightarrow> ('c \<times> 'u world) option)
    \<Rightarrow> 'c \<times> 'u world \<Rightarrow> ('c \<times> 'u world) option" where
  "slots_loop a body s = for_up (array_size a (snd s)) 0 (each_task a body) s"

definition stop_body :: "'u callbacks \<Rightarrow> nat \<Rightarrow> nat \<Rightarrow> nat \<times> 'u world \<Rightarrow> (nat \<times> 'u world) option" where
  "stop_body callback i h s = (case s of (count, w) \<Rightarrow> do {
     w1 \<leftarrow> task_stop callback h w;
     Some (count + 1, w1)
   })"

definition task_array_stop_all :: "'u callbacks \<Rightarrow> nat \<Rightarrow> 'u world \<Rightarrow> 'u world option" where
  "task_array_stop_all callback a w = do {
     w1 \<leftarrow> lock_array a w;
     (count, w2) \<leftarrow> slots_loop a (stop_body callback) (0, w1);
     w3 \<leftarrow> unlock_array a w2;
     LOGD th_TAG (''sent stop signal to '' @ show_nat count @ '' task(s) in array'') w3
   }"

definition cancel_body :: "nat \<Rightarrow> nat \<Rightarrow> nat \<times> 'u world \<Rightarrow> (nat \<times> 'u world) option" where
  "cancel_body i h s = (case s of (count, w) \<Rightarrow> do {
     w1 \<leftarrow> task_cancel h w;
     Some (count + 1, w1)
   })"

definition task_array_cancel_all :: "nat \<Rightarrow> 'u world \<Rightarrow> 'u world option" where
  "task_array_cancel_all a w = do {
     w1 \<leftarrow> lock_array a w;
     (count, w2) \<leftarrow> slots_loop a cancel_body (0, w1);
     w3 \<leftarrow> unlock_array a w2;
     LOGW th_TAG (''cancelled '' @ show_nat count @ '' task(s) in array'') w3
   }"

text \<open>\<open>poll\<close> of one descriptor with timeout 0: whether it is readable now.\<close>

definition join_body :: "nat \<Rightarrow> nat \<Rightarrow> (nat \<times> nat) \<times> 'u world \<Rightarrow> ((nat \<times> nat) \<times> 'u world) option" where
  "join_body i h s = (case s of ((joined, skipped), w) \<Rightarrow>
     if efd_readable (th_done_fd (handles w h))
     then do { w1 \<leftarrow> task_join h w; Some ((joined + 1, skipped), w1) }
     else do {
       w1 \<leftarrow> LOGW th_TAG (''task '' @ quoted (th_name (handles w h)) @ '' stuck, skipping join'') w;
       Some ((joined, skipped + 1), w1)
     })"

definition task_array_join_all :: "nat \<Rightarrow> 'u world \<Rightarrow> 'u world option" where
  "task_array_join_all a w = do {
     w1 \<leftarrow> lock_array a w;
     ((joined, skipped), w2) \<leftarrow> slots_loop a join_body ((0, 0), w1);
     w3 \<leftarrow> unlock_array a w2;
     if skipped > 0
     then LOGW th_TAG (''joined '' @ show_nat joined @ '' task(s), skipped '' @ show_nat skipped @ '' stuck task(s)'') w3
     else LOGD th_TAG (''joined '' @ show_nat joined @ '' task(s) in array'') w3
   }"

definition destroy_body :: "'u callbacks \<Rightarrow> nat \<Rightarrow> nat \<Rightarrow> nat \<Rightarrow> nat \<times> 'u world \<Rightarrow> (nat \<times> 'u world) option" where
  "destroy_body callback a i h s = (case s of (count, w) \<Rightarrow> do {
     w1 \<leftarrow> (case th_on_cleanup (handles w h) of Some c \<Rightarrow> callback c h w | None \<Rightarrow> Some w);
     w2 \<leftarrow> put_slot a i None (set_handle h ((handles w1 h)\<lparr>th_array := None\<rparr>) w1);
     w3 \<leftarrow> task_handle_destroy h w2;
     Some (count + 1, w3)
   })"

definition task_array_handles_destroy_all :: "'u callbacks \<Rightarrow> nat \<Rightarrow> 'u world \<Rightarrow> 'u world option" where
  "task_array_handles_destroy_all callback a w = do {
     w1 \<leftarrow> lock_array a w;
     (count, w2) \<leftarrow> slots_loop a (destroy_body callback a) (0, w1);
     w3 \<leftarrow> unlock_array a w2;
     LOGD th_TAG (''destroyed '' @ show_nat count @ '' task handle(s) in array'') w3
   }"

section \<open>Waiting for the tasks\<close>

text \<open>
  \<open>task_array_poll_all\<close> takes the lock to collect the descriptors and waits without it. The entries of
  the poll array are the done events of the tasks and, at the end, the signal descriptor if it is not
  negative. What \<open>poll\<close> answers, its result and the \<open>POLLIN\<close> flag of each entry, is the argument
  \<open>poll\<close>; other threads run while it waits, so it is not a function of the world.
\<close>

datatype pollfd = Poll_Done nat | Poll_Signal int

definition count_body :: "nat \<Rightarrow> nat \<Rightarrow> nat \<times> 'u world \<Rightarrow> (nat \<times> 'u world) option" where
  "count_body i h s = (case s of (count, w) \<Rightarrow> Some (count + 1, w))"

definition collect_body :: "nat \<Rightarrow> nat \<Rightarrow> pollfd list \<times> 'u world \<Rightarrow> (pollfd list \<times> 'u world) option" where
  "collect_body i h s = (case s of (fds, w) \<Rightarrow> Some (fds @ [Poll_Done h], w))"

definition poll_result :: "int \<Rightarrow> nat \<Rightarrow> int \<Rightarrow> bool list \<Rightarrow> int" where
  "poll_result sig_fd count ret revents =
     (let nfds = count + (if sig_fd \<ge> 0 then 1 else 0) in
      if sig_fd \<ge> 0 \<and> ret > 0 \<and> revents ! (nfds - 1) then - 2
      else let completed = (if ret > 0 then length (filter id (take count revents)) else 0) in
        if ret = 0 then - 1 else int completed)"

definition task_array_poll_all :: "(nat \<Rightarrow> bool) \<Rightarrow> (pollfd list \<Rightarrow> int \<Rightarrow> int \<times> bool list) \<Rightarrow> nat \<Rightarrow> int \<Rightarrow> int
    \<Rightarrow> 'u world \<Rightarrow> (int \<times> 'u world) option" where
  "task_array_poll_all malloc poll a sig_fd timeout_ms w = do {
     w1 \<leftarrow> lock_array a w;
     (count, w2) \<leftarrow> slots_loop a count_body (0, w1);
     if count = 0
     then do { w3 \<leftarrow> unlock_array a w2; Some (0, w3) }
     else if \<not> malloc ((count + (if sig_fd \<ge> 0 then 1 else 0)) * 8)
     then do {
       w3 \<leftarrow> unlock_array a w2;
       w4 \<leftarrow> LOGE th_TAG ''failed to allocate pollfd array'' w3;
       Some (- 1, w4)
     }
     else do {
       (fds, w3) \<leftarrow> slots_loop a collect_body ([], w2);
       w4 \<leftarrow> unlock_array a w3;
       case poll (fds @ (if sig_fd \<ge> 0 then [Poll_Signal sig_fd] else [])) timeout_ms of
         (ret, revents) \<Rightarrow> Some (poll_result sig_fd count ret revents, w4)
     }
   }"

section \<open>Frames\<close>

lemma world_log_simps [simp]:
  "log_wf (set_handle h t w) = log_wf w" "log_wf (set_array a x w) = log_wf w"
  "log_wf (w\<lparr>threads := ts\<rparr>) = log_wf w" "log_wf (w\<lparr>handles := hs\<rparr>) = log_wf w"
  "log_wf (w\<lparr>arrays := as\<rparr>) = log_wf w" "log_wf (w\<lparr>user := u\<rparr>) = log_wf w"
  by (simp_all add: log_wf_def set_handle_def set_array_def)

lemma world_simps [simp]:
  "handles (set_handle h t w) = (handles w)(h := t)" "handles (set_array a x w) = handles w"
  "arrays (set_handle h t w) = arrays w" "arrays (set_array a x w) = (arrays w)(a := x)"
  "threads (set_handle h t w) = threads w" "threads (set_array a x w) = threads w"
  "user (set_handle h t w) = user w" "user (set_array a x w) = user w"
  by (simp_all add: set_handle_def set_array_def)

text \<open>What a log call leaves alone.\<close>

lemma logged_world:
  assumes "logged w w'"
  shows "handles w' = handles w" "arrays w' = arrays w" "threads w' = threads w" "user w' = user w"
  using assms by (auto simp: logged_def)

lemma write_stderr_world [simp]:
  "handles (write_stderr l w) = handles w" "arrays (write_stderr l w) = arrays w"
  "threads (write_stderr l w) = threads w" "user (write_stderr l w) = user w"
  by (simp_all add: write_stderr_def)

text \<open>An array that can be used: its mutex is free and its slots are as many as its capacity says.\<close>

definition array_ok :: "nat \<Rightarrow> 'u world \<Rightarrow> bool" where
  "array_ok a w \<longleftrightarrow> ta_lock (arrays w a) = Mutex_Free \<and>
     (\<exists>xs. ta_slots (arrays w a) = Valid xs \<and> length xs = unat (ta_capacity (arrays w a)))"

definition slots :: "nat \<Rightarrow> 'u world \<Rightarrow> nat option list" where
  "slots a w = (case ta_slots (arrays w a) of Valid xs \<Rightarrow> xs | _ \<Rightarrow> [])"

definition tasks :: "nat \<Rightarrow> 'u world \<Rightarrow> nat list" where
  "tasks a w = List.map_filter id (slots a w)"

lemma array_okE:
  assumes "array_ok a w"
  obtains xs where "ta_lock (arrays w a) = Mutex_Free" "ta_slots (arrays w a) = Valid xs"
    "length xs = unat (ta_capacity (arrays w a))" "slots a w = xs" "array_size a w = length xs"
  using assms by (auto simp: array_ok_def slots_def array_size_def)

lemma array_ok_cong: "arrays w a = arrays w' a \<Longrightarrow> array_ok a w = array_ok a w'"
  by (simp add: array_ok_def)

lemma task_array_unlocked [simp]: "ta_lock x = Mutex_Free \<Longrightarrow> x\<lparr>ta_lock := Mutex_Free\<rparr> = x"
  by (cases x) simp

section \<open>Adding and removing a task\<close>

lemma all_from_step: "(\<forall>k. i \<le> k \<and> k < m \<longrightarrow> Q k) \<longleftrightarrow> (i < m \<longrightarrow> Q i) \<and> (\<forall>k. Suc i \<le> k \<and> k < m \<longrightarrow> Q k)"
  by (metis Suc_leD Suc_leI le_eq_less_or_eq order_refl)

lemma find_slot_spec:
  assumes "ta_slots (arrays w a) = Valid xs" "i + n = length xs"
  shows "\<exists>r. find_slot a p n i w = Some r \<and>
    (case r of Some j \<Rightarrow> i \<le> j \<and> j < length xs \<and> xs ! j = p \<and> (\<forall>k. i \<le> k \<and> k < j \<longrightarrow> xs ! k \<noteq> p)
     | None \<Rightarrow> \<forall>k. i \<le> k \<and> k < length xs \<longrightarrow> xs ! k \<noteq> p)"
  using assms
proof (induction n arbitrary: i)
  case 0
  then show ?case by auto
next
  case (Suc n)
  have get: "get_slot a i w = Some (xs ! i)"
    using Suc.prems by (simp add: get_slot_def)
  show ?case
  proof (cases "xs ! i = p")
    case True
    with get Suc.prems show ?thesis by auto
  next
    case False
    obtain r where r: "find_slot a p n (Suc i) w = Some r"
      "case r of Some j \<Rightarrow> Suc i \<le> j \<and> j < length xs \<and> xs ! j = p \<and> (\<forall>k. Suc i \<le> k \<and> k < j \<longrightarrow> xs ! k \<noteq> p)
       | None \<Rightarrow> \<forall>k. Suc i \<le> k \<and> k < length xs \<longrightarrow> xs ! k \<noteq> p"
      using Suc.IH [of "Suc i"] Suc.prems by auto
    have "find_slot a p (Suc n) i w = Some r" using r(1) False get by simp
    moreover have "case r of Some j \<Rightarrow> i \<le> j \<and> j < length xs \<and> xs ! j = p \<and> (\<forall>k. i \<le> k \<and> k < j \<longrightarrow> xs ! k \<noteq> p)
       | None \<Rightarrow> \<forall>k. i \<le> k \<and> k < length xs \<longrightarrow> xs ! k \<noteq> p"
      using r(2) False by (cases r) (simp_all add: all_from_step [of i])
    ultimately show ?thesis by blast
  qed
qed

lemma find_slot_found:
  assumes "ta_slots (arrays w a) = Valid xs" "array_size a w = length xs" "p \<in> set xs"
  shows "\<exists>j. find_slot a p (array_size a w) 0 w = Some (Some j) \<and> j < length xs \<and> xs ! j = p \<and>
    (\<forall>k < j. xs ! k \<noteq> p)"
  using find_slot_spec [OF assms(1), of 0 "array_size a w" p] assms(2,3)
  by (fastforce simp: in_set_conv_nth split: option.splits)

lemma find_slot_missing:
  assumes "ta_slots (arrays w a) = Valid xs" "array_size a w = length xs" "p \<notin> set xs"
  shows "find_slot a p (array_size a w) 0 w = Some None"
proof -
  obtain r where r: "find_slot a p (array_size a w) 0 w = Some r"
    "case r of Some j \<Rightarrow> j < length xs \<and> xs ! j = p | None \<Rightarrow> True"
    using find_slot_spec [OF assms(1), of 0 "array_size a w" p] assms(2)
    by (fastforce split: option.splits)
  then have "r = None" using assms(3) nth_mem by (cases r) auto
  with r(1) show ?thesis by simp
qed

text \<open>The effect of \<open>slots[i] = p\<close> under the lock, seen after the unlock.\<close>

definition array_put :: "nat \<Rightarrow> nat \<Rightarrow> nat option \<Rightarrow> 'u world \<Rightarrow> nat \<Rightarrow> task_array" where
  "array_put a i p w = (arrays w)(a := (arrays w a)\<lparr>ta_slots := Valid ((slots a w)[i := p])\<rparr>)"

lemma task_array_locked_put:
  "ta_lock x = Mutex_Free \<Longrightarrow> x\<lparr>ta_slots := s, ta_lock := Mutex_Free\<rparr> = x\<lparr>ta_slots := s\<rparr>"
  by (cases x) simp

lemma add_room:
  assumes wf: "log_wf w" and ok: "array_ok a w" and room: "None \<in> set (slots a w)"
  shows "\<exists>i w'. task_array_add a h w = Some (0, w') \<and> log_wf w' \<and>
    i < length (slots a w) \<and> slots a w ! i = None \<and> (\<forall>k < i. slots a w ! k \<noteq> None) \<and>
    arrays w' = array_put a i (Some h) w \<and> threads w' = threads w \<and> user w' = user w \<and>
    handles w' = (handles w)(h := (handles w h)\<lparr>th_array := Some a\<rparr>)"
  using ok
proof (rule array_okE)
  fix xs
  assume a: "ta_lock (arrays w a) = Mutex_Free" "ta_slots (arrays w a) = Valid xs" "slots a w = xs"
    "array_size a w = length xs" "length xs = unat (ta_capacity (arrays w a))"
  let ?w1 = "set_array a ((arrays w a)\<lparr>ta_lock := Mutex_Held\<rparr>) w"
  have w1: "ta_slots (arrays ?w1 a) = Valid xs" "array_size a ?w1 = length xs"
    using a by (simp_all add: array_size_def)
  obtain i where i: "find_slot a None (array_size a ?w1) 0 ?w1 = Some (Some i)" "i < length xs"
      "xs ! i = None" "\<forall>k < i. xs ! k \<noteq> None"
    using find_slot_found [OF w1, of None] room a(3) by auto
  define w3 where "w3 = set_array a ((arrays w a)\<lparr>ta_slots := Valid (xs[i := Some h])\<rparr>)
    (set_handle h ((handles w h)\<lparr>th_array := Some a\<rparr>) w)"
  have lock: "lock_array a w = Some ?w1" using a by (simp add: lock_array_def)
  have body: "put_slot a i (Some h) ?w1 = Some w2 \<Longrightarrow>
      unlock_array a (set_handle h ((handles w2 h)\<lparr>th_array := Some a\<rparr>) w2) = Some w3" for w2
    using a i by (auto simp: put_slot_def unlock_array_def w3_def set_array_def set_handle_def
        task_array_locked_put)
  have put: "\<exists>w2. put_slot a i (Some h) ?w1 = Some w2" using a i by (simp add: put_slot_def)
  have "log_wf w3" using wf by (simp add: w3_def)
  then obtain w4 where "LOGD th_TAG (''added task '' @ quoted (th_name (handles w3 h)) @ '' to array at slot '' @
      show_nat i) w3 = Some w4" "logged w3 w4"
    using LOG_wf(1) by blast
  then show ?thesis
    using a i put body lock
    by (auto simp: task_array_add_def loggedD logged_world w3_def array_put_def)
qed

lemma add_full:
  assumes wf: "log_wf w" and ok: "array_ok a w" and full: "None \<notin> set (slots a w)"
  shows "\<exists>w'. task_array_add a h w = Some (- 1, w') \<and> log_wf w' \<and>
    arrays w' = arrays w \<and> threads w' = threads w \<and> user w' = user w \<and> handles w' = handles w"
  using ok
proof (rule array_okE)
  fix xs
  assume a: "ta_lock (arrays w a) = Mutex_Free" "ta_slots (arrays w a) = Valid xs" "slots a w = xs"
    "array_size a w = length xs" "length xs = unat (ta_capacity (arrays w a))"
  let ?w1 = "set_array a ((arrays w a)\<lparr>ta_lock := Mutex_Held\<rparr>) w"
  have w1: "ta_slots (arrays ?w1 a) = Valid xs" "array_size a ?w1 = length xs"
    using a by (simp_all add: array_size_def)
  have none: "find_slot a None (array_size a ?w1) 0 ?w1 = Some None"
    using find_slot_missing [OF w1, of None] full a(3) by simp
  have lock: "lock_array a w = Some ?w1" and unlock: "unlock_array a ?w1 = Some w"
    using a by (simp_all add: lock_array_def unlock_array_def set_array_def)
  obtain w4 where "LOGE th_TAG (''task array full, cannot add task '' @ quoted (th_name (handles w h))) w = Some w4"
      "logged w w4"
    using LOG_wf(3) [OF wf] by blast
  then show ?thesis
    using none lock unlock by (auto simp: task_array_add_def loggedD logged_world)
qed

text \<open>Removing follows the same two cases.\<close>

lemma remove_found:
  assumes wf: "log_wf w" and ok: "array_ok a w" and found: "Some h \<in> set (slots a w)"
  shows "\<exists>i w'. task_array_remove a h w = Some (0, w') \<and> log_wf w' \<and>
    i < length (slots a w) \<and> slots a w ! i = Some h \<and> (\<forall>k < i. slots a w ! k \<noteq> Some h) \<and>
    arrays w' = array_put a i None w \<and> threads w' = threads w \<and> user w' = user w \<and>
    handles w' = (handles w)(h := (handles w h)\<lparr>th_array := None\<rparr>)"
  using ok
proof (rule array_okE)
  fix xs
  assume a: "ta_lock (arrays w a) = Mutex_Free" "ta_slots (arrays w a) = Valid xs" "slots a w = xs"
    "array_size a w = length xs" "length xs = unat (ta_capacity (arrays w a))"
  let ?w1 = "set_array a ((arrays w a)\<lparr>ta_lock := Mutex_Held\<rparr>) w"
  have w1: "ta_slots (arrays ?w1 a) = Valid xs" "array_size a ?w1 = length xs"
    using a by (simp_all add: array_size_def)
  obtain i where i: "find_slot a (Some h) (array_size a ?w1) 0 ?w1 = Some (Some i)" "i < length xs"
      "xs ! i = Some h" "\<forall>k < i. xs ! k \<noteq> Some h"
    using find_slot_found [OF w1, of "Some h"] found a(3) by auto
  define w3 where "w3 = set_array a ((arrays w a)\<lparr>ta_slots := Valid (xs[i := None])\<rparr>)
    (set_handle h ((handles w h)\<lparr>th_array := None\<rparr>) w)"
  have lock: "lock_array a w = Some ?w1" using a by (simp add: lock_array_def)
  have body: "put_slot a i None ?w1 = Some w2 \<Longrightarrow>
      unlock_array a (set_handle h ((handles w2 h)\<lparr>th_array := None\<rparr>) w2) = Some w3" for w2
    using a i by (auto simp: put_slot_def unlock_array_def w3_def set_array_def set_handle_def
        task_array_locked_put)
  have put: "\<exists>w2. put_slot a i None ?w1 = Some w2" using a i by (simp add: put_slot_def)
  have "log_wf w3" using wf by (simp add: w3_def)
  then obtain w4 where "LOGD th_TAG (''removed task '' @ quoted (th_name (handles w3 h)) @ '' from array slot '' @
      show_nat i) w3 = Some w4" "logged w3 w4"
    using LOG_wf(1) by blast
  then show ?thesis
    using a i put body lock
    by (auto simp: task_array_remove_def loggedD logged_world w3_def array_put_def)
qed

lemma remove_missing:
  assumes wf: "log_wf w" and ok: "array_ok a w" and missing: "Some h \<notin> set (slots a w)"
  shows "\<exists>w'. task_array_remove a h w = Some (- 1, w') \<and> log_wf w' \<and>
    arrays w' = arrays w \<and> threads w' = threads w \<and> user w' = user w \<and> handles w' = handles w"
  using ok
proof (rule array_okE)
  fix xs
  assume a: "ta_lock (arrays w a) = Mutex_Free" "ta_slots (arrays w a) = Valid xs" "slots a w = xs"
    "array_size a w = length xs" "length xs = unat (ta_capacity (arrays w a))"
  let ?w1 = "set_array a ((arrays w a)\<lparr>ta_lock := Mutex_Held\<rparr>) w"
  have w1: "ta_slots (arrays ?w1 a) = Valid xs" "array_size a ?w1 = length xs"
    using a by (simp_all add: array_size_def)
  have none: "find_slot a (Some h) (array_size a ?w1) 0 ?w1 = Some None"
    using find_slot_missing [OF w1, of "Some h"] missing a(3) by simp
  have lock: "lock_array a w = Some ?w1" and unlock: "unlock_array a ?w1 = Some w"
    using a by (simp_all add: lock_array_def unlock_array_def set_array_def)
  obtain w4 where "LOGW th_TAG (''task '' @ quoted (th_name (handles w h)) @ '' not found in array'') w = Some w4"
      "logged w w4"
    using LOG_wf(2) [OF wf] by blast
  then show ?thesis
    using none lock unlock by (auto simp: task_array_remove_def loggedD logged_world)
qed

section \<open>The loops over an array\<close>

text \<open>
  The rule for a loop whose body leaves the arrays alone: \<open>P j\<close> holds of the counters and the world
  before round \<open>j\<close>.
\<close>

lemma slots_loop_keep:
  assumes arr: "ta_slots (arrays w a) = Valid xs" "array_size a w = length xs" and init: "P 0 c w"
    and skip: "\<And>j c t. j < length xs \<Longrightarrow> xs ! j = None \<Longrightarrow> P j c t \<Longrightarrow> P (Suc j) c t"
    and body: "\<And>j h c t. j < length xs \<Longrightarrow> xs ! j = Some h \<Longrightarrow> arrays t = arrays w \<Longrightarrow> P j c t \<Longrightarrow>
      \<exists>c' t'. body j h (c, t) = Some (c', t') \<and> arrays t' = arrays w \<and> P (Suc j) c' t'"
  shows "\<exists>c' t'. slots_loop a body (c, w) = Some (c', t') \<and> arrays t' = arrays w \<and> P (length xs) c' t'"
proof -
  let ?Q = "\<lambda>j (c, t). arrays t = arrays w \<and> P j c t"
  have "\<exists>s'. for_up (length xs) 0 (each_task a body) (c, w) = Some s' \<and> ?Q (0 + length xs) s'"
  proof (rule for_up_rule)
    show "?Q 0 (c, w)" using init by simp
    fix j s
    assume j: "j < 0 + length xs" and s: "?Q j s"
    then have "get_slot a j (snd s) = Some (xs ! j)"
      using arr by (auto simp: get_slot_def)
    then show "\<exists>s'. each_task a body j s = Some s' \<and> ?Q (Suc j) s'"
      using j s skip [of j "fst s" "snd s"] body [of j _ "snd s" "fst s"]
      by (cases "xs ! j") (fastforce simp: each_task_def)+
  qed
  then show ?thesis using arr(2) by (auto simp: slots_loop_def)
qed

lemma map_filter_take_Suc:
  "j < length xs \<Longrightarrow> List.map_filter id (take (Suc j) xs) =
     List.map_filter id (take j xs) @ (case xs ! j of None \<Rightarrow> [] | Some h \<Rightarrow> [h])"
  by (simp add: take_Suc_conv_app_nth List.map_filter_def split: option.splits)

text \<open>A loop between lock and unlock: the lock is given back and the array is as before.\<close>

lemma lock_ok:
  assumes "array_ok a w"
  shows "\<exists>w1. lock_array a w = Some w1 \<and> ta_slots (arrays w1 a) = Valid (slots a w) \<and>
    array_size a w1 = length (slots a w) \<and> handles w1 = handles w \<and> threads w1 = threads w \<and> user w1 = user w \<and>
    log_wf w1 = log_wf w \<and> arrays w1 = (arrays w)(a := (arrays w a)\<lparr>ta_lock := Mutex_Held\<rparr>) \<and>
    unlock_array a w1 = Some w"
  using assms
  by (auto elim!: array_okE simp: lock_array_def unlock_array_def array_size_def set_array_def)

lemma unlock_after:
  assumes "array_ok a w" and "arrays w2 = (arrays w)(a := (arrays w a)\<lparr>ta_lock := Mutex_Held\<rparr>)"
  shows "\<exists>w3. unlock_array a w2 = Some w3 \<and> arrays w3 = arrays w \<and> handles w3 = handles w2 \<and>
    threads w3 = threads w2 \<and> user w3 = user w2 \<and> log_wf w3 = log_wf w2"
  using assms by (auto elim!: array_okE simp: unlock_array_def)

text \<open>
  The rule for the operations of the form lock, loop, unlock: \<open>P j\<close> is about the loop's counters, the
  handles and the threads; the body may log and must leave the arrays alone.
\<close>

lemma locked_loop:
  assumes wf: "log_wf w" and ok: "array_ok a w" and init: "P 0 c (handles w) (threads w) (user w)"
    and skip: "\<And>j c H T U. j < length (slots a w) \<Longrightarrow> slots a w ! j = None \<Longrightarrow> P j c H T U \<Longrightarrow> P (Suc j) c H T U"
    and body: "\<And>j h c t. j < length (slots a w) \<Longrightarrow> slots a w ! j = Some h \<Longrightarrow> h \<in> set (tasks a w) \<Longrightarrow>
      log_wf t \<Longrightarrow> P j c (handles t) (threads t) (user t) \<Longrightarrow>
      \<exists>c' t'. body j h (c, t) = Some (c', t') \<and> log_wf t' \<and> arrays t' = arrays t \<and>
        P (Suc j) c' (handles t') (threads t') (user t')"
  shows "\<exists>w1 c' w2 w3. lock_array a w = Some w1 \<and> slots_loop a body (c, w1) = Some (c', w2) \<and>
    unlock_array a w2 = Some w3 \<and> log_wf w3 \<and> arrays w3 = arrays w \<and>
    P (length (slots a w)) c' (handles w3) (threads w3) (user w3)"
proof -
  obtain w1 where w1: "lock_array a w = Some w1" "ta_slots (arrays w1 a) = Valid (slots a w)"
      "array_size a w1 = length (slots a w)" "handles w1 = handles w" "threads w1 = threads w" "user w1 = user w" "log_wf w1"
      "arrays w1 = (arrays w)(a := (arrays w a)\<lparr>ta_lock := Mutex_Held\<rparr>)"
    using lock_ok [OF ok] wf by auto
  let ?Q = "\<lambda>j c t. log_wf t \<and> P j c (handles t) (threads t) (user t)"
  have "\<exists>c' t'. slots_loop a body (c, w1) = Some (c', t') \<and> arrays t' = arrays w1 \<and>
      ?Q (length (slots a w)) c' t'"
  proof (rule slots_loop_keep [OF w1(2,3), where P = ?Q])
    fix j h c and t :: "'a world"
    assume j: "j < length (slots a w)" "slots a w ! j = Some h" and t: "arrays t = arrays w1" "?Q j c t"
    have "h \<in> set (tasks a w)"
      using j nth_mem [OF j(1)] by (auto simp: tasks_def List.map_filter_def intro: rev_image_eqI)
    then show "\<exists>c' t'. body j h (c, t) = Some (c', t') \<and> arrays t' = arrays w1 \<and> ?Q (Suc j) c' t'"
      using body [of j h t c] j t by auto
  qed (use init skip w1 in auto)
  then obtain c' t' where loop: "slots_loop a body (c, w1) = Some (c', t')" "arrays t' = arrays w1"
    and Q: "?Q (length (slots a w)) c' t'" by blast
  with w1 unlock_after [OF ok, of t'] show ?thesis by auto
qed

section \<open>Cancelling and joining all tasks\<close>

definition cancelled :: "nat set \<Rightarrow> (nat \<Rightarrow> thread_status) \<Rightarrow> nat \<Rightarrow> thread_status" where
  "cancelled ts st t = (if t \<in> ts \<and> st t = T_Running then T_Cancelling else st t)"

definition threads_of :: "(nat \<Rightarrow> task_handle) \<Rightarrow> nat list \<Rightarrow> nat set" where
  "threads_of H hs = (\<lambda>h. th_thread (H h)) ` set hs"

lemma threads_of_simps [simp]:
  "threads_of H [] = {}" "threads_of H (hs @ [h]) = insert (th_thread (H h)) (threads_of H hs)"
  by (auto simp: threads_of_def)

lemma task_cancel_ok:
  assumes "log_wf w" "threads w (th_thread (handles w h)) \<in> {T_Running, T_Cancelling, T_Exited}"
  shows "\<exists>w'. task_cancel h w = Some w' \<and> log_wf w' \<and> arrays w' = arrays w \<and> handles w' = handles w \<and> user w' = user w \<and>
    threads w' = cancelled {th_thread (handles w h)} (threads w)"
proof -
  obtain w1 where w1: "pthread_cancel (th_thread (handles w h)) w = Some w1" "log_wf w1"
      "handles w1 = handles w" "user w1 = user w" "arrays w1 = arrays w" "threads w1 = cancelled {th_thread (handles w h)} (threads w)"
    using assms by (auto simp: pthread_cancel_def cancelled_def fun_eq_iff)
  then obtain w2 where "LOGW th_TAG (''cancelled task '' @ quoted (th_name (handles w1 h))) w1 = Some w2" "logged w1 w2"
    using LOG_wf(2) by blast
  with w1 show ?thesis by (simp add: task_cancel_def loggedD logged_world)
qed

lemma cancelled_simps [simp]:
  "cancelled {} st = st"
  "cancelled {t} (cancelled ts st) = cancelled (insert t ts) st"
  by (auto simp: cancelled_def fun_eq_iff)

lemma cancel_all_ok:
  assumes wf: "log_wf w" and ok: "array_ok a w"
    and alive: "\<forall>h \<in> set (tasks a w). threads w (th_thread (handles w h)) \<in> {T_Running, T_Cancelling, T_Exited}"
  shows "\<exists>w'. task_array_cancel_all a w = Some w' \<and> log_wf w' \<and> arrays w' = arrays w \<and>
    handles w' = handles w \<and> user w' = user w \<and> threads w' = cancelled (threads_of (handles w) (tasks a w)) (threads w)"
proof -
  let ?done = "\<lambda>j. List.map_filter id (take j (slots a w))"
  let ?P = "\<lambda>j (c::nat) H T U. U = user w \<and> H = handles w \<and> T = cancelled (threads_of H (?done j)) (threads w)"
  have "\<exists>w1 c' w2 w3. lock_array a w = Some w1 \<and> slots_loop a cancel_body (0, w1) = Some (c', w2) \<and>
      unlock_array a w2 = Some w3 \<and> log_wf w3 \<and> arrays w3 = arrays w \<and>
      ?P (length (slots a w)) c' (handles w3) (threads w3) (user w3)"
  proof (rule locked_loop [OF wf ok, where P = ?P])
    fix j h c and t :: "'a world"
    assume j: "j < length (slots a w)" "slots a w ! j = Some h" "h \<in> set (tasks a w)"
      and t: "log_wf t" "?P j c (handles t) (threads t) (user t)"
    then have "threads t (th_thread (handles t h)) \<in> {T_Running, T_Cancelling, T_Exited}"
      using alive by (auto simp: cancelled_def)
    from task_cancel_ok [OF t(1) this] t j
    show "\<exists>c' t'. cancel_body j h (c, t) = Some (c', t') \<and> log_wf t' \<and> arrays t' = arrays t \<and>
        ?P (Suc j) c' (handles t') (threads t') (user t')"
      by (auto simp: cancel_body_def map_filter_take_Suc)
  qed (auto simp: map_filter_take_Suc List.map_filter_simps)
  then obtain w1 c w2 w3 where w3: "lock_array a w = Some w1" "slots_loop a cancel_body (0, w1) = Some (c, w2)"
      "unlock_array a w2 = Some w3" "log_wf w3" "arrays w3 = arrays w"
      "?P (length (slots a w)) c (handles w3) (threads w3) (user w3)" by blast
  obtain w4 where "LOGW th_TAG (''cancelled '' @ show_nat c @ '' task(s) in array'') w3 = Some w4" "logged w3 w4"
    using LOG_wf(2) [OF w3(4)] by blast
  with w3 show ?thesis
    by (auto simp: task_array_cancel_all_def loggedD logged_world tasks_def)
qed

definition readable :: "'u world \<Rightarrow> nat \<Rightarrow> bool" where
  "readable w h = efd_readable (th_done_fd (handles w h))"

definition joined :: "nat set \<Rightarrow> (nat \<Rightarrow> thread_status) \<Rightarrow> nat \<Rightarrow> thread_status" where
  "joined ts st t = (if t \<in> ts then T_Joined else st t)"

lemma joined_simps [simp]:
  "joined {} st = st"
  "joined {t} (joined ts st) = joined (insert t ts) st"
  by (auto simp: joined_def fun_eq_iff)

lemma map_filter_id_append:
  "List.map_filter id (xs @ ys) = List.map_filter id xs @ List.map_filter id ys"
  by (simp add: List.map_filter_def)

lemma tasks_split:
  assumes "j < length xs" "xs ! j = Some h"
  shows "\<exists>rest. List.map_filter id xs = List.map_filter id (take j xs) @ h # rest"
proof -
  have "xs = take j xs @ Some h # drop (Suc j) xs"
    using id_take_nth_drop [OF assms(1)] assms(2) by simp
  then have "List.map_filter id xs = List.map_filter id (take j xs @ Some h # drop (Suc j) xs)"
    by (rule arg_cong)
  then show ?thesis by (simp add: map_filter_id_append List.map_filter_simps)
qed

lemma task_join_ok:
  assumes "log_wf w" "threads w (th_thread (handles w h)) = T_Exited"
  shows "\<exists>w'. task_join h w = Some w' \<and> log_wf w' \<and> arrays w' = arrays w \<and> handles w' = handles w \<and> user w' = user w \<and>
    threads w' = joined {th_thread (handles w h)} (threads w)"
proof -
  let ?w1 = "w\<lparr>threads := (threads w)(th_thread (handles w h) := T_Joined)\<rparr>"
  obtain w2 where "LOGD th_TAG (''joined task '' @ quoted (th_name (handles ?w1 h))) ?w1 = Some w2" "logged ?w1 w2"
    using LOG_wf(1) [of ?w1] assms(1) by auto
  with assms show ?thesis
    by (auto simp: task_join_def pthread_join_def loggedD logged_world joined_def fun_eq_iff)
qed

lemma join_all_ok:
  assumes wf: "log_wf w" and ok: "array_ok a w"
    and dist: "distinct (map (\<lambda>h. th_thread (handles w h)) (tasks a w))"
    and ended: "\<forall>h \<in> set (tasks a w). readable w h \<longrightarrow> threads w (th_thread (handles w h)) = T_Exited"
  shows "\<exists>w'. task_array_join_all a w = Some w' \<and> log_wf w' \<and> arrays w' = arrays w \<and>
    handles w' = handles w \<and> user w' = user w \<and>
    threads w' = joined (threads_of (handles w) (filter (readable w) (tasks a w))) (threads w)"
proof -
  let ?done = "\<lambda>j. List.map_filter id (take j (slots a w))"
  let ?P = "\<lambda>j (c::nat \<times> nat) H T U. U = user w \<and> H = handles w \<and>
    T = joined (threads_of H (filter (readable w) (?done j))) (threads w)"
  have "\<exists>w1 c' w2 w3. lock_array a w = Some w1 \<and> slots_loop a join_body ((0, 0), w1) = Some (c', w2) \<and>
      unlock_array a w2 = Some w3 \<and> log_wf w3 \<and> arrays w3 = arrays w \<and>
      ?P (length (slots a w)) c' (handles w3) (threads w3) (user w3)"
  proof (rule locked_loop [OF wf ok, where P = ?P])
    fix j h and c :: "nat \<times> nat" and t :: "'a world"
    assume j: "j < length (slots a w)" "slots a w ! j = Some h" "h \<in> set (tasks a w)"
      and t: "log_wf t" "?P j c (handles t) (threads t) (user t)"
    have read: "efd_readable (th_done_fd (handles t h)) = readable w h"
      using t by (simp add: readable_def)
    show "\<exists>c' t'. join_body j h (c, t) = Some (c', t') \<and> log_wf t' \<and> arrays t' = arrays t \<and>
        ?P (Suc j) c' (handles t') (threads t') (user t')"
    proof (cases "readable w h")
      case True
      obtain rest where "tasks a w = ?done j @ h # rest"
        using tasks_split [OF j(1,2)] by (auto simp: tasks_def)
      with dist have "th_thread (handles w h) \<notin> threads_of (handles w) (?done j)"
        by (auto simp: threads_of_def)
      then have "threads t (th_thread (handles t h)) = T_Exited"
        using t ended j(3) True by (auto simp: joined_def threads_of_def)
      from task_join_ok [OF t(1) this] t j True read show ?thesis
        by (cases c) (auto simp: join_body_def map_filter_take_Suc)
    next
      case False
      obtain t1 where "LOGW th_TAG (''task '' @ quoted (th_name (handles t h)) @ '' stuck, skipping join'') t = Some t1"
          "logged t t1"
        using LOG_wf(2) [OF t(1)] by blast
      with t j False read show ?thesis
        by (cases c) (auto simp: join_body_def map_filter_take_Suc loggedD logged_world)
    qed
  qed (auto simp: map_filter_take_Suc List.map_filter_simps)
  then obtain w1 c w2 w3 where w3: "lock_array a w = Some w1" "slots_loop a join_body ((0, 0), w1) = Some (c, w2)"
      "unlock_array a w2 = Some w3" "log_wf w3" "arrays w3 = arrays w"
      "?P (length (slots a w)) c (handles w3) (threads w3) (user w3)" by blast
  have "\<exists>w4. (if snd c > 0
      then LOGW th_TAG (''joined '' @ show_nat (fst c) @ '' task(s), skipped '' @ show_nat (snd c) @ '' stuck task(s)'') w3
      else LOGD th_TAG (''joined '' @ show_nat (fst c) @ '' task(s) in array'') w3) = Some w4 \<and> logged w3 w4"
    using LOG_wf [OF w3(4)] by simp
  with w3 show ?thesis
    by (cases c) (fastforce simp: task_array_join_all_def loggedD logged_world tasks_def)
qed

section \<open>Waiting\<close>

lemma count_loop:
  assumes "ta_slots (arrays w a) = Valid xs" "array_size a w = length xs"
  shows "slots_loop a count_body (0, w) = Some (length (List.map_filter id xs), w)"
proof -
  let ?P = "\<lambda>j c t. t = w \<and> c = length (List.map_filter id (take j xs))"
  have "\<exists>c' t'. slots_loop a count_body (0, w) = Some (c', t') \<and> arrays t' = arrays w \<and> ?P (length xs) c' t'"
    by (rule slots_loop_keep [OF assms, where P = ?P])
      (auto simp: count_body_def map_filter_take_Suc List.map_filter_simps)
  then show ?thesis by simp
qed

lemma collect_loop:
  assumes "ta_slots (arrays w a) = Valid xs" "array_size a w = length xs"
  shows "slots_loop a collect_body ([], w) = Some (map Poll_Done (List.map_filter id xs), w)"
proof -
  let ?P = "\<lambda>j c t. t = w \<and> c = map Poll_Done (List.map_filter id (take j xs))"
  have "\<exists>c' t'. slots_loop a collect_body ([], w) = Some (c', t') \<and> arrays t' = arrays w \<and> ?P (length xs) c' t'"
    by (rule slots_loop_keep [OF assms, where P = ?P])
      (auto simp: collect_body_def map_filter_take_Suc List.map_filter_simps)
  then show ?thesis by simp
qed

definition poll_fds :: "nat list \<Rightarrow> int \<Rightarrow> pollfd list" where
  "poll_fds hs sig_fd = map Poll_Done hs @ (if sig_fd \<ge> 0 then [Poll_Signal sig_fd] else [])"

lemma poll_all_ok:
  assumes ok: "array_ok a w" and hs: "tasks a w \<noteq> []"
    and mem: "malloc (length (poll_fds (tasks a w) sig_fd) * 8)"
    and poll: "poll (poll_fds (tasks a w) sig_fd) timeout_ms = (ret, revents)"
  shows "task_array_poll_all malloc poll a sig_fd timeout_ms w =
    Some (poll_result sig_fd (length (tasks a w)) ret revents, w)"
proof -
  obtain w1 where w1: "lock_array a w = Some w1" "ta_slots (arrays w1 a) = Valid (slots a w)"
      "array_size a w1 = length (slots a w)" "unlock_array a w1 = Some w"
    using lock_ok [OF ok] by auto
  note loops = count_loop [OF w1(2,3)] collect_loop [OF w1(2,3)]
  show ?thesis
    using hs mem poll w1 loops
    by (simp add: task_array_poll_all_def poll_fds_def tasks_def del: of_nat_add split: if_splits)
qed

lemma poll_all_empty:
  assumes "array_ok a w" "tasks a w = []"
  shows "task_array_poll_all malloc poll a sig_fd timeout_ms w = Some (0, w)"
proof -
  obtain w1 where "lock_array a w = Some w1" "ta_slots (arrays w1 a) = Valid (slots a w)"
      "array_size a w1 = length (slots a w)" "unlock_array a w1 = Some w"
    using lock_ok [OF assms(1)] by auto
  with count_loop [of w1 a] assms(2) show ?thesis
    by (simp add: task_array_poll_all_def tasks_def)
qed

section \<open>Callbacks\<close>

text \<open>
  What a callback may do: log, and set the state of the handle that it is called on. The tasks that
  provide callbacks discharge this contract for them.
\<close>

definition set_state :: "nat \<Rightarrow> task_state \<Rightarrow> (nat \<Rightarrow> task_handle) \<Rightarrow> nat \<Rightarrow> task_handle" where
  "set_state h st H = H(h := (H h)\<lparr>th_state := st\<rparr>)"

lemma set_state_simps [simp]:
  "th_on_stop (set_state h st H k) = th_on_stop (H k)" "th_name (set_state h st H k) = th_name (H k)"
  "th_on_cleanup (set_state h st H k) = th_on_cleanup (H k)" "th_array (set_state h st H k) = th_array (H k)"
  "th_thread (set_state h st H k) = th_thread (H k)" "th_done_fd (set_state h st H k) = th_done_fd (H k)"
  "k \<noteq> h \<Longrightarrow> set_state h st H k = H k"
  "th_state (set_state h st H h) = st"
  by (simp_all add: set_state_def)

text \<open>\<open>stopped_handles H hs H'\<close>: the tasks \<open>hs\<close> of the handles \<open>H\<close> were told to stop.\<close>

definition stopped_handles :: "(nat \<Rightarrow> task_handle) \<Rightarrow> nat list \<Rightarrow> (nat \<Rightarrow> task_handle) \<Rightarrow> bool" where
  "stopped_handles H hs H' \<longleftrightarrow> (\<forall>k. \<exists>st. H' k = (H k)\<lparr>th_state := st\<rparr> \<and>
     (k \<notin> set hs \<longrightarrow> st = th_state (H k)) \<and>
     (k \<in> set hs \<and> th_on_stop (H k) = None \<longrightarrow> st = TASK_STATE_STOPPING))"

lemma stopped_handles_Nil: "stopped_handles H [] H"
  by (auto simp: stopped_handles_def)

lemma stopped_handles_snoc:
  assumes "stopped_handles H hs H1" "H2 = set_state h st H1"
    and "th_on_stop (H1 h) = None \<longrightarrow> st = TASK_STATE_STOPPING"
  shows "stopped_handles H (hs @ [h]) H2"
  unfolding stopped_handles_def
proof
  fix k
  obtain s1 where s1: "H1 k = (H k)\<lparr>th_state := s1\<rparr>" "k \<notin> set hs \<longrightarrow> s1 = th_state (H k)"
      "k \<in> set hs \<and> th_on_stop (H k) = None \<longrightarrow> s1 = TASK_STATE_STOPPING"
    using assms(1) by (auto simp: stopped_handles_def)
  show "\<exists>st. H2 k = (H k)\<lparr>th_state := st\<rparr> \<and> (k \<notin> set (hs @ [h]) \<longrightarrow> st = th_state (H k)) \<and>
      (k \<in> set (hs @ [h]) \<and> th_on_stop (H k) = None \<longrightarrow> st = TASK_STATE_STOPPING)"
    using s1 assms(2,3) by (cases "k = h") (auto simp: set_state_def)
qed

lemma stopped_handles_on_stop: "stopped_handles H hs H' \<Longrightarrow> th_on_stop (H' k) = th_on_stop (H k)"
  unfolding stopped_handles_def by (drule spec [of _ k]) auto

text \<open>A destroyed handle, and all handles after the tasks \<open>hs\<close> were destroyed.\<close>

definition destroyed_handle :: "task_handle \<Rightarrow> task_handle" where
  "destroyed_handle t = t\<lparr>th_done_fd := None, th_state := TASK_STATE_STOPPED, th_array := None\<rparr>"

definition destroyed_handles :: "(nat \<Rightarrow> task_handle) \<Rightarrow> nat list \<Rightarrow> nat \<Rightarrow> task_handle" where
  "destroyed_handles H hs k = (if k \<in> set hs then destroyed_handle (H k) else H k)"

lemma destroyed_handles_snoc:
  "(destroyed_handles H hs)(h := destroyed_handle (destroyed_handles H hs h)) = destroyed_handles H (hs @ [h])"
  by (auto simp: destroyed_handles_def destroyed_handle_def fun_eq_iff)

lemma task_handle_destroy_ok:
  assumes "log_wf w" "th_array (handles w h) = None"
  shows "\<exists>w'. task_handle_destroy h w = Some w' \<and> log_wf w' \<and> arrays w' = arrays w \<and> threads w' = threads w \<and> user w' = user w \<and>
    handles w' = (handles w)(h := destroyed_handle (handles w h))"
proof -
  let ?w1 = "set_handle h ((handles w h)\<lparr>th_done_fd := None, th_state := TASK_STATE_STOPPED\<rparr>) w"
  obtain w2 where "LOGD th_TAG (''destroyed handle for task '' @ quoted (th_name (handles w h))) ?w1 = Some w2"
      "logged ?w1 w2"
    using LOG_wf(1) [of ?w1] assms(1) by auto
  moreover have "(handles w h)\<lparr>th_done_fd := None, th_state := TASK_STATE_STOPPED\<rparr> = destroyed_handle (handles w h)"
    using assms(2) by (cases "handles w h") (simp add: destroyed_handle_def)
  ultimately show ?thesis using assms(2) by (simp add: task_handle_destroy_def loggedD logged_world)
qed

lemma clear_prefix_step:
  "j < length xs \<Longrightarrow> (replicate j None @ drop j xs)[j := None] = replicate (Suc j) None @ drop (Suc j) xs"
  by (simp add: list_update_append Cons_nth_drop_Suc [symmetric] replicate_append_same)

lemma clear_prefix_None:
  assumes "j < length xs" "xs ! j = None"
  shows "None # replicate j None @ drop (Suc j) xs = replicate j None @ drop j xs"
  using assms by (simp add: Cons_nth_drop_Suc [symmetric] replicate_app_Cons_same)

text \<open>The effect of the callbacks of the tasks \<open>hs\<close>, in order, on the variables of the tasks.\<close>

definition run_effect :: "(nat \<Rightarrow> 'u \<Rightarrow> 'u) \<Rightarrow> nat option \<Rightarrow> 'u \<Rightarrow> 'u" where
  "run_effect eff cb u = (case cb of None \<Rightarrow> u | Some c \<Rightarrow> eff c u)"

definition effects :: "(nat \<Rightarrow> 'u \<Rightarrow> 'u) \<Rightarrow> (nat \<Rightarrow> nat option) \<Rightarrow> nat list \<Rightarrow> 'u \<Rightarrow> 'u" where
  "effects eff cb hs u = foldl (\<lambda>u h. run_effect eff (cb h) u) u hs"

lemma effects_simps [simp]:
  "effects eff cb [] u = u"
  "effects eff cb (hs @ [h]) u = run_effect eff (cb h) (effects eff cb hs u)"
  by (simp_all add: effects_def)

locale task_callbacks =
  fixes callback :: "nat \<Rightarrow> nat \<Rightarrow> 'u world \<Rightarrow> 'u world option"
    and eff :: "nat \<Rightarrow> 'u \<Rightarrow> 'u"
  assumes callback_frame: "log_wf w \<Longrightarrow> \<exists>w' st. callback c h w = Some w' \<and> log_wf w' \<and>
    arrays w' = arrays w \<and> threads w' = threads w \<and> user w' = eff c (user w) \<and>
    handles w' = set_state h st (handles w)"
begin

lemma task_stop_ok:
  assumes wf: "log_wf w"
  shows "\<exists>w' st. task_stop callback h w = Some w' \<and> log_wf w' \<and> arrays w' = arrays w \<and>
    threads w' = threads w \<and> user w' = run_effect eff (th_on_stop (handles w h)) (user w) \<and>
    handles w' = set_state h st (handles w) \<and> (th_on_stop (handles w h) = None \<longrightarrow> st = TASK_STATE_STOPPING)"
proof (cases "th_on_stop (handles w h)")
  case None
  let ?w1 = "set_handle h ((handles w h)\<lparr>th_state := TASK_STATE_STOPPING\<rparr>) w"
  obtain w2 where "LOGD th_TAG (''stop signal sent to task '' @ quoted (th_name (handles ?w1 h))) ?w1 = Some w2"
      "logged ?w1 w2"
    using LOG_wf(1) [of ?w1] wf by auto
  with None show ?thesis
    by (intro exI [of _ w2] exI [of _ TASK_STATE_STOPPING])
      (simp add: task_stop_def loggedD logged_world set_state_def run_effect_def)
next
  case (Some c)
  obtain w1 st where w1: "callback c h w = Some w1" "log_wf w1" "arrays w1 = arrays w"
      "threads w1 = threads w" "user w1 = eff c (user w)" "handles w1 = set_state h st (handles w)"
    using callback_frame [OF wf] by blast
  obtain w2 where "LOGD th_TAG (''stop signal sent to task '' @ quoted (th_name (handles w1 h))) w1 = Some w2"
      "logged w1 w2"
    using LOG_wf(1) [OF w1(2)] by blast
  with Some w1 show ?thesis
    by (intro exI [of _ w2] exI [of _ st]) (simp add: task_stop_def loggedD logged_world run_effect_def)
qed

lemma stop_all_ok:
  assumes wf: "log_wf w" and ok: "array_ok a w"
  shows "\<exists>w'. task_array_stop_all callback a w = Some w' \<and> log_wf w' \<and> arrays w' = arrays w \<and>
    threads w' = threads w \<and> user w' = effects eff (\<lambda>h. th_on_stop (handles w h)) (tasks a w) (user w) \<and>
    stopped_handles (handles w) (tasks a w) (handles w')"
proof -
  let ?done = "\<lambda>j. List.map_filter id (take j (slots a w))"
  let ?P = "\<lambda>j (c::nat) H T U. T = threads w \<and>
    U = effects eff (\<lambda>h. th_on_stop (handles w h)) (?done j) (user w) \<and> stopped_handles (handles w) (?done j) H"
  have "\<exists>w1 c' w2 w3. lock_array a w = Some w1 \<and> slots_loop a (stop_body callback) (0, w1) = Some (c', w2) \<and>
      unlock_array a w2 = Some w3 \<and> log_wf w3 \<and> arrays w3 = arrays w \<and>
      ?P (length (slots a w)) c' (handles w3) (threads w3) (user w3)"
  proof (rule locked_loop [OF wf ok, where P = ?P])
    fix j h c and t :: "'u world"
    assume j: "j < length (slots a w)" "slots a w ! j = Some h" and t: "log_wf t" "?P j c (handles t) (threads t) (user t)"
    obtain t' st where t': "task_stop callback h t = Some t'" "log_wf t'" "arrays t' = arrays t"
        "threads t' = threads t" "user t' = run_effect eff (th_on_stop (handles t h)) (user t)"
        "handles t' = set_state h st (handles t)" "th_on_stop (handles t h) = None \<longrightarrow> st = TASK_STATE_STOPPING"
      using task_stop_ok [OF t(1)] by blast
    have "stopped_handles (handles w) (?done j @ [h]) (handles t')"
      using t(2) t'(6,7) by (auto intro: stopped_handles_snoc)
    moreover have "th_on_stop (handles t h) = th_on_stop (handles w h)"
      using t(2) stopped_handles_on_stop by blast
    ultimately show "\<exists>c' t'. stop_body callback j h (c, t) = Some (c', t') \<and> log_wf t' \<and>
        arrays t' = arrays t \<and> ?P (Suc j) c' (handles t') (threads t') (user t')"
      using t t' j by (simp add: stop_body_def map_filter_take_Suc)
  qed (auto simp: map_filter_take_Suc List.map_filter_simps stopped_handles_Nil)
  then obtain w1 c w2 w3 where w3: "lock_array a w = Some w1"
      "slots_loop a (stop_body callback) (0, w1) = Some (c, w2)"
      "unlock_array a w2 = Some w3" "log_wf w3" "arrays w3 = arrays w"
      "?P (length (slots a w)) c (handles w3) (threads w3) (user w3)" by blast
  obtain w4 where "LOGD th_TAG (''sent stop signal to '' @ show_nat c @ '' task(s) in array'') w3 = Some w4"
      "logged w3 w4"
    using LOG_wf(1) [OF w3(4)] by blast
  with w3 show ?thesis
    by (auto simp: task_array_stop_all_def loggedD logged_world tasks_def)
qed

lemma destroy_body_ok:
  assumes wf: "log_wf t" and arr: "ta_slots (arrays t a) = Valid xs" "i < length xs"
  shows "\<exists>t'. destroy_body callback a i h (c, t) = Some (c + 1, t') \<and> log_wf t' \<and> threads t' = threads t \<and>
    arrays t' = (arrays t)(a := (arrays t a)\<lparr>ta_slots := Valid (xs[i := None])\<rparr>) \<and>
    user t' = run_effect eff (th_on_cleanup (handles t h)) (user t) \<and>
    handles t' = (handles t)(h := destroyed_handle (handles t h))"
proof -
  obtain t1 st where t1: "(case th_on_cleanup (handles t h) of Some c \<Rightarrow> callback c h t | None \<Rightarrow> Some t) = Some t1"
      "log_wf t1" "arrays t1 = arrays t" "threads t1 = threads t"
      "user t1 = run_effect eff (th_on_cleanup (handles t h)) (user t)" "handles t1 = set_state h st (handles t)"
  proof (cases "th_on_cleanup (handles t h)")
    case None
    with wf show ?thesis
      by (intro that [of t "th_state (handles t h)"]) (simp_all add: set_state_def run_effect_def)
  next
    case (Some cb)
    then show ?thesis using callback_frame [OF wf, of cb h] that by (auto simp: run_effect_def)
  qed
  define t2 where "t2 = set_array a ((arrays t a)\<lparr>ta_slots := Valid (xs[i := None])\<rparr>)
    (set_handle h ((handles t1 h)\<lparr>th_array := None\<rparr>) t1)"
  have "put_slot a i None (set_handle h ((handles t1 h)\<lparr>th_array := None\<rparr>) t1) = Some t2"
    using arr t1 by (simp add: put_slot_def t2_def)
  moreover obtain t3 where "task_handle_destroy h t2 = Some t3" "log_wf t3" "arrays t3 = arrays t2"
      "threads t3 = threads t2" "user t3 = user t2" "handles t3 = (handles t2)(h := destroyed_handle (handles t2 h))"
    using task_handle_destroy_ok [of t2 h] t1(2) by (auto simp: t2_def)
  ultimately show ?thesis
    using t1 by (auto simp: destroy_body_def t2_def destroyed_handle_def set_state_def)
qed

lemma destroy_all_ok:
  assumes wf: "log_wf w" and ok: "array_ok a w"
  shows "\<exists>w'. task_array_handles_destroy_all callback a w = Some w' \<and> log_wf w' \<and> threads w' = threads w \<and>
    arrays w' = (arrays w)(a := (arrays w a)\<lparr>ta_slots := Valid (replicate (length (slots a w)) None)\<rparr>) \<and>
    user w' = effects eff (\<lambda>h. th_on_cleanup (handles w h)) (tasks a w) (user w) \<and>
    handles w' = destroyed_handles (handles w) (tasks a w)"
proof -
  let ?xs = "slots a w" and ?done = "\<lambda>j. List.map_filter id (take j (slots a w))"
  obtain w1 where w1: "lock_array a w = Some w1" "ta_slots (arrays w1 a) = Valid ?xs"
      "array_size a w1 = length ?xs" "handles w1 = handles w" "threads w1 = threads w" "user w1 = user w" "log_wf w1"
      "arrays w1 = (arrays w)(a := (arrays w a)\<lparr>ta_lock := Mutex_Held\<rparr>)"
    using lock_ok [OF ok] wf by auto
  let ?arr = "\<lambda>j. (arrays w1)(a := (arrays w1 a)\<lparr>ta_slots := Valid (replicate j None @ drop j ?xs)\<rparr>)"
  let ?Q = "\<lambda>j (c::nat, t :: 'u world). log_wf t \<and> threads t = threads w \<and> arrays t = ?arr j \<and>
    user t = effects eff (\<lambda>h. th_on_cleanup (handles w h)) (?done j) (user w) \<and>
    handles t = destroyed_handles (handles w) (?done j)"
  have "\<exists>s'. for_up (length ?xs) 0 (each_task a (destroy_body callback a)) (0, w1) = Some s' \<and> ?Q (0 + length ?xs) s'"
  proof (rule for_up_rule)
    show "?Q 0 (0, w1)"
      using w1 by (auto simp: destroyed_handles_def List.map_filter_simps fun_eq_iff)
    fix j s
    assume j: "j < 0 + length ?xs" and s: "?Q j s"
    obtain c t where ct: "s = (c, t)" by (cases s)
    have arr: "ta_slots (arrays t a) = Valid (replicate j None @ drop j ?xs)" using s ct by simp
    have get: "get_slot a j t = Some (?xs ! j)" using arr j by (simp add: get_slot_def nth_append)
    show "\<exists>s'. each_task a (destroy_body callback a) j s = Some s' \<and> ?Q (Suc j) s'"
    proof (cases "?xs ! j")
      case None
      with j s ct get show ?thesis
        by (auto simp: each_task_def map_filter_take_Suc clear_prefix_None)
    next
      case (Some h)
      obtain t' where "destroy_body callback a j h (c, t) = Some (c + 1, t')" "log_wf t'" "threads t' = threads t"
          "arrays t' = (arrays t)(a := (arrays t a)\<lparr>ta_slots := Valid ((replicate j None @ drop j ?xs)[j := None])\<rparr>)"
          "user t' = run_effect eff (th_on_cleanup (handles t h)) (user t)"
          "handles t' = (handles t)(h := destroyed_handle (handles t h))"
        using destroy_body_ok [of t a _ j h c] arr s ct j by auto
      moreover have "th_on_cleanup (handles t h) = th_on_cleanup (handles w h)"
        using s ct by (simp add: destroyed_handles_def destroyed_handle_def)
      ultimately show ?thesis
        using Some j s ct get
        by (auto simp: each_task_def map_filter_take_Suc clear_prefix_step destroyed_handles_snoc)
    qed
  qed
  then obtain c w2 where loop: "slots_loop a (destroy_body callback a) (0, w1) = Some (c, w2)"
    and Q: "?Q (length ?xs) (c, w2)"
    using w1(3) by (auto simp: slots_loop_def)
  let ?w3 = "set_array a ((arrays w2 a)\<lparr>ta_lock := Mutex_Free\<rparr>) w2"
  have unlock: "unlock_array a w2 = Some ?w3" using Q w1 by (simp add: unlock_array_def)
  obtain w4 where "LOGD th_TAG (''destroyed '' @ show_nat c @ '' task handle(s) in array'') ?w3 = Some w4" "logged ?w3 w4"
    using LOG_wf(1) [of ?w3] Q by auto
  with w1 loop unlock Q ok show ?thesis
    by (auto simp: task_array_handles_destroy_all_def loggedD logged_world tasks_def
        task_array_locked_put elim!: array_okE)
qed

end

lemma array_put_undo:
  assumes "array_ok a w" "slots a w ! i = None" "arrays w1 = array_put a i (Some h) w"
    and "slots a w1 = (slots a w)[i := Some h]"
  shows "array_put a i None w1 = arrays w"
proof -
  have "(slots a w)[i := None] = slots a w" using assms(2) by (metis list_update_id)
  with assms show ?thesis
    by (cases "arrays w a") (auto elim!: array_okE simp: array_put_def fun_eq_iff)
qed

section \<open>The life of an array\<close>

lemma task_array_init_ok:
  assumes wf: "log_wf w" and "unat capacity * 8 < 2 ^ 64" "calloc (unat capacity * 8)"
  shows "\<exists>w'. task_array_init calloc a capacity w = Some (0, w') \<and> log_wf w' \<and> handles w' = handles w \<and>
    threads w' = threads w \<and> user w' = user w \<and>
    arrays w' = (arrays w)(a := \<lparr>ta_slots = Valid (replicate (unat capacity) None), ta_capacity = capacity,
      ta_lock = Mutex_Free\<rparr>)"
proof -
  let ?w1 = "set_array a \<lparr>ta_slots = Valid (replicate (unat capacity) None), ta_capacity = capacity,
    ta_lock = Mutex_Free\<rparr> w"
  obtain w2 where "LOGD th_TAG (''initialized task array with capacity '' @ show_nat (unat capacity)) ?w1 = Some w2"
      "logged ?w1 w2"
    using LOG_wf(1) [of ?w1] wf by auto
  with assms show ?thesis by (simp add: task_array_init_def loggedD logged_world)
qed

lemma task_array_init_fails:
  assumes wf: "log_wf w" and "\<not> (unat capacity * 8 < 2 ^ 64 \<and> calloc (unat capacity * 8))"
  shows "\<exists>w'. task_array_init calloc a capacity w = Some (- 1, w') \<and> log_wf w' \<and> handles w' = handles w \<and>
    threads w' = threads w \<and> user w' = user w \<and> arrays w' = (arrays w)(a := (arrays w a)\<lparr>ta_slots := Null\<rparr>)"
proof -
  let ?w1 = "set_array a ((arrays w a)\<lparr>ta_slots := Null\<rparr>) w"
  obtain w2 where "LOGE th_TAG (''failed to allocate task array of capacity '' @ show_nat (unat capacity)) ?w1 = Some w2"
      "logged ?w1 w2"
    using LOG_wf(3) [of ?w1] wf by auto
  with assms(2) show ?thesis by (auto simp: task_array_init_def loggedD logged_world)
qed

definition dead_array :: task_array where
  "dead_array = \<lparr>ta_slots = Null, ta_capacity = 0, ta_lock = Mutex_Dead\<rparr>"

lemma task_array_destroy_ok:
  assumes wf: "log_wf w" and "ta_lock (arrays w a) = Mutex_Free" "ta_slots (arrays w a) \<noteq> Dangling"
  shows "\<exists>w'. task_array_destroy a w = Some w' \<and> log_wf w' \<and> handles w' = handles w \<and>
    threads w' = threads w \<and> user w' = user w \<and> arrays w' = (arrays w)(a := dead_array)"
proof -
  obtain w2 where "LOGD th_TAG ''destroyed task array'' (set_array a dead_array w) = Some w2"
      "logged (set_array a dead_array w) w2"
    using LOG_wf(1) [of "set_array a dead_array w"] wf by auto
  with assms show ?thesis by (simp add: task_array_destroy_def dead_array_def loggedD logged_world)
qed

text \<open>A registered handle is taken out of its array first.\<close>

lemma task_handle_destroy_registered:
  assumes wf: "log_wf w" and "th_array (handles w h) = Some a" and ok: "array_ok a w" and "Some h \<in> set (slots a w)"
  shows "\<exists>i w'. task_handle_destroy h w = Some w' \<and> log_wf w' \<and> threads w' = threads w \<and> user w' = user w \<and>
    slots a w ! i = Some h \<and> arrays w' = array_put a i None w \<and>
    handles w' = (handles w)(h := destroyed_handle (handles w h))"
proof -
  obtain i w1 where w1: "task_array_remove a h w = Some (0, w1)" "log_wf w1" "slots a w ! i = Some h"
      "arrays w1 = array_put a i None w" "threads w1 = threads w" "user w1 = user w"
      "handles w1 = (handles w)(h := (handles w h)\<lparr>th_array := None\<rparr>)"
    using remove_found [OF wf ok assms(4)] by blast
  then have "th_array (handles w1 h) = None" by simp
  with w1 obtain w2 where "task_handle_destroy h w1 = Some w2" "log_wf w2" "arrays w2 = arrays w1"
      "threads w2 = threads w1" "user w2 = user w1" "handles w2 = (handles w1)(h := destroyed_handle (handles w1 h))"
    using task_handle_destroy_ok [OF w1(2), of h] by blast
  moreover from this have "task_handle_destroy h w = Some w2"
    using w1 assms(2) by (simp add: task_handle_destroy_def)
  ultimately show ?thesis using w1 by (auto simp: destroyed_handle_def)
qed

section \<open>The life of a handle\<close>

lemma task_handle_init_ok:
  assumes wf: "log_wf w"
  shows "\<exists>w'. task_handle_init ok err h name w = Some (if ok then 0 else - 1, w') \<and> log_wf w' \<and>
    arrays w' = arrays w \<and> threads w' = threads w \<and> user w' = user w \<and> (\<forall>k. k \<noteq> h \<longrightarrow> handles w' k = handles w k) \<and>
    handles w' h = \<lparr>th_thread = 0,
      th_done_fd = (if ok then Some \<lparr>efd_count = 0, efd_semaphore = False\<rparr> else None),
      th_state = TASK_STATE_INIT, th_name = name, th_on_stop = None, th_on_cleanup = None, th_array = None\<rparr>"
proof -
  let ?t = "\<lparr>th_thread = 0, th_done_fd = None, th_state = TASK_STATE_INIT, th_name = name,
     th_on_stop = None, th_on_cleanup = None, th_array = None\<rparr>"
  let ?w0 = "set_handle h ?t w"
  let ?w1 = "set_handle h (?t\<lparr>th_done_fd := Some \<lparr>efd_count = 0, efd_semaphore = False\<rparr>\<rparr>) w"
  obtain v0 v1 where "LOGE_ERRNO th_TAG (''eventfd failed for task '' @ quoted name @ '': '') err ?w0 = Some v0"
      "logged ?w0 v0" "LOGD th_TAG (''initialized handle for task '' @ quoted name) ?w1 = Some v1" "logged ?w1 v1"
    using LOG_ERRNO_wf(2) [of ?w0] LOG_wf(1) [of ?w1] wf by (metis world_log_simps(1))
  then show ?thesis
    by (cases ok) (auto simp: task_handle_init_def Let_def loggedD logged_world)
qed

lemma mark_done_ok:
  assumes wf: "log_wf w"
  shows "\<exists>w'. task_handle_mark_done h w = Some w' \<and> log_wf w' \<and> arrays w' = arrays w \<and> threads w' = threads w \<and> user w' = user w \<and>
    handles w' = (handles w)(h := (handles w h)\<lparr>th_state := TASK_STATE_STOPPED,
      th_done_fd := efd_signal (th_done_fd (handles w h))\<rparr>) \<and>
    (th_done_fd (handles w h) \<noteq> None \<longrightarrow> readable w' h)"
proof -
  let ?w1 = "set_handle h ((handles w h)\<lparr>th_state := TASK_STATE_STOPPED,
      th_done_fd := efd_signal (th_done_fd (handles w h))\<rparr>) w"
  obtain w2 where w2: "LOGD th_TAG (''task '' @ quoted (th_name (handles w h)) @ '' marked done'') ?w1 = Some w2"
      "logged ?w1 w2"
    using LOG_wf(1) [of ?w1] wf by auto
  have "efd_readable (efd_signal fd)" if fd: "fd \<noteq> None" for fd
  proof -
    obtain e where "fd = Some e" using fd by auto
    moreover obtain e' where "efd_signal (Some e) = Some e'"
      by (cases "efd_write 1 e") (auto simp: efd_signal_def)
    ultimately show ?thesis using efd_signal_readable by simp
  qed
  with w2 show ?thesis
    by (auto simp: task_handle_mark_done_def loggedD logged_world readable_def)
qed

section \<open>Properties\<close>

text \<open>
  A world for the examples: two handles, the array 0 of capacity 2 with the handle 1 in its second
  slot, whose thread 7 has ended and signalled.
\<close>

definition task_sample :: "unit world" where
  "task_sample = log_state.extend log_sample (world.fields
     (\<lambda>h. \<lparr>th_thread = 6 + h, th_done_fd = Some \<lparr>efd_count = of_bool (h = 1), efd_semaphore = False\<rparr>,
       th_state = TASK_STATE_RUNNING, th_name = ''t'', th_on_stop = None, th_on_cleanup = None,
       th_array = None\<rparr>)
     (\<lambda>a. \<lparr>ta_slots = Valid [None, Some 1], ta_capacity = 2, ta_lock = Mutex_Free\<rparr>)
     (\<lambda>t. if t = 7 then T_Exited else T_Running) ())"

lemma task_sample_simps:
  "log_wf task_sample" "array_ok a task_sample" "slots a task_sample = [None, Some 1]"
  "tasks a task_sample = [1]" "th_thread (handles task_sample h) = 6 + h"
  "readable task_sample h \<longleftrightarrow> h = 1" "threads task_sample t = (if t = 7 then T_Exited else T_Running)"
  using log_sample_wf
  by (simp_all add: task_sample_def log_wf_def array_ok_def slots_def tasks_def readable_def
      efd_readable_def log_state.defs world.defs List.map_filter_simps)

text \<open>
  C32: \<open>task_array_add\<close> and \<open>task_array_remove\<close> on a usable array and a handle that is not in it. With a
  free slot \<open>add\<close> returns 0, puts the handle into the first free slot and points it to the array;
  \<open>remove\<close> then returns 0 and restores the slots and clears the pointer; removing again returns -1 and
  changes neither. Without a free slot \<open>add\<close> returns -1 and changes neither array nor handles. The lock
  is free after each call.
\<close>
theorem task_array_add_remove:
  assumes "log_wf w" "array_ok a w" "Some h \<notin> set (slots a w)"
  shows "if None \<in> set (slots a w)
    then \<exists>i w1 w2 w3. task_array_add a h w = Some (0, w1) \<and> array_ok a w1 \<and>
      slots a w1 = (slots a w)[i := Some h] \<and> slots a w ! i = None \<and> (\<forall>k < i. slots a w ! k \<noteq> None) \<and>
      th_array (handles w1 h) = Some a \<and>
      task_array_remove a h w1 = Some (0, w2) \<and> arrays w2 = arrays w \<and>
      handles w2 = (handles w)(h := (handles w h)\<lparr>th_array := None\<rparr>) \<and>
      task_array_remove a h w2 = Some (- 1, w3) \<and> arrays w3 = arrays w \<and> handles w3 = handles w2
    else \<exists>w1. task_array_add a h w = Some (- 1, w1) \<and> arrays w1 = arrays w \<and> handles w1 = handles w"
proof (cases "None \<in> set (slots a w)")
  case False
  then show ?thesis using add_full [OF assms(1,2), of h] by auto
next
  case True
  let ?xs = "slots a w"
  obtain i w1 where w1: "task_array_add a h w = Some (0, w1)" "log_wf w1" "i < length ?xs" "?xs ! i = None"
      "\<forall>k < i. ?xs ! k \<noteq> None" "arrays w1 = array_put a i (Some h) w"
      "handles w1 = (handles w)(h := (handles w h)\<lparr>th_array := Some a\<rparr>)"
    using add_room [OF assms(1,2) True, of h] by blast
  have ok1: "array_ok a w1" and xs1: "slots a w1 = ?xs[i := Some h]"
    using assms(2) w1(3,6) by (auto elim!: array_okE simp: array_ok_def array_put_def slots_def)
  obtain j w2 where w2: "task_array_remove a h w1 = Some (0, w2)" "log_wf w2" "j < length (slots a w1)"
      "slots a w1 ! j = Some h" "arrays w2 = array_put a j None w1"
      "handles w2 = (handles w1)(h := (handles w1 h)\<lparr>th_array := None\<rparr>)"
    using remove_found [OF w1(2) ok1, of h] w1(3) xs1 by (auto simp: set_update_memI)
  have "j = i"
    using w2(3,4) xs1 assms(3) nth_mem [of j ?xs] by (cases "j = i") auto
  then have arr2: "arrays w2 = arrays w"
    using w2(5) w1 assms(2) xs1 array_put_undo by simp
  then have "array_ok a w2" "slots a w2 = ?xs"
    using assms(2) by (simp_all add: array_ok_def slots_def)
  then obtain w3 where w3: "task_array_remove a h w2 = Some (- 1, w3)" "arrays w3 = arrays w2" "handles w3 = handles w2"
    using remove_missing [OF w2(2), of a h] assms(3) by auto
  with True w1 w2(1,6) ok1 xs1 arr2 show ?thesis
    by (auto intro!: exI [of _ i])
qed

theorem task_array_add_remove_witness:
  "\<exists>w1 w2. task_array_add 0 5 task_sample = Some (0, w1) \<and> slots 0 w1 = [Some 5, Some 1] \<and>
     task_array_remove 0 5 w1 = Some (0, w2) \<and> slots 0 w2 = [None, Some 1]"
proof -
  obtain i w1 w2 where w: "task_array_add 0 5 task_sample = Some (0, w1)"
      "slots 0 w1 = [None, Some 1][i := Some 5]" "[None, Some (1::nat)] ! i = None"
      "\<forall>k < i. [None, Some (1::nat)] ! k \<noteq> None"
      "task_array_remove 0 5 w1 = Some (0, w2)" "arrays w2 = arrays task_sample"
    using task_array_add_remove [of task_sample 0 5] by (auto simp: task_sample_simps)
  have "i = 0" using w(4) by (cases i) auto
  with w task_sample_simps(3) [of 0] show ?thesis by (auto simp: slots_def)
qed

text \<open>
  \<open>task_array_join_all\<close> joins exactly the tasks whose done event is signalled and skips the others,
  when those tasks have ended and no two share a thread: it returns, the array, its lock and the handles
  are unchanged, and exactly those threads are joined.
\<close>
theorem task_array_join_all_joins_done:
  assumes "log_wf w" "array_ok a w" "distinct (map (\<lambda>h. th_thread (handles w h)) (tasks a w))"
    and "\<forall>h \<in> set (tasks a w). readable w h \<longrightarrow> threads w (th_thread (handles w h)) = T_Exited"
  shows "\<exists>w'. task_array_join_all a w = Some w' \<and> arrays w' = arrays w \<and> handles w' = handles w \<and>
    (\<forall>h \<in> set (tasks a w). threads w' (th_thread (handles w h)) =
      (if readable w h then T_Joined else threads w (th_thread (handles w h)))) \<and>
    (\<forall>t. t \<notin> threads_of (handles w) (tasks a w) \<longrightarrow> threads w' t = threads w t)"
proof -
  obtain w' where w': "task_array_join_all a w = Some w'" "arrays w' = arrays w" "handles w' = handles w"
      "threads w' = joined (threads_of (handles w) (filter (readable w) (tasks a w))) (threads w)"
    using join_all_ok [OF assms] by blast
  have "th_thread (handles w h) \<in> threads_of (handles w) (filter (readable w) (tasks a w)) \<longleftrightarrow> readable w h"
    if "h \<in> set (tasks a w)" for h
    using that assms(3) by (auto simp: threads_of_def distinct_map inj_on_def)
  with w' show ?thesis by (auto simp: joined_def threads_of_def)
qed

theorem task_array_join_all_joins_done_witness:
  "\<exists>w'. task_array_join_all 0 task_sample = Some w' \<and> threads w' 7 = T_Joined \<and> threads w' 6 = T_Running"
  using task_array_join_all_joins_done [of task_sample 0] by (auto simp: task_sample_simps threads_of_def)

text \<open>
  \<open>task_array_cancel_all\<close> sends a cancel request to every task of the array: with threads that were
  started and not joined it returns, the threads of these tasks that run are being cancelled, those that
  have ended stay ended, and nothing else changes.
\<close>
theorem task_array_cancel_all_cancels:
  assumes "log_wf w" "array_ok a w"
    and "\<forall>h \<in> set (tasks a w). threads w (th_thread (handles w h)) \<in> {T_Running, T_Cancelling, T_Exited}"
  shows "\<exists>w'. task_array_cancel_all a w = Some w' \<and> arrays w' = arrays w \<and> handles w' = handles w \<and>
    (\<forall>h \<in> set (tasks a w). threads w' (th_thread (handles w h)) =
      (if threads w (th_thread (handles w h)) = T_Exited then T_Exited else T_Cancelling)) \<and>
    (\<forall>t. t \<notin> threads_of (handles w) (tasks a w) \<longrightarrow> threads w' t = threads w t)"
proof -
  obtain w' where "task_array_cancel_all a w = Some w'" "arrays w' = arrays w" "handles w' = handles w"
      "threads w' = cancelled (threads_of (handles w) (tasks a w)) (threads w)"
    using cancel_all_ok [OF assms] by blast
  with assms(3) show ?thesis by (auto simp: cancelled_def threads_of_def)
qed

theorem task_array_cancel_all_cancels_witness:
  "\<exists>w'. task_array_cancel_all 0 task_sample = Some w' \<and> threads w' 7 = T_Exited \<and> threads w' 6 = T_Running"
  using task_array_cancel_all_cancels [of task_sample 0] by (auto simp: task_sample_simps threads_of_def)

text \<open>
  The result of \<open>task_array_poll_all\<close> on a usable array with tasks, for a \<open>poll\<close> that behaves as
  documented (it returns -1, or the number of readable entries). It changes nothing and returns -2 exactly
  when the signal descriptor is readable, else -1 exactly when nothing became readable in time, else 0
  when \<open>poll\<close> failed, and else the number of tasks whose done event is readable, which is at least 1 and
  can be less than the number of tasks.
\<close>
theorem task_array_poll_all_result:
  assumes "array_ok a w" "tasks a w \<noteq> []"
    and "malloc (length (poll_fds (tasks a w) sig_fd) * 8)"
    and "poll (poll_fds (tasks a w) sig_fd) timeout_ms = (ret, revents)"
    and "length revents = length (poll_fds (tasks a w) sig_fd)"
    and "ret = - 1 \<or> ret = int (length (filter id revents))"
  shows "task_array_poll_all malloc poll a sig_fd timeout_ms w = Some
    (if ret = - 1 then 0
     else if sig_fd \<ge> 0 \<and> last revents then - 2
     else if ret = 0 then - 1
     else int (length (filter id (take (length (tasks a w)) revents))), w) \<and>
   (ret > 0 \<and> \<not> (sig_fd \<ge> 0 \<and> last revents) \<longrightarrow>
     filter id (take (length (tasks a w)) revents) \<noteq> [])"
proof -
  let ?n = "length (tasks a w)"
  have len: "length revents = ?n + (if sig_fd \<ge> 0 then 1 else 0)"
    using assms(5) by (simp add: poll_fds_def)
  have ne: "revents \<noteq> []" using len assms(2) by auto
  have last: "sig_fd \<ge> 0 \<Longrightarrow> last revents = revents ! ?n"
    using len ne by (simp add: last_conv_nth)
  have all: "filter id revents = filter id (take ?n revents) @ (if sig_fd \<ge> 0 \<and> last revents then [True] else [])"
  proof (cases "sig_fd \<ge> 0")
    case True
    then have "revents = take ?n revents @ [last revents]"
      using len ne append_butlast_last_id [OF ne] by (simp add: butlast_conv_take)
    then have "filter id revents = filter id (take ?n revents) @ filter id [last revents]"
      by (metis filter_append)
    with True show ?thesis by simp
  next
    case False
    with len show ?thesis by simp
  qed
  have pos: "sig_fd \<ge> 0 \<and> last revents \<Longrightarrow> ret \<noteq> - 1 \<Longrightarrow> ret > 0"
    using all assms(6) by auto
  have "poll_result sig_fd ?n ret revents =
      (if ret = - 1 then 0 else if sig_fd \<ge> 0 \<and> last revents then - 2 else if ret = 0 then - 1
       else int (length (filter id (take ?n revents))))"
    using pos last assms(6) by (auto simp: poll_result_def Let_def)
  moreover have "ret > 0 \<and> \<not> (sig_fd \<ge> 0 \<and> last revents) \<longrightarrow> filter id (take ?n revents) \<noteq> []"
    using all assms(6) by auto
  ultimately show ?thesis using poll_all_ok [of a w malloc sig_fd poll timeout_ms ret revents] assms(1-4) by simp
qed

theorem task_array_poll_all_result_witness:
  "task_array_poll_all (\<lambda>n. True) (\<lambda>fds t. (1, [True, False])) 0 3 1000 task_sample = Some (1, task_sample)"
  using task_array_poll_all_result [of 0 task_sample "\<lambda>n. True" 3 "\<lambda>fds t. (1, [True, False])" 1000 1 "[True, False]"]
  by (simp add: task_sample_simps poll_fds_def)

text \<open>
  The life of a handle. \<open>task_handle_init\<close> returns 0 or, exactly when \<open>eventfd\<close> fails, -1; a new
  handle is in no array, in state \<open>INIT\<close>, and its done event is not readable;
  \<open>task_handle_mark_done\<close> makes it readable, with state \<open>STOPPED\<close>; \<open>task_handle_destroy\<close> closes the
  event. No other handle and no array changes.
\<close>
theorem task_handle_life:
  assumes "log_wf w"
  shows "\<exists>w1 w2 w3. task_handle_init ok err h name w = Some (if ok then 0 else - 1, w1) \<and>
    th_state (handles w1 h) = TASK_STATE_INIT \<and> th_array (handles w1 h) = None \<and> \<not> readable w1 h \<and>
    task_handle_mark_done h w1 = Some w2 \<and> th_state (handles w2 h) = TASK_STATE_STOPPED \<and>
    (readable w2 h \<longleftrightarrow> ok) \<and>
    task_handle_destroy h w2 = Some w3 \<and> th_done_fd (handles w3 h) = None \<and>
    (\<forall>k. k \<noteq> h \<longrightarrow> handles w3 k = handles w k) \<and> arrays w3 = arrays w \<and> threads w3 = threads w"
proof -
  obtain w1 where w1: "task_handle_init ok err h name w = Some (if ok then 0 else - 1, w1)" "log_wf w1"
      "arrays w1 = arrays w" "threads w1 = threads w" "\<forall>k. k \<noteq> h \<longrightarrow> handles w1 k = handles w k"
      "handles w1 h = \<lparr>th_thread = 0,
        th_done_fd = (if ok then Some \<lparr>efd_count = 0, efd_semaphore = False\<rparr> else None),
        th_state = TASK_STATE_INIT, th_name = name, th_on_stop = None, th_on_cleanup = None, th_array = None\<rparr>"
    using task_handle_init_ok [OF assms, of ok err h name] by blast
  obtain w2 where w2: "task_handle_mark_done h w1 = Some w2" "log_wf w2" "arrays w2 = arrays w1"
      "threads w2 = threads w1" "handles w2 = (handles w1)(h := (handles w1 h)\<lparr>th_state := TASK_STATE_STOPPED,
        th_done_fd := efd_signal (th_done_fd (handles w1 h))\<rparr>)"
      "th_done_fd (handles w1 h) \<noteq> None \<longrightarrow> readable w2 h"
    using mark_done_ok [OF w1(2)] by blast
  obtain w3 where w3: "task_handle_destroy h w2 = Some w3" "arrays w3 = arrays w2" "threads w3 = threads w2"
      "handles w3 = (handles w2)(h := destroyed_handle (handles w2 h))"
    using task_handle_destroy_ok [OF w2(2), of h] w1(6) w2(5) by auto
  have "\<not> readable w1 h" "readable w2 h \<longleftrightarrow> ok"
    using w1(6) w2(5,6) by (auto simp: readable_def efd_readable_def efd_signal_def)
  with w1 w2 w3 show ?thesis by (auto simp: destroyed_handle_def)
qed

theorem task_handle_life_witness:
  "\<exists>w1. task_handle_init True '''' 3 ''stdin'' task_sample = Some (0, w1) \<and> \<not> readable w1 3"
  using task_handle_life [of task_sample True "''''" 3 "''stdin''"] by (auto simp: task_sample_simps)

end
