(* ===== verification/Stdin_Task.thy ===== *)
theory Stdin_Task
  imports Task_Helper
begin

text \<open>
  \<open>rtsystem/src/tasks/stdin_task.c\<close>: start of the task that reads lines from standard input, its
  thread, and its cleanup callback. The world's task variables are the record \<open>rt_vars\<close>; the task's
  handle is handle 0 and \<open>g_stdin_tasks\<close> is array 0. What \<open>poll\<close> and \<open>read\<close> answer is input of the
  thread.
\<close>

section \<open>Variables and results\<close>

text \<open>
  \<open>line\<close> is null or points to its block, because the code never leaves it dangling; a byte is \<open>None\<close>
  until it is written. \<open>g_running\<close> and \<open>g_sigint_count\<close> are variables of \<open>main.c\<close>, which
  also opens and closes the signal descriptor and writes to \<open>stdout\<close>.
\<close>

record rt_vars =
  g_running :: bool
  g_sigint_count :: int
  line :: "char option list option"
  buf_size_arg :: size_t
  sig_fd_open :: bool
  rt_stdout :: "string list"

type_synonym rt_world = "rt_vars world"

definition stdin_TAG :: string where "stdin_TAG = ''stdin_task''"

definition g_stdin_tasks :: nat where "g_stdin_tasks = 0"
definition stdin_handle :: nat where "stdin_handle = 0"

definition put_line :: "char option list option \<Rightarrow> rt_world \<Rightarrow> rt_world" where
  "put_line l w = w\<lparr>user := (user w)\<lparr>line := l\<rparr>\<rparr>"

section \<open>Cleanup\<close>

definition stdin_cleanup :: "nat \<Rightarrow> rt_world \<Rightarrow> rt_world option" where
  "stdin_cleanup self w = (case line (user w) of
     None \<Rightarrow> Some w
   | Some b \<Rightarrow> LOGD stdin_TAG ''freed input buffer'' (put_line None w))"

text \<open>The program has one callback, \<open>stdin_cleanup\<close>; every callback number stands for it.\<close>

definition rt_callback :: "nat \<Rightarrow> nat \<Rightarrow> rt_world \<Rightarrow> rt_world option" where
  "rt_callback c = stdin_cleanup"

definition rt_effect :: "nat \<Rightarrow> rt_vars \<Rightarrow> rt_vars" where
  "rt_effect c u = u\<lparr>line := None\<rparr>"

lemma put_line_simps [simp]:
  "log_wf (put_line l w) = log_wf w" "handles (put_line l w) = handles w" "arrays (put_line l w) = arrays w"
  "threads (put_line l w) = threads w" "user (put_line l w) = (user w)\<lparr>line := l\<rparr>"
  by (simp_all add: put_line_def log_wf_def)

interpretation rt: task_callbacks rt_callback rt_effect
proof
  fix w :: rt_world and c h
  assume wf: "log_wf w"
  have id: "handles v = set_state h (th_state (handles w h)) (handles w)" if "handles v = handles w"
    for v :: rt_world
    using that by (simp add: set_state_def)
  obtain w1 where "LOGD stdin_TAG ''freed input buffer'' (put_line None w) = Some w1" "logged (put_line None w) w1"
    using LOG_wf(1) [of "put_line None w"] wf by auto
  with wf id show "\<exists>w' st. rt_callback c h w = Some w' \<and> log_wf w' \<and> arrays w' = arrays w \<and>
      threads w' = threads w \<and> user w' = rt_effect c (user w) \<and> handles w' = set_state h st (handles w)"
    by (cases "line (user w)")
      (auto simp: rt_callback_def rt_effect_def stdin_cleanup_def loggedD logged_world)
qed

section \<open>Starting the task\<close>

text \<open>The answers of the operating system, and the number of the new thread.\<close>

record stdin_env =
  se_calloc :: "nat \<Rightarrow> bool"
  se_eventfd :: bool
  se_malloc :: "nat \<Rightarrow> bool"
  se_create :: "int option \<Rightarrow> int"
  se_thread :: nat
  se_errno :: string

definition stdin_task_init :: "stdin_env \<Rightarrow> size_t \<Rightarrow> int \<Rightarrow> rt_world \<Rightarrow> (int \<times> rt_world) option" where
  "stdin_task_init env buf_size priority w = do {
     (r, w1) \<leftarrow> task_array_init (se_calloc env) g_stdin_tasks 1 w;
     if r \<noteq> 0
     then do { w2 \<leftarrow> LOGE stdin_TAG ''failed to initialize task array'' w1; Some (- 1, w2) }
     else do {
       (r, w2) \<leftarrow> task_handle_init (se_eventfd env) (se_errno env) stdin_handle ''stdin'' w1;
       if r \<noteq> 0
       then do {
         w3 \<leftarrow> LOGE stdin_TAG ''failed to initialize task handle'' w2;
         w4 \<leftarrow> task_array_destroy g_stdin_tasks w3;
         Some (- 1, w4)
       }
       else do {
         (r, w4) \<leftarrow> task_array_add g_stdin_tasks stdin_handle
           (set_handle stdin_handle ((handles w2 stdin_handle)\<lparr>th_on_cleanup := Some 0\<rparr>) w2);
         if r \<noteq> 0
         then do {
           w5 \<leftarrow> LOGE stdin_TAG ''stdin task already exists'' w4;
           w6 \<leftarrow> task_handle_destroy stdin_handle w5;
           w7 \<leftarrow> task_array_destroy g_stdin_tasks w6;
           Some (- 1, w7)
         }
         else if \<not> se_malloc env (unat buf_size)
         then do {
           w5 \<leftarrow> LOGE stdin_TAG (''malloc failed for buffer of size '' @ show_nat (unat buf_size)) (put_line None w4);
           w6 \<leftarrow> task_handle_destroy stdin_handle w5;
           w7 \<leftarrow> task_array_destroy g_stdin_tasks w6;
           Some (- 1, w7)
         }
         else
           let w5 = (put_line (Some (replicate (unat buf_size) None)) w4);
               w6 = w5\<lparr>user := (user w5)\<lparr>buf_size_arg := buf_size\<rparr>\<rparr> in
           if se_create env (sched_attr priority) \<noteq> 0
           then do {
             w7 \<leftarrow> LOGE_ERRNO stdin_TAG ''pthread_create failed: '' (se_errno env) w6;
             w8 \<leftarrow> task_handle_destroy stdin_handle (put_line None w7);
             w9 \<leftarrow> task_array_destroy g_stdin_tasks w8;
             Some (- 1, w9)
           }
           else Some (0, (set_handle stdin_handle ((handles w6 stdin_handle)\<lparr>th_thread := se_thread env\<rparr>) w6)
             \<lparr>threads := (threads w6)(se_thread env := T_Running)\<rparr>)
       }
     }
   }"

section \<open>The thread\<close>

text \<open>
  What \<open>read\<close> on standard input answers: an error, the end of the input, or some bytes (at least one and
  at most the number asked for). A list of answers is what the thread will read; at its end a read waits.
\<close>

datatype read_answer = Read_Error string | Read_Eof | Read_Data string

text \<open>The outcome of a piece of the thread: it goes on, a read waits for input, or it is undefined.\<close>

datatype 'a progress = Goes 'a | Waits | Fails

definition nl :: char where "nl = CHR 0x0A"

text \<open>The inner loop that flushes the rest of a long line in chunks of 64 bytes.\<close>

fun stdin_flush :: "read_answer list \<Rightarrow> read_answer list progress" where
  "stdin_flush [] = Waits"
| "stdin_flush (Read_Error e # rs) = Goes rs"
| "stdin_flush (Read_Eof # rs) = Goes rs"
| "stdin_flush (Read_Data d # rs) = (if nl \<in> set d then Goes rs else stdin_flush rs)"

text \<open>
  One round of the loop with the answer of \<open>poll\<close> (\<open>Poll_Timeout\<close>: no \<open>POLLIN\<close>). The number of bytes
  asked for, \<open>line_buf_size - 1\<close>, wraps around for the size 0.
\<close>

definition check_overflow :: "size_t \<Rightarrow> string \<Rightarrow> read_answer list \<Rightarrow> rt_world \<Rightarrow> (read_answer list \<times> rt_world) progress" where
  "check_overflow line_buf_size d rs w =
     (if length d = unat (line_buf_size - 1) \<and> last d \<noteq> nl
      then (case LOGW stdin_TAG (''input >= '' @ show_nat (unat (line_buf_size - 1)) @
              '' bytes, flushing rest of data'') w of
          None \<Rightarrow> Fails
        | Some w1 \<Rightarrow> (case stdin_flush rs of Goes rs1 \<Rightarrow> Goes (rs1, w1) | Waits \<Rightarrow> Waits | Fails \<Rightarrow> Fails))
      else Goes (rs, w))"

definition log_input :: "string \<Rightarrow> rt_world \<Rightarrow> rt_world progress" where
  "log_input d w =
     (case line (user w) of
        None \<Rightarrow> Fails
      | Some b \<Rightarrow>
          let strip = (last d = nl);
              b1 = (if strip then b[length d - 1 := Some (CHR 0x00)] else b);
              n = (if strip then length d - 1 else length d);
              w1 = put_line (Some b1) w in
          if n = 0 then Goes w1
          else case Option.bind (c_string b1) (\<lambda>s. LOGD stdin_TAG (''input received: '' @ s) w1) of
              None \<Rightarrow> Fails
            | Some w2 \<Rightarrow> Goes w2)"

definition stdin_store :: "size_t \<Rightarrow> string \<Rightarrow> read_answer list \<Rightarrow> rt_world \<Rightarrow> (read_answer list \<times> rt_world) progress" where
  "stdin_store line_buf_size d rs w =
     (case Option.bind (line (user w)) (\<lambda>b. Option.bind (write_bytes 0 d b) (write_bytes (length d) [CHR 0x00])) of
        None \<Rightarrow> Fails
      | Some b \<Rightarrow> (case check_overflow line_buf_size d rs (put_line (Some b) w) of
            Fails \<Rightarrow> Fails
          | Waits \<Rightarrow> Waits
          | Goes (rs1, w1) \<Rightarrow> (case log_input d w1 of
                Fails \<Rightarrow> Fails | Waits \<Rightarrow> Waits | Goes w2 \<Rightarrow> Goes (rs1, w2))))"

definition stdin_round :: "size_t \<Rightarrow> poll_answer \<Rightarrow> read_answer list \<Rightarrow> rt_world \<Rightarrow> (read_answer list \<times> rt_world) progress" where
  "stdin_round line_buf_size answer rs w =
     (case answer of
        Poll_Error err \<Rightarrow> (case LOGW_ERRNO stdin_TAG ''could not poll STDIN: '' err w of
            None \<Rightarrow> Fails | Some w1 \<Rightarrow> Goes (rs, w1))
      | Poll_Timeout \<Rightarrow> Goes (rs, w)
      | Poll_Ready \<Rightarrow> (case rs of
            [] \<Rightarrow> Waits
          | Read_Error err # rs1 \<Rightarrow> (case LOGW_ERRNO stdin_TAG ''failed to read input: '' err w of
                None \<Rightarrow> Fails | Some w1 \<Rightarrow> Goes (rs1, w1))
          | Read_Eof # rs1 \<Rightarrow> Goes (rs1, w)
          | Read_Data d # rs1 \<Rightarrow> stdin_store line_buf_size d rs1 w))"

definition stdin_running :: "rt_world \<Rightarrow> bool" where
  "stdin_running w \<longleftrightarrow> g_running (user w) \<and> th_state (handles w stdin_handle) = TASK_STATE_RUNNING"

definition stdin_begin :: "rt_world \<Rightarrow> rt_world option" where
  "stdin_begin w = LOGD stdin_TAG ''ready for input...''
     (set_handle stdin_handle ((handles w stdin_handle)\<lparr>th_state := TASK_STATE_RUNNING\<rparr>) w)"

definition stdin_end :: "rt_world \<Rightarrow> rt_world option" where
  "stdin_end w = do {
     w1 \<leftarrow> LOGD stdin_TAG ''exiting...'' w;
     w2 \<leftarrow> task_handle_mark_done stdin_handle w1;
     Some (w2\<lparr>threads := (threads w2)(th_thread (handles w2 stdin_handle) := T_Exited)\<rparr>)
   }"

text \<open>
  The loop, with the answers of \<open>poll\<close> as a list: it ends when the flag or the state says so, and when
  the answers are used up the thread is still at its \<open>poll\<close>, with \<open>False\<close>.
\<close>

fun stdin_loop :: "size_t \<Rightarrow> poll_answer list \<Rightarrow> read_answer list \<Rightarrow> rt_world
    \<Rightarrow> (bool \<times> read_answer list \<times> rt_world) progress" where
  "stdin_loop line_buf_size polls rs w =
     (if \<not> stdin_running w
      then (case stdin_end w of None \<Rightarrow> Fails | Some w1 \<Rightarrow> Goes (True, rs, w1))
      else (case polls of
          [] \<Rightarrow> Goes (False, rs, w)
        | p # ps \<Rightarrow> (case stdin_round line_buf_size p rs w of
              Fails \<Rightarrow> Fails | Waits \<Rightarrow> Waits | Goes (rs1, w1) \<Rightarrow> stdin_loop line_buf_size ps rs1 w1)))"

declare stdin_loop.simps [simp del]

definition stdin_task :: "poll_answer list \<Rightarrow> read_answer list \<Rightarrow> rt_world \<Rightarrow> (bool \<times> read_answer list \<times> rt_world) progress" where
  "stdin_task polls rs w =
     (let line_buf_size = buf_size_arg (user w) in
      case stdin_begin w of None \<Rightarrow> Fails | Some w1 \<Rightarrow> stdin_loop line_buf_size polls rs w1)"

lemma logged_user:
  assumes "logged w w'"
  shows "logged (w\<lparr>user := u\<rparr>) (w'\<lparr>user := u\<rparr>)"
proof -
  obtain q e where qe: "w' = w\<lparr>g_log_queue := q, stderr := e\<rparr>" "log_wf w'"
    using assms by (auto simp: logged_def)
  then have "w'\<lparr>user := u\<rparr> = w\<lparr>user := u\<rparr>\<lparr>g_log_queue := q, stderr := e\<rparr>"
    by (intro world.equality) simp_all
  moreover have "log_wf (w'\<lparr>user := u\<rparr>)" using qe(2) by (simp add: log_wf_def)
  moreover have "log_capacity (w'\<lparr>user := u\<rparr>) = log_capacity (w\<lparr>user := u\<rparr>)"
    using assms by (simp add: logged_def log_capacity_def)
  ultimately show ?thesis unfolding logged_def by blast
qed

section \<open>Starting: what is left behind\<close>

definition stdin_started :: "stdin_env \<Rightarrow> size_t \<Rightarrow> rt_world \<Rightarrow> rt_world \<Rightarrow> bool" where
  "stdin_started env buf_size w w' \<longleftrightarrow> log_wf w' \<and>
     arrays w' = (arrays w)(g_stdin_tasks := \<lparr>ta_slots = Valid [Some stdin_handle], ta_capacity = 1, ta_lock = Mutex_Free\<rparr>) \<and>
     handles w' = (handles w)(stdin_handle := \<lparr>th_thread = se_thread env,
       th_done_fd = Some \<lparr>efd_count = 0, efd_semaphore = False\<rparr>, th_state = TASK_STATE_INIT, th_name = ''stdin'',
       th_on_stop = None, th_on_cleanup = Some 0, th_array = Some g_stdin_tasks\<rparr>) \<and>
     threads w' = (threads w)(se_thread env := T_Running) \<and>
     user w' = (user w)\<lparr>line := Some (replicate (unat buf_size) None), buf_size_arg := buf_size\<rparr>"

definition stdin_not_started :: "stdin_env \<Rightarrow> rt_world \<Rightarrow> rt_world \<Rightarrow> bool" where
  "stdin_not_started env w w' \<longleftrightarrow> log_wf w' \<and> threads w' = threads w \<and>
     ta_slots (arrays w' g_stdin_tasks) = Null \<and>
     (\<forall>a. a \<noteq> g_stdin_tasks \<longrightarrow> arrays w' a = arrays w a) \<and>
     (\<forall>h. h \<noteq> stdin_handle \<longrightarrow> handles w' h = handles w h) \<and>
     (se_calloc env 8 \<longrightarrow> arrays w' g_stdin_tasks = dead_array \<and> th_done_fd (handles w' stdin_handle) = None) \<and>
     (\<not> se_calloc env 8 \<longrightarrow> handles w' = handles w \<and>
       ta_lock (arrays w' g_stdin_tasks) = ta_lock (arrays w g_stdin_tasks)) \<and>
     (line (user w') = line (user w) \<or> line (user w') = None)"

text \<open>The world after the array and the handle are made and the handle is added.\<close>

definition stdin_registered :: "rt_world \<Rightarrow> rt_world \<Rightarrow> bool" where
  "stdin_registered w w4 \<longleftrightarrow> log_wf w4 \<and> threads w4 = threads w \<and> user w4 = user w \<and>
     arrays w4 = (arrays w)(g_stdin_tasks := \<lparr>ta_slots = Valid [Some stdin_handle], ta_capacity = 1, ta_lock = Mutex_Free\<rparr>) \<and>
     handles w4 = (handles w)(stdin_handle := \<lparr>th_thread = 0,
       th_done_fd = Some \<lparr>efd_count = 0, efd_semaphore = False\<rparr>, th_state = TASK_STATE_INIT, th_name = ''stdin'',
       th_on_stop = None, th_on_cleanup = Some 0, th_array = Some g_stdin_tasks\<rparr>)"

lemma stdin_register:
  assumes wf: "log_wf w" and mem: "se_calloc env 8" and "se_eventfd env"
  shows "\<exists>w1 w2 w4. task_array_init (se_calloc env) g_stdin_tasks 1 w = Some (0, w1) \<and>
    task_handle_init (se_eventfd env) (se_errno env) stdin_handle ''stdin'' w1 = Some (0, w2) \<and>
    task_array_add g_stdin_tasks stdin_handle
      (set_handle stdin_handle ((handles w2 stdin_handle)\<lparr>th_on_cleanup := Some 0\<rparr>) w2) = Some (0, w4) \<and>
    stdin_registered w w4"
proof -
  obtain w1 where w1: "task_array_init (se_calloc env) g_stdin_tasks 1 w = Some (0, w1)" "log_wf w1"
      "handles w1 = handles w" "threads w1 = threads w" "user w1 = user w"
      "arrays w1 = (arrays w)(g_stdin_tasks := \<lparr>ta_slots = Valid [None], ta_capacity = 1, ta_lock = Mutex_Free\<rparr>)"
    using task_array_init_ok [OF wf, of 1 "se_calloc env" g_stdin_tasks] mem by auto
  obtain w2 where w2: "task_handle_init (se_eventfd env) (se_errno env) stdin_handle ''stdin'' w1 = Some (0, w2)"
      "log_wf w2" "arrays w2 = arrays w1" "threads w2 = threads w1" "user w2 = user w1"
      "\<forall>k. k \<noteq> stdin_handle \<longrightarrow> handles w2 k = handles w1 k"
      "handles w2 stdin_handle = \<lparr>th_thread = 0, th_done_fd = Some \<lparr>efd_count = 0, efd_semaphore = False\<rparr>,
        th_state = TASK_STATE_INIT, th_name = ''stdin'', th_on_stop = None, th_on_cleanup = None, th_array = None\<rparr>"
    using task_handle_init_ok [OF w1(2), of "se_eventfd env" "se_errno env" stdin_handle "''stdin''"] assms(3)
    by auto
  let ?w3 = "set_handle stdin_handle ((handles w2 stdin_handle)\<lparr>th_on_cleanup := Some 0\<rparr>) w2"
  have w3: "log_wf ?w3" "array_ok g_stdin_tasks ?w3" "slots g_stdin_tasks ?w3 = [None]"
    using w1 w2 by (simp_all add: array_ok_def slots_def)
  then obtain i w4 where w4: "task_array_add g_stdin_tasks stdin_handle ?w3 = Some (0, w4)" "log_wf w4" "i = 0"
      "arrays w4 = array_put g_stdin_tasks i (Some stdin_handle) ?w3" "threads w4 = threads ?w3" "user w4 = user ?w3"
      "handles w4 = (handles ?w3)(stdin_handle := (handles ?w3 stdin_handle)\<lparr>th_array := Some g_stdin_tasks\<rparr>)"
    using add_room [OF w3(1,2), of stdin_handle] by auto
  have "handles w4 = (handles w)(stdin_handle := \<lparr>th_thread = 0,
       th_done_fd = Some \<lparr>efd_count = 0, efd_semaphore = False\<rparr>, th_state = TASK_STATE_INIT, th_name = ''stdin'',
       th_on_stop = None, th_on_cleanup = Some 0, th_array = Some g_stdin_tasks\<rparr>)"
    using w1 w2 w4 by (auto simp: fun_eq_iff)
  with w1 w2 w3 w4 show ?thesis
    by (auto simp: stdin_registered_def array_put_def)
qed

lemma stdin_unregister:
  assumes "stdin_registered w w4" "logged (put_line l w4) w5"
  shows "\<exists>w6 w7. task_handle_destroy stdin_handle w5 = Some w6 \<and> task_array_destroy g_stdin_tasks w6 = Some w7 \<and>
    log_wf w7 \<and> threads w7 = threads w \<and> line (user w7) = l \<and>
    arrays w7 = (arrays w)(g_stdin_tasks := dead_array) \<and>
    handles w7 = (handles w)(stdin_handle := destroyed_handle (handles w4 stdin_handle))"
proof -
  have w5: "log_wf w5" "arrays w5 = arrays w4" "handles w5 = handles w4" "threads w5 = threads w4"
      "line (user w5) = l"
    using assms(2) by (simp_all add: loggedD logged_world)
  have reg: "th_array (handles w5 stdin_handle) = Some g_stdin_tasks" "array_ok g_stdin_tasks w5"
      "slots g_stdin_tasks w5 = [Some stdin_handle]"
    using assms(1) w5 by (simp_all add: stdin_registered_def array_ok_def slots_def)
  then obtain i w6 where w6: "task_handle_destroy stdin_handle w5 = Some w6" "log_wf w6" "threads w6 = threads w5"
      "user w6 = user w5" "arrays w6 = array_put g_stdin_tasks i None w5"
      "handles w6 = (handles w5)(stdin_handle := destroyed_handle (handles w5 stdin_handle))"
    using task_handle_destroy_registered [OF w5(1) reg(1,2)] by auto
  then have "ta_lock (arrays w6 g_stdin_tasks) = Mutex_Free" "ta_slots (arrays w6 g_stdin_tasks) \<noteq> Dangling"
    using reg(2) by (auto simp: array_put_def elim: array_okE)
  then obtain w7 where "task_array_destroy g_stdin_tasks w6 = Some w7" "log_wf w7" "handles w7 = handles w6"
      "threads w7 = threads w6" "user w7 = user w6" "arrays w7 = (arrays w6)(g_stdin_tasks := dead_array)"
    using task_array_destroy_ok [OF w6(2)] by blast
  with w6 w5 assms(1) show ?thesis
    by (simp add: stdin_registered_def array_put_def fun_eq_iff)
qed

lemma stdin_init_ok:
  assumes wf: "log_wf w" and ok: "se_calloc env 8" "se_eventfd env" "se_malloc env (unat buf_size)"
    and create: "se_create env (sched_attr priority) = 0"
  shows "\<exists>w'. stdin_task_init env buf_size priority w = Some (0, w') \<and> stdin_started env buf_size w w'"
proof -
  obtain w1 w2 w4 where reg: "task_array_init (se_calloc env) g_stdin_tasks 1 w = Some (0, w1)"
      "task_handle_init (se_eventfd env) (se_errno env) stdin_handle ''stdin'' w1 = Some (0, w2)"
      "task_array_add g_stdin_tasks stdin_handle
        (set_handle stdin_handle ((handles w2 stdin_handle)\<lparr>th_on_cleanup := Some 0\<rparr>) w2) = Some (0, w4)"
      "stdin_registered w w4"
    using stdin_register [OF wf ok(1,2)] by blast
  with ok create show ?thesis
    by (auto simp: stdin_task_init_def stdin_started_def stdin_registered_def Let_def fun_eq_iff
        log_wf_def set_handle_def put_line_def)
qed

lemma stdin_init_fails_early:
  assumes wf: "log_wf w" and no: "\<not> (se_calloc env 8 \<and> se_eventfd env)"
  shows "\<exists>w'. stdin_task_init env buf_size priority w = Some (- 1, w') \<and> stdin_not_started env w w'"
proof (cases "se_calloc env 8")
  case False
  obtain w1 where w1: "task_array_init (se_calloc env) g_stdin_tasks 1 w = Some (- 1, w1)" "log_wf w1"
      "handles w1 = handles w" "threads w1 = threads w" "user w1 = user w"
      "arrays w1 = (arrays w)(g_stdin_tasks := (arrays w g_stdin_tasks)\<lparr>ta_slots := Null\<rparr>)"
    using task_array_init_fails [OF wf, of 1 "se_calloc env" g_stdin_tasks] False by auto
  obtain w2 where "LOGE stdin_TAG ''failed to initialize task array'' w1 = Some w2" "logged w1 w2"
    using LOG_wf(3) [OF w1(2)] by blast
  with w1 False show ?thesis
    by (simp add: stdin_task_init_def stdin_not_started_def loggedD logged_world)
next
  case True
  with no have efd: "\<not> se_eventfd env" by simp
  obtain w1 where w1: "task_array_init (se_calloc env) g_stdin_tasks 1 w = Some (0, w1)" "log_wf w1"
      "handles w1 = handles w" "threads w1 = threads w" "user w1 = user w"
      "arrays w1 = (arrays w)(g_stdin_tasks := \<lparr>ta_slots = Valid [None], ta_capacity = 1, ta_lock = Mutex_Free\<rparr>)"
    using task_array_init_ok [OF wf, of 1 "se_calloc env" g_stdin_tasks] True by auto
  obtain w2 where w2: "task_handle_init (se_eventfd env) (se_errno env) stdin_handle ''stdin'' w1 = Some (- 1, w2)"
      "log_wf w2" "arrays w2 = arrays w1" "threads w2 = threads w1" "user w2 = user w1"
      "\<forall>k. k \<noteq> stdin_handle \<longrightarrow> handles w2 k = handles w1 k" "th_done_fd (handles w2 stdin_handle) = None"
    using task_handle_init_ok [OF w1(2), of "se_eventfd env" "se_errno env" stdin_handle "''stdin''"] efd
    by auto
  obtain w3 where w3: "LOGE stdin_TAG ''failed to initialize task handle'' w2 = Some w3" "logged w2 w3"
    using LOG_wf(3) [OF w2(2)] by blast
  then have "ta_lock (arrays w3 g_stdin_tasks) = Mutex_Free" "ta_slots (arrays w3 g_stdin_tasks) \<noteq> Dangling"
    using w1 w2 by (simp_all add: logged_world)
  then obtain w4 where "task_array_destroy g_stdin_tasks w3 = Some w4" "log_wf w4" "handles w4 = handles w3"
      "threads w4 = threads w3" "user w4 = user w3" "arrays w4 = (arrays w3)(g_stdin_tasks := dead_array)"
    using task_array_destroy_ok [OF loggedD [OF w3(2)]] by blast
  with True w1 w2 w3 show ?thesis
    by (simp add: stdin_task_init_def stdin_not_started_def logged_world dead_array_def)
qed

lemma stdin_init_fails_late:
  assumes wf: "log_wf w" and ok: "se_calloc env 8" "se_eventfd env"
    and no: "\<not> (se_malloc env (unat buf_size) \<and> se_create env (sched_attr priority) = 0)"
  shows "\<exists>w'. stdin_task_init env buf_size priority w = Some (- 1, w') \<and> stdin_not_started env w w'"
proof -
  obtain w1 w2 w4 where reg: "task_array_init (se_calloc env) g_stdin_tasks 1 w = Some (0, w1)"
      "task_handle_init (se_eventfd env) (se_errno env) stdin_handle ''stdin'' w1 = Some (0, w2)"
      "task_array_add g_stdin_tasks stdin_handle
        (set_handle stdin_handle ((handles w2 stdin_handle)\<lparr>th_on_cleanup := Some 0\<rparr>) w2) = Some (0, w4)"
    and w4: "stdin_registered w w4"
    using stdin_register [OF wf ok] by blast
  have wf4: "log_wf w4" using w4 by (simp add: stdin_registered_def)
  have left: "stdin_not_started env w w7" if "log_wf w7" "threads w7 = threads w" "line (user w7) = None"
      "arrays w7 = (arrays w)(g_stdin_tasks := dead_array)"
      "handles w7 = (handles w)(stdin_handle := destroyed_handle (handles w4 stdin_handle))" for w7
    using that ok(1) by (simp add: stdin_not_started_def dead_array_def destroyed_handle_def)
  show ?thesis
  proof (cases "se_malloc env (unat buf_size)")
    case False
    obtain w5 where w5: "LOGE stdin_TAG (''malloc failed for buffer of size '' @ show_nat (unat buf_size)) (put_line None w4) = Some w5"
        "logged (put_line None w4) w5"
      using LOG_wf(3) [of "put_line None w4"] wf4 by auto
    from stdin_unregister [OF w4 w5(2)] obtain w6 w7 where
      "task_handle_destroy stdin_handle w5 = Some w6" "task_array_destroy g_stdin_tasks w6 = Some w7"
      "stdin_not_started env w w7" using left by blast
    with False reg w5(1) show ?thesis by (simp add: stdin_task_init_def)
  next
    case True
    with no have create: "se_create env (sched_attr priority) \<noteq> 0" by simp
    let ?w5 = "put_line (Some (replicate (unat buf_size) None)) w4"
    let ?w6 = "?w5\<lparr>user := (user ?w5)\<lparr>buf_size_arg := buf_size\<rparr>\<rparr>"
    let ?v4 = "w4\<lparr>user := (user w4)\<lparr>buf_size_arg := buf_size\<rparr>\<rparr>"
    have "log_wf ?w6" using wf4 by (simp add: log_wf_def put_line_def)
    then obtain w7 where w7: "LOGE_ERRNO stdin_TAG ''pthread_create failed: '' (se_errno env) ?w6 = Some w7" "logged ?w6 w7"
      using LOG_ERRNO_wf(2) by blast
    let ?w = "w\<lparr>user := (user w)\<lparr>buf_size_arg := buf_size\<rparr>\<rparr>"
    have v4: "stdin_registered ?w ?v4"
      using w4 by (simp add: stdin_registered_def log_wf_def)
    have "logged (put_line None ?v4) (put_line None w7)"
      using logged_user [OF w7(2), of "(user w4)\<lparr>buf_size_arg := buf_size, line := None\<rparr>"] w7(2)
      by (simp add: put_line_def logged_world)
    from stdin_unregister [OF v4 this] obtain w8 w9 where
      "task_handle_destroy stdin_handle (put_line None w7) = Some w8" "task_array_destroy g_stdin_tasks w8 = Some w9"
      "stdin_not_started env w w9" using left by auto
    with True create reg w7(1) show ?thesis by (simp add: stdin_task_init_def Let_def)
  qed
qed

text \<open>
  C30: \<open>stdin_task_init\<close> with a running logger never runs into undefined behaviour, and returns 0 exactly
  when both allocations, \<open>eventfd\<close> and \<open>pthread_create\<close> succeed; then the array of capacity 1 holds the
  handle and the thread runs. Else it returns -1, no thread was started, and the array and the handle are
  destroyed again.
\<close>
theorem stdin_task_init_result:
  assumes "log_wf w"
  shows "if se_calloc env 8 \<and> se_eventfd env \<and> se_malloc env (unat buf_size) \<and> se_create env (sched_attr priority) = 0
    then \<exists>w'. stdin_task_init env buf_size priority w = Some (0, w') \<and> stdin_started env buf_size w w'
    else \<exists>w'. stdin_task_init env buf_size priority w = Some (- 1, w') \<and> stdin_not_started env w w'"
  using stdin_init_ok [OF assms] stdin_init_fails_early [OF assms] stdin_init_fails_late [OF assms]
  by (simp del: One_nat_def) blast

definition rt_sample :: rt_world where
  "rt_sample = log_state.extend log_sample (world.fields
     (\<lambda>h. \<lparr>th_thread = 0, th_done_fd = None, th_state = TASK_STATE_INIT, th_name = '''', th_on_stop = None,
        th_on_cleanup = None, th_array = None\<rparr>)
     (\<lambda>a. dead_array) (\<lambda>t. T_None)
     \<lparr>g_running = True, g_sigint_count = 0, line = None, buf_size_arg = 0,
      sig_fd_open = True, rt_stdout = []\<rparr>)"

definition rt_env :: stdin_env where
  "rt_env = \<lparr>se_calloc = \<lambda>n. True, se_eventfd = True, se_malloc = \<lambda>n. n < 1000, se_create = \<lambda>p. 0,
     se_thread = 5, se_errno = ''''\<rparr>"

lemma rt_sample_wf: "log_wf rt_sample"
  using log_sample_wf by (simp add: rt_sample_def log_wf_def log_state.defs)

theorem stdin_task_init_result_witness:
  "\<exists>w'. stdin_task_init rt_env 256 12 rt_sample = Some (0, w') \<and> threads w' 5 = T_Running"
  using stdin_task_init_result [OF rt_sample_wf, of rt_env 256 12]
  by (auto simp: rt_env_def stdin_started_def)

text \<open>
  A comment says that adding the handle fails when \<open>stdin_task_init\<close> is called twice, because the
  array has capacity 1. It does not: the second call makes a new array and a new handle, so it succeeds
  too, and starts a second thread on the same handle.
\<close>
theorem stdin_task_init_twice:
  "\<exists>w1 w2. stdin_task_init rt_env 256 12 rt_sample = Some (0, w1) \<and> threads w1 5 = T_Running \<and>
     stdin_task_init (rt_env\<lparr>se_thread := 6\<rparr>) 256 12 w1 = Some (0, w2) \<and>
     threads w2 5 = T_Running \<and> threads w2 6 = T_Running \<and> slots g_stdin_tasks w2 = [Some stdin_handle]"
proof -
  obtain w1 where w1: "stdin_task_init rt_env 256 12 rt_sample = Some (0, w1)" "stdin_started rt_env 256 rt_sample w1"
    using stdin_init_ok [OF rt_sample_wf, of rt_env 256 12] by (auto simp: rt_env_def)
  then have "log_wf w1" by (simp add: stdin_started_def)
  then obtain w2 where "stdin_task_init (rt_env\<lparr>se_thread := 6\<rparr>) 256 12 w1 = Some (0, w2)"
      "stdin_started (rt_env\<lparr>se_thread := 6\<rparr>) 256 w1 w2"
    using stdin_init_ok [of w1 "rt_env\<lparr>se_thread := 6\<rparr>" 256 12] by (auto simp: rt_env_def)
  with w1 show ?thesis by (auto simp: stdin_started_def rt_env_def slots_def)
qed

section \<open>Reading a line\<close>

definition strip_nl :: "string \<Rightarrow> string" where
  "strip_nl d = (if last d = nl then butlast d else d)"

lemma strip_line:
  assumes "d \<noteq> []" "last d = nl"
  shows "(map Some d @ b)[length d - 1 := Some c] = map Some (butlast d) @ Some c # b"
  using assms by (cases d rule: rev_cases) (simp_all add: list_update_append)

text \<open>The contents of the buffer after a round that stored \<open>d\<close>.\<close>

definition line_after :: "string \<Rightarrow> char option list \<Rightarrow> char option list" where
  "line_after d b = (let b1 = map Some d @ Some (CHR 0x00) # drop (length d + 1) b in
     if last d = nl then b1[length d - 1 := Some (CHR 0x00)] else b1)"

lemma line_after_string:
  assumes "d \<noteq> []" "CHR 0x00 \<notin> set d" "length d < length b"
  shows "c_string (line_after d b) = Some (strip_nl d) \<and> length (line_after d b) = length b"
proof (cases "last d = nl")
  case True
  have "CHR 0x00 \<notin> set (butlast d)" using assms(2) by (auto dest: in_set_butlastD)
  have "line_after d b = map Some (butlast d) @ Some (CHR 0x00) # Some (CHR 0x00) # drop (length d + 1) b"
    using strip_line [OF assms(1) True] True by (simp add: line_after_def Let_def)
  with True assms \<open>CHR 0x00 \<notin> set (butlast d)\<close> show ?thesis
    by (cases d rule: rev_cases) (auto simp: strip_nl_def c_string_line)
next
  case False
  with assms show ?thesis
    by (simp add: line_after_def Let_def strip_nl_def c_string_line)
qed

definition overflows :: "size_t \<Rightarrow> string \<Rightarrow> bool" where
  "overflows n d \<longleftrightarrow> length d = unat (n - 1) \<and> last d \<noteq> nl"

definition overflow_warning :: "size_t \<Rightarrow> timespec \<Rightarrow> log_message" where
  "overflow_warning n now = make_message LOG_LEVEL_WARN stdin_TAG
     (''input >= '' @ show_nat (unat (n - 1)) @ '' bytes, flushing rest of data'') now"

definition line_message :: "string \<Rightarrow> timespec \<Rightarrow> log_message" where
  "line_message d now = make_message LOG_LEVEL_DEBUG stdin_TAG (''input received: '' @ strip_nl d) now"

lemma LOGD_room:
  assumes "log_wf w" "g_log_running w" "length (queued w) < log_capacity w"
  shows "\<exists>w'. LOGD tag msg w = Some w' \<and> logged w w' \<and>
    queued w' = queued w @ [make_message LOG_LEVEL_DEBUG tag msg (clock w)]"
  using ALOG_queue [OF assms(1,2), of LOG_LEVEL_DEBUG LOG_LEVEL_DEBUG tag msg] assms(3)
  by (auto simp: LOGD_def log_levels)

lemma LOGW_room:
  assumes "log_wf w" "g_log_running w" "length (queued w) < log_capacity w"
  shows "\<exists>w'. LOGW tag msg w = Some w' \<and> logged w w' \<and>
    queued w' = queued w @ [make_message LOG_LEVEL_WARN tag msg (clock w)]"
  using ALOG_queue [OF assms(1,2), of LOG_LEVEL_WARN LOG_LEVEL_DEBUG tag msg] assms(3)
  by (auto simp: LOGW_def log_levels)

lemma put_line_log_simps [simp]:
  "queued (put_line l w) = queued w" "log_capacity (put_line l w) = log_capacity w"
  "g_log_running (put_line l w) = g_log_running w" "clock (put_line l w) = clock w"
  by (simp_all add: put_line_def queued_def log_capacity_def)

text \<open>The state after the optional warning: as before but for the log.\<close>

lemma check_overflow_ok:
  assumes "log_wf w" "g_log_running w" "length (queued w) < log_capacity w"
    and "if overflows n d then stdin_flush rs = Goes rs' else rs' = rs"
  shows "\<exists>w1. check_overflow n d rs w = Goes (rs', w1) \<and> logged w w1 \<and>
    queued w1 = queued w @ (if overflows n d then [overflow_warning n (clock w)] else [])"
proof (cases "overflows n d")
  case True
  obtain w1 where "LOGW stdin_TAG (''input >= '' @ show_nat (unat (n - 1)) @ '' bytes, flushing rest of data'') w = Some w1"
      "logged w w1" "queued w1 = queued w @ [overflow_warning n (clock w)]"
    using LOGW_room [OF assms(1-3)] by (auto simp: overflow_warning_def)
  with True assms(4) show ?thesis by (auto simp: check_overflow_def overflows_def)
next
  case False
  with assms show ?thesis by (auto simp: check_overflow_def overflows_def)
qed

lemma log_input_ok:
  assumes "log_wf w" "g_log_running w" "length (queued w) < log_capacity w"
    and b: "line (user w) = Some (map Some d @ Some (CHR 0x00) # drop (length d + 1) b)" "length d < length b"
    and d: "d \<noteq> []" "CHR 0x00 \<notin> set d"
  shows "\<exists>w'. log_input d w = Goes w' \<and> logged (put_line (Some (line_after d b)) w) w' \<and>
    queued w' = queued w @ (if strip_nl d = [] then [] else [line_message d (clock w)])"
proof -
  let ?w1 = "put_line (Some (line_after d b)) w"
  have wf1: "log_wf ?w1" "g_log_running ?w1" "length (queued ?w1) < log_capacity ?w1"
    using assms(1-3) by simp_all
  have str: "c_string (line_after d b) = Some (strip_nl d)"
    using line_after_string [OF d b(2)] by simp
  have len: "(if last d = nl then length d - 1 else length d) = length (strip_nl d)"
    by (simp add: strip_nl_def)
  have after: "(if last d = nl then (map Some d @ Some (CHR 0x00) # drop (length d + 1) b)[length d - 1 := Some (CHR 0x00)]
      else map Some d @ Some (CHR 0x00) # drop (length d + 1) b) = line_after d b"
    by (simp add: line_after_def Let_def)
  obtain w2 where w2: "LOGD stdin_TAG (''input received: '' @ strip_nl d) ?w1 = Some w2" "logged ?w1 w2"
      "queued w2 = queued ?w1 @ [make_message LOG_LEVEL_DEBUG stdin_TAG (''input received: '' @ strip_nl d) (clock ?w1)]"
    using LOGD_room [OF wf1] by blast
  have "log_input d w = (if strip_nl d = [] then Goes ?w1 else Goes w2)"
    unfolding log_input_def b(1) option.case Let_def len after by (simp add: str w2(1) del: append.simps)
  with w2 wf1 show ?thesis by (auto simp: line_message_def)
qed

lemma stdin_store_logs:
  assumes wf: "log_wf w" and run: "g_log_running w" and room: "length (queued w) + 1 < log_capacity w"
    and b: "line (user w) = Some b" "length d < length b"
    and d: "d \<noteq> []" "CHR 0x00 \<notin> set d"
    and flush: "if overflows n d then stdin_flush rs = Goes rs' else rs' = rs"
  shows "\<exists>w'. stdin_store n d rs w = Goes (rs', w') \<and> logged (put_line (Some (line_after d b)) w) w' \<and>
    queued w' = queued w @ (if overflows n d then [overflow_warning n (clock w)] else []) @
      (if strip_nl d = [] then [] else [line_message d (clock w)])"
proof -
  let ?b1 = "map Some d @ Some (CHR 0x00) # drop (length d + 1) b"
  let ?v = "put_line (Some ?b1) w"
  have v: "log_wf ?v" "g_log_running ?v" "length (queued ?v) < log_capacity ?v"
    using wf run room by simp_all
  obtain w1 where w1: "check_overflow n d rs ?v = Goes (rs', w1)" "logged ?v w1"
      "queued w1 = queued ?v @ (if overflows n d then [overflow_warning n (clock ?v)] else [])"
    using check_overflow_ok [OF v flush] by blast
  note same = logged_same [OF w1(2)] logged_world [OF w1(2)]
  have "g_log_running w1" "length (queued w1) < log_capacity w1" "line (user w1) = Some ?b1"
    using w1(3) run room same by simp_all
  from log_input_ok [OF loggedD [OF w1(2)] this b(2) d]
  obtain w2 where w2: "log_input d w1 = Goes w2" "logged (put_line (Some (line_after d b)) w1) w2"
      "queued w2 = queued w1 @ (if strip_nl d = [] then [] else [line_message d (clock w1)])"
    by blast
  have "logged (put_line (Some (line_after d b)) w) (put_line (Some (line_after d b)) w1)"
    using logged_user [OF w1(2), of "(user w)\<lparr>line := Some (line_after d b)\<rparr>"] w1(2)
    by (simp add: put_line_def logged_world)
  moreover have "stdin_store n d rs w = Goes (rs', w2)"
    using b w1(1) w2(1) by (simp add: stdin_store_def write_line)
  ultimately show ?thesis
    using w1(3) w2 same logged_trans by auto
qed


definition rt_line :: "nat \<Rightarrow> rt_world" where
  "rt_line n = put_line (Some (replicate n None)) (rt_sample\<lparr>g_log_queue := snd (fifo_queue_init (\<lambda>n. True) True
     (g_log_queue rt_sample) 312 8)\<rparr>)"

lemma rt_line_simps:
  "log_wf (rt_line n)" "g_log_running (rt_line n)" "queued (rt_line n) = []" "log_capacity (rt_line n) = 8"
  "line (user (rt_line n)) = Some (replicate n None)" "clock (rt_line n) = \<lparr>tv_sec = 3661, tv_nsec = 5000\<rparr>"
  by (simp_all add: rt_line_def rt_sample_def log_sample_def log_state.defs world.defs log_wf_def queued_def
      log_capacity_def fifo_queue_init_def fq_wf_def fq_items_def fq_window_def Let_def put_line_def)


text \<open>
  The flush loses input: the thread reads on in chunks of 64 bytes until a chunk holds a newline and
  drops that chunk whole. With a buffer of 4 bytes, the input \<open>abcd\<close>, newline, \<open>next\<close>, newline, which the
  reads deliver as three and then seven bytes, logs the warning and \<open>abc\<close>, and never the line \<open>next\<close>.
\<close>
theorem stdin_flush_loses_line:
  "\<exists>w'. stdin_round 4 Poll_Ready [Read_Data ''abc'', Read_Data (''d'' @ [nl] @ ''next'' @ [nl])] (rt_line 4)
      = Goes ([], w') \<and>
     map lm_message (queued w') = [''input >= 3 bytes, flushing rest of data'', ''input received: abc'']"
proof -
  have three: "show_nat 3 = ''3''" by (subst show_nat.simps) (simp add: digit_char_def)
  show ?thesis
    using stdin_store_logs [of "rt_line 4" "replicate 4 None" "''abc''" 4
        "[Read_Data (''d'' @ [nl] @ ''next'' @ [nl])]" "[]"]
    by (auto simp: rt_line_simps overflows_def strip_nl_def nl_def line_message_def overflow_warning_def
        make_message_def c_trunc_def stdin_round_def three)
qed

text \<open>
  At the end of the input the thread does not wait: as long as \<open>poll\<close> reports the descriptor readable
  and \<open>read\<close> reports the end of the input, each round goes on at once and changes nothing, so it spins
  until it is stopped.
\<close>
theorem stdin_spins_at_eof:
  assumes "stdin_running w"
  shows "stdin_loop n (replicate k Poll_Ready) (replicate k Read_Eof @ rs) w = Goes (False, rs, w)"
  using assms
  by (induction k) (simp_all add: stdin_loop.simps [of n _ _ w] stdin_round_def)

theorem stdin_spins_at_eof_witness:
  "stdin_loop 8 (replicate 100 Poll_Ready) (replicate 100 Read_Eof @ [])
     (set_handle 0 ((handles rt_sample 0)\<lparr>th_state := TASK_STATE_RUNNING\<rparr>) rt_sample) =
   Goes (False, [], set_handle 0 ((handles rt_sample 0)\<lparr>th_state := TASK_STATE_RUNNING\<rparr>) rt_sample)"
  by (rule stdin_spins_at_eof)
    (simp add: stdin_running_def stdin_handle_def rt_sample_def log_state.defs world.defs set_handle_def)

lemma stdin_loop_ends:
  assumes "log_wf w" "\<not> stdin_running w" "th_done_fd (handles w stdin_handle) \<noteq> None"
  shows "\<exists>w'. stdin_loop n polls rs w = Goes (True, rs, w') \<and> log_wf w' \<and> readable w' stdin_handle \<and>
    arrays w' = arrays w \<and> user w' = user w \<and>
    threads w' = (threads w)(th_thread (handles w stdin_handle) := T_Exited) \<and>
    handles w' = (handles w)(stdin_handle := (handles w stdin_handle)\<lparr>th_state := TASK_STATE_STOPPED,
      th_done_fd := efd_signal (th_done_fd (handles w stdin_handle))\<rparr>)"
proof -
  obtain w1 where w1: "LOGD stdin_TAG ''exiting...'' w = Some w1" "logged w w1"
    using LOG_wf(1) [OF assms(1)] by blast
  note same = logged_world [OF w1(2)]
  obtain w2 where "task_handle_mark_done stdin_handle w1 = Some w2" "log_wf w2" "arrays w2 = arrays w1"
      "user w2 = user w1" "threads w2 = threads w1"
      "handles w2 = (handles w1)(stdin_handle := (handles w1 stdin_handle)\<lparr>th_state := TASK_STATE_STOPPED,
        th_done_fd := efd_signal (th_done_fd (handles w1 stdin_handle))\<rparr>)"
      "th_done_fd (handles w1 stdin_handle) \<noteq> None \<longrightarrow> readable w2 stdin_handle"
    using mark_done_ok [OF loggedD [OF w1(2)], of stdin_handle] by blast
  then show ?thesis
    using assms(2,3) w1(1) same by (simp add: stdin_loop.simps stdin_end_def readable_def)
qed

text \<open>
  The thread ends when it is told to: once \<open>g_running\<close> is 0 or the state is no longer \<open>RUNNING\<close>, the
  loop ends before the next \<open>poll\<close> without reading, its done event becomes readable, the state is
  \<open>STOPPED\<close> and the thread has ended.
\<close>
theorem stdin_task_stops:
  assumes "log_wf w" "\<not> stdin_running w" "th_done_fd (handles w stdin_handle) \<noteq> None"
  shows "\<exists>w'. stdin_loop n polls rs w = Goes (True, rs, w') \<and> readable w' stdin_handle \<and>
    th_state (handles w' stdin_handle) = TASK_STATE_STOPPED \<and>
    threads w' (th_thread (handles w' stdin_handle)) = T_Exited \<and> user w' = user w \<and> arrays w' = arrays w"
  using stdin_loop_ends [OF assms, of n polls rs] by auto

theorem stdin_task_stops_witness:
  "\<exists>w'. stdin_loop 8 [] [] (set_handle 0 ((handles rt_sample 0)\<lparr>th_done_fd := Some \<lparr>efd_count = 0,
     efd_semaphore = False\<rparr>\<rparr>) rt_sample) = Goes (True, [], w') \<and> readable w' stdin_handle"
  using stdin_task_stops [of "set_handle 0 ((handles rt_sample 0)\<lparr>th_done_fd := Some \<lparr>efd_count = 0,
     efd_semaphore = False\<rparr>\<rparr>) rt_sample" 8 "[]" "[]"] rt_sample_wf
  by (auto simp: stdin_running_def stdin_handle_def rt_sample_def log_state.defs world.defs set_handle_def log_wf_def)

text \<open>
  A stop that comes before the thread's first statement is lost: \<open>task_stop\<close> sets the state to
  \<open>STOPPING\<close>, the thread then sets it to \<open>RUNNING\<close> and goes on as long as \<open>g_running\<close> is set, against the
  header, which says that the task stops when \<open>task_stop()\<close> is called.
\<close>
theorem stdin_early_stop_lost:
  assumes "log_wf w" "g_running (user w)" "th_on_stop (handles w stdin_handle) = None"
  shows "\<exists>w1 w2. task_stop rt_callback stdin_handle w = Some w1 \<and>
    th_state (handles w1 stdin_handle) = TASK_STATE_STOPPING \<and>
    stdin_begin w1 = Some w2 \<and> stdin_running w2"
proof -
  obtain w1 st where w1: "task_stop rt_callback stdin_handle w = Some w1" "log_wf w1"
      "user w1 = run_effect rt_effect (th_on_stop (handles w stdin_handle)) (user w)"
      "handles w1 = set_state stdin_handle st (handles w)"
      "th_on_stop (handles w stdin_handle) = None \<longrightarrow> st = TASK_STATE_STOPPING"
    using rt.task_stop_ok [OF assms(1), of stdin_handle] by (elim exE conjE) (rule that; assumption)
  let ?v = "set_handle stdin_handle ((handles w1 stdin_handle)\<lparr>th_state := TASK_STATE_RUNNING\<rparr>) w1"
  obtain w2 where "LOGD stdin_TAG ''ready for input...'' ?v = Some w2" "logged ?v w2"
    using LOG_wf(1) [of ?v] w1(2) by auto
  with w1 assms(2,3) show ?thesis
    by (simp add: stdin_begin_def stdin_running_def logged_world run_effect_def)
qed

theorem stdin_early_stop_lost_witness:
  "\<exists>w1 w2. task_stop rt_callback 0 rt_sample = Some w1 \<and> stdin_begin w1 = Some w2 \<and> stdin_running w2"
  using stdin_early_stop_lost [OF rt_sample_wf]
  by (auto simp: stdin_handle_def rt_sample_def log_state.defs world.defs)

text \<open>
  A buffer of size 0 is not rejected: the thread then asks for 18446744073709551615 bytes, and the
  first byte that arrives is stored outside the block.
\<close>
theorem stdin_buffer_size_zero:
  assumes "d \<noteq> []"
  shows "unat ((0::size_t) - 1) = 18446744073709551615 \<and>
    stdin_round 0 Poll_Ready (Read_Data d # rs) (rt_line 0) = Fails"
  using assms
  by (simp add: stdin_round_def stdin_store_def rt_line_simps write_bytes_def
      unsigned_minus_1_eq_mask mask_eq_exp_minus_1)

theorem stdin_buffer_size_zero_witness:
  "stdin_round 0 Poll_Ready [Read_Data ''x''] (rt_line 0) = Fails"
  using stdin_buffer_size_zero [of "''x''" "[]"] by simp

text \<open>
  \<open>task_array_stop_all\<close> with the program's callbacks, on a usable array: it returns; every task of the
  array without a stop callback is in state \<open>STOPPING\<close>; nothing else of any handle changes, and neither do
  the arrays (so the lock is free again) and the threads.
\<close>
theorem task_array_stop_all_stops:
  assumes "log_wf w" "array_ok a w"
  shows "\<exists>w'. task_array_stop_all rt_callback a w = Some w' \<and> arrays w' = arrays w \<and> threads w' = threads w \<and>
    (\<forall>h. h \<in> set (tasks a w) \<and> th_on_stop (handles w h) = None \<longrightarrow> th_state (handles w' h) = TASK_STATE_STOPPING) \<and>
    (\<forall>h. \<exists>st. handles w' h = (handles w h)\<lparr>th_state := st\<rparr> \<and>
      (h \<notin> set (tasks a w) \<longrightarrow> handles w' h = handles w h))"
proof -
  obtain w' where w': "task_array_stop_all rt_callback a w = Some w'" "arrays w' = arrays w" "threads w' = threads w"
    and st: "stopped_handles (handles w) (tasks a w) (handles w')"
    using rt.stop_all_ok [OF assms] by blast
  have "\<exists>s. handles w' h = (handles w h)\<lparr>th_state := s\<rparr> \<and>
      (h \<notin> set (tasks a w) \<longrightarrow> handles w' h = handles w h) \<and>
      (h \<in> set (tasks a w) \<and> th_on_stop (handles w h) = None \<longrightarrow> th_state (handles w' h) = TASK_STATE_STOPPING)" for h
    using st unfolding stopped_handles_def by (drule_tac spec [of _ h]) auto
  with w' show ?thesis by blast
qed

definition rt_started :: rt_world where
  "rt_started = rt_sample\<lparr>handles := \<lambda>h. \<lparr>th_thread = 5, th_done_fd = Some \<lparr>efd_count = 1, efd_semaphore = False\<rparr>,
      th_state = TASK_STATE_RUNNING, th_name = ''stdin'', th_on_stop = None, th_on_cleanup = Some 0,
      th_array = Some 0\<rparr>,
    arrays := \<lambda>a. \<lparr>ta_slots = Valid [Some 0], ta_capacity = 1, ta_lock = Mutex_Free\<rparr>,
    threads := \<lambda>t. T_Exited, user := \<lparr>g_running = True, g_sigint_count = 0, line = Some [None], buf_size_arg = 1,
      sig_fd_open = True, rt_stdout = []\<rparr>\<rparr>"

lemma rt_started_simps:
  "log_wf rt_started" "array_ok a rt_started" "tasks a rt_started = [0]"
  "th_on_stop (handles rt_started h) = None" "line (user rt_started) = Some [None]"
  "th_on_cleanup (handles rt_started h) = Some 0"
  using rt_sample_wf
  by (simp_all add: rt_started_def array_ok_def tasks_def slots_def List.map_filter_simps)

theorem task_array_stop_all_stops_witness:
  "\<exists>w'. task_array_stop_all rt_callback 0 rt_started = Some w' \<and>
     th_state (handles w' 0) = TASK_STATE_STOPPING"
  using task_array_stop_all_stops [of rt_started 0] by (auto simp: rt_started_simps)

text \<open>
  C24: \<open>task_array_handles_destroy_all\<close> with the program's callbacks, on a usable array: it returns although
  it holds the array's lock while it destroys handles that are registered in the array; afterwards the lock
  is free and every slot is empty; each handle that was in the array has its done event closed, is in state
  \<open>STOPPED\<close> and points to no array; other handles are unchanged; and the input buffer is freed if one of
  the tasks has the cleanup callback.
\<close>
theorem task_array_handles_destroy_all_destroys:
  assumes "log_wf w" "array_ok a w"
  shows "\<exists>w'. task_array_handles_destroy_all rt_callback a w = Some w' \<and> array_ok a w' \<and>
    slots a w' = replicate (length (slots a w)) None \<and> threads w' = threads w \<and>
    (\<forall>h \<in> set (tasks a w). th_done_fd (handles w' h) = None \<and> th_array (handles w' h) = None \<and>
      th_state (handles w' h) = TASK_STATE_STOPPED) \<and>
    (\<forall>h. h \<notin> set (tasks a w) \<longrightarrow> handles w' h = handles w h) \<and>
    line (user w') = (if \<exists>h \<in> set (tasks a w). th_on_cleanup (handles w h) \<noteq> None then None else line (user w))"
proof -
  obtain w' where w': "task_array_handles_destroy_all rt_callback a w = Some w'" "threads w' = threads w"
      "arrays w' = (arrays w)(a := (arrays w a)\<lparr>ta_slots := Valid (replicate (length (slots a w)) None)\<rparr>)"
      "user w' = effects rt_effect (\<lambda>h. th_on_cleanup (handles w h)) (tasks a w) (user w)"
      "handles w' = destroyed_handles (handles w) (tasks a w)"
    using rt.destroy_all_ok [OF assms] by blast
  have "line (effects rt_effect cb hs u) = (if \<exists>h \<in> set hs. cb h \<noteq> None then None else line u)" for cb hs u
    by (induction hs rule: rev_induct) (auto simp: run_effect_def rt_effect_def split: option.splits)
  moreover have "array_ok a w'" "slots a w' = replicate (length (slots a w)) None"
    using w'(3) assms(2) by (auto elim!: array_okE simp: array_ok_def slots_def)
  ultimately show ?thesis
    using w' by (auto simp: destroyed_handles_def destroyed_handle_def)
qed

theorem task_array_handles_destroy_all_destroys_witness:
  "\<exists>w'. task_array_handles_destroy_all rt_callback 0 rt_started = Some w' \<and> line (user w') = None \<and>
     th_done_fd (handles w' 0) = None"
  using task_array_handles_destroy_all_destroys [of rt_started 0] by (auto simp: rt_started_simps)

end
