(* ===== verification/Rt_Main.thy ===== *)
theory Rt_Main
  imports Stdin_Task
begin

text \<open>
  \<open>rtsystem/src/main/main.c\<close>: start, the wait for \<open>SIGINT\<close>, and the shutdown of the tasks and of the log
  task. The answers of the operating system are arguments. What the other threads do while \<open>main\<close> waits in
  \<open>poll\<close> or in a join is an argument too, a function on the world (\<open>others\<close>).
\<close>

section \<open>Start\<close>

record main_env =
  me_signalfd :: bool
  me_log :: log_init_env
  me_stdin :: stdin_env
  me_errno :: string

definition main_TAG :: string where "main_TAG = ''main''"

definition LOG_QUEUE_SIZE :: size_t where "LOG_QUEUE_SIZE = 64"
definition STDIN_LINE_BUF_SIZE :: size_t where "STDIN_LINE_BUF_SIZE = 256"
definition PRIORITY_STDIN_TASK :: int where "PRIORITY_STDIN_TASK = 12"
definition PRIORITY_LOG_TASK :: int where "PRIORITY_LOG_TASK = 10"
definition EXIT_SUCCESS :: int where "EXIT_SUCCESS = 0"
definition EXIT_FAILURE :: int where "EXIT_FAILURE = 1"

definition task_arrays :: "nat list" where "task_arrays = [g_stdin_tasks]"

text \<open>Where \<open>main\<close> is after a part of it: it has returned a code, it goes on, or it still waits.\<close>

datatype main_at = M_Exit int | M_Next | M_Waits

definition open_sig_fd :: "rt_world \<Rightarrow> rt_world" where
  "open_sig_fd w = w\<lparr>user := (user w)\<lparr>sig_fd_open := True\<rparr>\<rparr>"

definition close_sig_fd :: "rt_world \<Rightarrow> rt_world" where
  "close_sig_fd w = w\<lparr>user := (user w)\<lparr>sig_fd_open := False\<rparr>\<rparr>"

definition main_start :: "main_env \<Rightarrow> rt_world \<Rightarrow> (main_at \<times> rt_world) option" where
  "main_start env w =
     (if \<not> me_signalfd env then Some (M_Exit EXIT_FAILURE, perror ''signalfd'' (me_errno env) w)
      else do {
        (r, w1) \<leftarrow> log_task_init (me_log env) LOG_QUEUE_SIZE PRIORITY_LOG_TASK (open_sig_fd w);
        if r \<noteq> 0
        then Some (M_Exit EXIT_FAILURE, close_sig_fd (write_stderr (''Failed to initialize log task'' @ newline) w1))
        else do {
          w2 \<leftarrow> LOGD main_TAG ''rtsystem started'' w1;
          (r, w3) \<leftarrow> stdin_task_init (me_stdin env) STDIN_LINE_BUF_SIZE PRIORITY_STDIN_TASK w2;
          w4 \<leftarrow> (if r \<noteq> 0 then LOGE main_TAG ''failed to initialize stdin_task'' w3 else Some w3);
          Some (M_Next, w4)
        }
      })"

section \<open>The main loop\<close>

text \<open>What \<open>poll\<close> on the signal descriptor answers: an error, nothing to read, or a signal.\<close>

datatype signal_answer = Sig_Error string | Sig_None | Sig_Received

fun main_loop :: "signal_answer list \<Rightarrow> rt_world \<Rightarrow> (main_at \<times> rt_world) option" where
  "main_loop answers w =
     (if \<not> g_running (user w) then Some (M_Next, w)
      else (case answers of
          [] \<Rightarrow> Some (M_Waits, w)
        | Sig_Error err # as \<Rightarrow> do {
            w1 \<leftarrow> LOGE_ERRNO main_TAG ''Failed to poll signal file descriptor, SHOULD NOT HAPPEN: '' err w;
            Some (M_Exit EXIT_FAILURE, w1)
          }
        | Sig_None # as \<Rightarrow> main_loop as w
        | Sig_Received # as \<Rightarrow>
            main_loop as (w\<lparr>user := (user w)\<lparr>g_sigint_count := g_sigint_count (user w) + 1, g_running := False,
              rt_stdout := rt_stdout (user w) @ [newline]\<rparr>\<rparr>)))"

declare main_loop.simps [simp del]

section \<open>Shutdown of the tasks\<close>

record waits =
  wait_poll :: "nat \<Rightarrow> pollfd list \<Rightarrow> int \<Rightarrow> int \<times> bool list"
  wait_malloc :: "nat \<Rightarrow> bool"
  wait_others :: "nat \<Rightarrow> rt_world \<Rightarrow> rt_world"

fun stop_arrays :: "nat list \<Rightarrow> rt_world \<Rightarrow> rt_world option" where
  "stop_arrays [] w = Some w"
| "stop_arrays (a # as) w = do { w1 \<leftarrow> task_array_stop_all rt_callback a w; stop_arrays as w1 }"

definition TASK_SHUTDOWN_TIMEOUT_MS :: int where "TASK_SHUTDOWN_TIMEOUT_MS = 1000"

text \<open>The loop over the arrays with its index and the local \<open>force_cancel\<close>.\<close>

fun poll_arrays :: "waits \<Rightarrow> int \<Rightarrow> nat \<Rightarrow> bool \<Rightarrow> nat list \<Rightarrow> rt_world \<Rightarrow> rt_world option" where
  "poll_arrays e sig_fd i force_cancel [] w = Some w"
| "poll_arrays e sig_fd i force_cancel (a # as) w =
     (if force_cancel
      then do { w1 \<leftarrow> task_array_cancel_all a w; poll_arrays e sig_fd (i + 1) True as w1 }
      else do {
        (ret, w0) \<leftarrow> task_array_poll_all (wait_malloc e) (wait_poll e i) a sig_fd TASK_SHUTDOWN_TIMEOUT_MS w;
        let w1 = wait_others e i w0;
        if ret = - 2
        then do {
          w2 \<leftarrow> LOGW main_TAG ''forced shutdown, cancelling all tasks'' w1;
          w3 \<leftarrow> task_array_cancel_all a w2;
          poll_arrays e sig_fd (i + 1) True as w3
        }
        else if ret = - 1
        then do {
          w2 \<leftarrow> LOGW main_TAG (''task array '' @ show_nat i @ '' timeout, cancelling'') w1;
          w3 \<leftarrow> task_array_cancel_all a w2;
          poll_arrays e sig_fd (i + 1) False as w3
        }
        else poll_arrays e sig_fd (i + 1) False as w1
      })"

fun destroy_arrays :: "nat list \<Rightarrow> rt_world \<Rightarrow> rt_world option" where
  "destroy_arrays [] w = Some w"
| "destroy_arrays (a # as) w = do {
     w1 \<leftarrow> task_array_join_all a w;
     w2 \<leftarrow> task_array_handles_destroy_all rt_callback a w1;
     w3 \<leftarrow> task_array_destroy a w2;
     destroy_arrays as w3
   }"

definition main_stop_tasks :: "waits \<Rightarrow> int \<Rightarrow> rt_world \<Rightarrow> rt_world option" where
  "main_stop_tasks e sig_fd w = do {
     w1 \<leftarrow> LOGD main_TAG ''received SIGINT, shutting down...'' w;
     w2 \<leftarrow> stop_arrays task_arrays w1;
     w3 \<leftarrow> poll_arrays e sig_fd 0 False task_arrays w2;
     destroy_arrays task_arrays w3
   }"

section \<open>Shutdown of the log task\<close>

text \<open>
  \<open>ret\<close> and the two \<open>POLLIN\<close> flags are what the last \<open>poll\<close> answers (\<open>None\<close>: it fails with that text);
  \<open>others\<close> is what the log task does in the meantime, and \<open>ending\<close> what it does while \<open>main\<close> joins it.
\<close>

definition main_stop_log :: "string + int \<times> bool \<times> bool \<Rightarrow> (rt_world \<Rightarrow> rt_world) \<Rightarrow> (rt_world \<Rightarrow> rt_world)
    \<Rightarrow> rt_world \<Rightarrow> (int \<times> rt_world) option" where
  "main_stop_log answer others ending w =
     (let w1 = others (log_task_stop w) in
      case answer of
        Inl err \<Rightarrow> Some (0, perror ''Failed to poll log file descriptor, SHOULD_NOT_HAPPEN: '' err w1)
      | Inr (ret, done, signalled) \<Rightarrow> do {
          w2 \<leftarrow> (if ret = 0
             then log_task_cancel (write_stderr (''log_task timeout, forcing shutdown'' @ newline) w1)
             else if done then Some w1
             else if signalled then log_task_cancel (write_stderr (''Forced log shutdown'' @ newline) w1)
             else Some (write_stderr (''ILLEGAL STATE, SHOULD NOT HAPPEN'' @ newline) w1));
          w3 \<leftarrow> log_task_join (ending w2);
          w4 \<leftarrow> log_task_cleanup w3;
          Some (EXIT_SUCCESS, close_sig_fd w4)
        })"

section \<open>Lemmas\<close>

text \<open>
  The stdin task is registered with thread \<open>t\<close>: what \<open>stdin_task_init\<close> establishes and the running thread
  keeps.
\<close>

definition stdin_up :: "nat \<Rightarrow> rt_world \<Rightarrow> bool" where
  "stdin_up t w \<longleftrightarrow> log_wf w \<and>
     arrays w g_stdin_tasks = \<lparr>ta_slots = Valid [Some stdin_handle], ta_capacity = 1, ta_lock = Mutex_Free\<rparr> \<and>
     th_thread (handles w stdin_handle) = t \<and> th_done_fd (handles w stdin_handle) \<noteq> None \<and>
     th_on_stop (handles w stdin_handle) = None \<and> th_on_cleanup (handles w stdin_handle) = Some 0"

lemma stdin_up_array:
  assumes "stdin_up t w"
  shows "array_ok g_stdin_tasks w" "tasks g_stdin_tasks w = [stdin_handle]" "log_wf w"
  using assms by (simp_all add: stdin_up_def array_ok_def tasks_def slots_def List.map_filter_simps)

lemma started_up: "stdin_started env n w w' \<Longrightarrow> stdin_up (se_thread env) w'"
  by (simp add: stdin_started_def stdin_up_def)

text \<open>The task is told to stop; and the first two statements of the shutdown.\<close>

lemma stop_arrays_up:
  assumes up: "stdin_up t w"
  shows "\<exists>w'. stop_arrays task_arrays w = Some w' \<and> stdin_up t w' \<and>
    handles w' stdin_handle = (handles w stdin_handle)\<lparr>th_state := TASK_STATE_STOPPING\<rparr> \<and>
    arrays w' = arrays w \<and> threads w' = threads w \<and> user w' = user w"
proof -
  obtain w' where w': "task_array_stop_all rt_callback g_stdin_tasks w = Some w'" "log_wf w'"
      "arrays w' = arrays w" "threads w' = threads w"
      "user w' = effects rt_effect (\<lambda>h. th_on_stop (handles w h)) [stdin_handle] (user w)"
      "stopped_handles (handles w) [stdin_handle] (handles w')"
    using rt.stop_all_ok [OF stdin_up_array(3,1) [OF up]] stdin_up_array(2) [OF up] by auto
  have "handles w' stdin_handle = (handles w stdin_handle)\<lparr>th_state := TASK_STATE_STOPPING\<rparr>"
    using w'(6) up unfolding stopped_handles_def stdin_up_def by (metis list.set_intros(1))
  with w' up show ?thesis
    by (simp add: task_arrays_def stdin_up_def effects_def run_effect_def)
qed

lemma stop_arrays_ok:
  assumes up: "stdin_up t w"
  shows "\<exists>w1 w2. LOGD main_TAG ''received SIGINT, shutting down...'' w = Some w1 \<and>
    stop_arrays task_arrays w1 = Some w2 \<and> stdin_up t w2 \<and>
    th_state (handles w2 stdin_handle) = TASK_STATE_STOPPING \<and>
    th_done_fd (handles w2 stdin_handle) = th_done_fd (handles w stdin_handle) \<and>
    arrays w2 = arrays w \<and> threads w2 = threads w \<and> user w2 = user w"
proof -
  obtain w1 where w1: "LOGD main_TAG ''received SIGINT, shutting down...'' w = Some w1" "logged w w1"
    using LOG_wf(1) [OF stdin_up_array(3) [OF up]] by blast
  note same = logged_world [OF w1(2)]
  have "stdin_up t w1" using up same loggedD [OF w1(2)] by (simp add: stdin_up_def)
  from stop_arrays_up [OF this] w1(1) same show ?thesis by auto
qed

text \<open>The last loop on the registered task: its thread is joined exactly when it has signalled its end.\<close>

lemma destroy_arrays_ok:
  assumes up: "stdin_up t w" and ended: "readable w stdin_handle \<longrightarrow> threads w t = T_Exited"
  shows "\<exists>w'. destroy_arrays task_arrays w = Some w' \<and> log_wf w' \<and>
    threads w' = (if readable w stdin_handle then (threads w)(t := T_Joined) else threads w) \<and>
    arrays w' = (arrays w)(g_stdin_tasks := dead_array) \<and> line (user w') = None \<and>
    handles w' = (handles w)(stdin_handle := destroyed_handle (handles w stdin_handle))"
proof -
  let ?a = g_stdin_tasks
  note arr = stdin_up_array [OF up]
  have t: "th_thread (handles w stdin_handle) = t" using up by (simp add: stdin_up_def)
  obtain w1 where w1: "task_array_join_all ?a w = Some w1" "log_wf w1" "arrays w1 = arrays w"
      "handles w1 = handles w" "user w1 = user w"
      "threads w1 = joined (threads_of (handles w) (filter (readable w) (tasks ?a w))) (threads w)"
    using join_all_ok [OF arr(3,1)] ended arr(2) t by auto
  have th: "threads w1 = (if readable w stdin_handle then (threads w)(t := T_Joined) else threads w)"
    using w1(6) arr(2) t by (auto simp: joined_def threads_of_def fun_eq_iff)
  have arr1: "array_ok ?a w1" "tasks ?a w1 = [stdin_handle]" "slots ?a w1 = [Some stdin_handle]"
    using arr w1(3) up by (simp_all add: array_ok_def tasks_def slots_def stdin_up_def)
  obtain w2 where w2: "task_array_handles_destroy_all rt_callback ?a w1 = Some w2" "log_wf w2" "threads w2 = threads w1"
      "arrays w2 = (arrays w1)(?a := (arrays w1 ?a)\<lparr>ta_slots := Valid (replicate (length (slots ?a w1)) None)\<rparr>)"
      "user w2 = effects rt_effect (\<lambda>h. th_on_cleanup (handles w1 h)) (tasks ?a w1) (user w1)"
      "handles w2 = destroyed_handles (handles w1) (tasks ?a w1)"
    using rt.destroy_all_ok [OF w1(2) arr1(1)] by blast
  have "ta_lock (arrays w2 ?a) = Mutex_Free" "ta_slots (arrays w2 ?a) \<noteq> Dangling"
    using w2(4) arr1(1) by (auto elim: array_okE)
  then obtain w3 where "task_array_destroy ?a w2 = Some w3" "log_wf w3" "handles w3 = handles w2"
      "threads w3 = threads w2" "user w3 = user w2" "arrays w3 = (arrays w2)(?a := dead_array)"
    using task_array_destroy_ok [OF w2(2)] by blast
  moreover have "destroyed_handles (handles w) [stdin_handle] =
      (handles w)(stdin_handle := destroyed_handle (handles w stdin_handle))"
    by (auto simp: destroyed_handles_def fun_eq_iff)
  moreover have "line (user w2) = None"
    using w2(5) arr1(2) w1(4) up by (simp add: stdin_up_def effects_def run_effect_def rt_effect_def)
  ultimately show ?thesis
    using w1(1-5) w2 th arr1(2,3) by (simp add: task_arrays_def)
qed

text \<open>The stdin thread runs on by itself.\<close>

definition stdin_runs :: "size_t \<Rightarrow> poll_answer list \<Rightarrow> read_answer list \<Rightarrow> rt_world \<Rightarrow> rt_world" where
  "stdin_runs n polls rs w = (case stdin_loop n polls rs w of Goes (b, rs', w') \<Rightarrow> w' | _ \<Rightarrow> w)"

lemma poll_arrays_one:
  assumes up: "stdin_up t w" and "sig_fd \<ge> 0" "wait_malloc e 16"
    and "wait_poll e 0 [Poll_Done stdin_handle, Poll_Signal sig_fd] TASK_SHUTDOWN_TIMEOUT_MS = (ret, [done, signalled])"
  shows "task_array_poll_all (wait_malloc e) (wait_poll e 0) g_stdin_tasks sig_fd TASK_SHUTDOWN_TIMEOUT_MS w =
    Some (poll_result sig_fd 1 ret [done, signalled], w)"
proof -
  have fds: "poll_fds (tasks g_stdin_tasks w) sig_fd = [Poll_Done stdin_handle, Poll_Signal sig_fd]"
    using stdin_up_array(2) [OF up] assms(2) by (simp add: poll_fds_def)
  show ?thesis
    using poll_all_ok [OF stdin_up_array(1) [OF up], of "wait_malloc e" sig_fd "wait_poll e 0"
        TASK_SHUTDOWN_TIMEOUT_MS ret "[done, signalled]"] assms(3,4) stdin_up_array(2) [OF up] fds
    by simp
qed

section \<open>Properties\<close>

text \<open>
  The main loop waits for \<open>SIGINT\<close>: whatever other wake-ups come first, it goes on to the shutdown
  exactly with the first signal, which it counts, with \<open>g_running\<close> cleared and nothing else changed.
\<close>
theorem main_waits_for_sigint:
  assumes "g_running (user w)"
  shows "main_loop (replicate k Sig_None) w = Some (M_Waits, w) \<and>
    main_loop (replicate k Sig_None @ Sig_Received # as) w =
      Some (M_Next, w\<lparr>user := (user w)\<lparr>g_sigint_count := g_sigint_count (user w) + 1, g_running := False,
        rt_stdout := rt_stdout (user w) @ [newline]\<rparr>\<rparr>)"
  using assms by (induction k) (simp_all add: main_loop.simps)

theorem main_waits_for_sigint_witness:
  "main_loop (replicate 3 Sig_None) rt_sample = Some (M_Waits, rt_sample)"
  using main_waits_for_sigint [of rt_sample 3 "[]"]
  by (simp add: rt_sample_def log_state.defs world.defs)

text \<open>The stdin thread ends while \<open>main\<close> waits, and \<open>main\<close> joins it.\<close>

lemma main_stop_tasks_ok:
  assumes "stdin_up t w" "sig_fd \<ge> 0" "wait_malloc e 16"
    and "wait_poll e 0 [Poll_Done stdin_handle, Poll_Signal sig_fd] TASK_SHUTDOWN_TIMEOUT_MS = (1, [True, False])"
    and "wait_others e 0 = stdin_runs n polls rs"
  shows "\<exists>w'. main_stop_tasks e sig_fd w = Some w' \<and> threads w' t = T_Joined \<and>
    arrays w' g_stdin_tasks = dead_array \<and> line (user w') = None \<and>
    th_done_fd (handles w' stdin_handle) = None \<and> log_wf w'"
proof -
  obtain w1 w2 where w2: "LOGD main_TAG ''received SIGINT, shutting down...'' w = Some w1"
      "stop_arrays task_arrays w1 = Some w2" "stdin_up t w2" "th_state (handles w2 stdin_handle) = TASK_STATE_STOPPING"
    using stop_arrays_ok [OF assms(1)] by blast
  have "\<not> stdin_running w2" "th_done_fd (handles w2 stdin_handle) \<noteq> None" "log_wf w2"
    using w2(3,4) by (simp_all add: stdin_running_def stdin_up_def)
  then obtain w3 where w3: "stdin_loop n polls rs w2 = Goes (True, rs, w3)" "log_wf w3" "readable w3 stdin_handle"
      "arrays w3 = arrays w2" "threads w3 = (threads w2)(th_thread (handles w2 stdin_handle) := T_Exited)"
      "handles w3 = (handles w2)(stdin_handle := (handles w2 stdin_handle)\<lparr>th_state := TASK_STATE_STOPPED,
        th_done_fd := efd_signal (th_done_fd (handles w2 stdin_handle))\<rparr>)"
    using stdin_loop_ends [of w2 n polls rs] by blast
  have "th_done_fd (handles w3 stdin_handle) \<noteq> None"
    using w3(3) by (auto simp: readable_def efd_readable_def split: option.splits)
  then have up3: "stdin_up t w3" and ex3: "threads w3 t = T_Exited"
    using w2(3) w3 by (simp_all add: stdin_up_def)
  have "poll_arrays e sig_fd 0 False task_arrays w2 = Some w3"
    using poll_arrays_one [OF w2(3) assms(2-4)] w3(1) assms(5)
    by (simp add: task_arrays_def poll_result_def stdin_runs_def)
  moreover obtain w4 where "destroy_arrays task_arrays w3 = Some w4" "log_wf w4"
      "threads w4 = (if readable w3 stdin_handle then (threads w3)(t := T_Joined) else threads w3)"
      "arrays w4 = (arrays w3)(g_stdin_tasks := dead_array)" "line (user w4) = None"
      "handles w4 = (handles w3)(stdin_handle := destroyed_handle (handles w3 stdin_handle))"
    using destroy_arrays_ok [OF up3] ex3 by blast
  ultimately show ?thesis
    using w2(1,2) w3(3) by (simp add: main_stop_tasks_def destroyed_handle_def)
qed

text \<open>
  Shutdown of the tasks when the stdin thread is alive: \<open>main\<close> tells it to stop, waits, and the thread,
  whose loop then ends at its next check, signals; \<open>main\<close> joins it, destroys its handle and array and
  frees its buffer. Nothing undefined happens and no lock is left behind.
\<close>
theorem main_stops_tasks:
  assumes "stdin_up t w" "sig_fd \<ge> 0" "wait_malloc e 16"
    and "wait_poll e 0 [Poll_Done stdin_handle, Poll_Signal sig_fd] TASK_SHUTDOWN_TIMEOUT_MS = (1, [True, False])"
    and "wait_others e 0 = stdin_runs n polls rs"
  shows "\<exists>w'. main_stop_tasks e sig_fd w = Some w' \<and> threads w' t = T_Joined \<and>
    arrays w' g_stdin_tasks = dead_array \<and> line (user w') = None \<and>
    th_done_fd (handles w' stdin_handle) = None \<and> log_wf w'"
  using assms by (rule main_stop_tasks_ok)

definition waits_ok :: waits where
  "waits_ok = \<lparr>wait_poll = \<lambda>i fds t. (1, [True, False]), wait_malloc = \<lambda>n. True,
     wait_others = \<lambda>i. stdin_runs 256 [] []\<rparr>"

definition waits_stuck :: waits where
  "waits_stuck = \<lparr>wait_poll = \<lambda>i fds t. (0, [False, False]), wait_malloc = \<lambda>n. True, wait_others = \<lambda>i w. w\<rparr>"

definition rt_up :: rt_world where
  "rt_up = snd (the (stdin_task_init rt_env 256 12 rt_sample))"

lemma rt_up_up: "stdin_up 5 rt_up" and rt_up_running: "threads rt_up 5 = T_Running"
  and rt_up_quiet: "\<not> readable rt_up stdin_handle"
  using stdin_init_ok [OF rt_sample_wf, of rt_env 256 12] started_up [of rt_env 256 rt_sample rt_up]
  by (auto simp: rt_up_def rt_env_def stdin_started_def readable_def efd_readable_def)

theorem main_stops_tasks_witness:
  "\<exists>w'. main_stop_tasks waits_ok 3 rt_up = Some w' \<and> threads w' 5 = T_Joined \<and> line (user w') = None"
  using main_stops_tasks [OF rt_up_up, of 3 waits_ok 256 "[]" "[]"] by (auto simp: waits_ok_def)

text \<open>The wait for the tasks that ends by its timeout or a second \<open>SIGINT\<close>: the task is cancelled.\<close>

lemma poll_arrays_gives_up:
  assumes up: "stdin_up t w" and "sig_fd \<ge> 0" "wait_malloc e 16" "threads w t = T_Running"
    and "\<not> readable w stdin_handle"
    and "wait_poll e 0 [Poll_Done stdin_handle, Poll_Signal sig_fd] TASK_SHUTDOWN_TIMEOUT_MS \<in>
      {(0, [False, False]), (1, [False, True])}"
    and "wait_others e 0 = (\<lambda>w. w)"
  shows "\<exists>w'. poll_arrays e sig_fd 0 False task_arrays w = Some w' \<and> stdin_up t w' \<and>
    threads w' t = T_Cancelling \<and> \<not> readable w' stdin_handle"
proof -
  obtain ret d s where poll: "wait_poll e 0 [Poll_Done stdin_handle, Poll_Signal sig_fd] TASK_SHUTDOWN_TIMEOUT_MS
      = (ret, [d, s])" "poll_result sig_fd 1 ret [d, s] \<in> {- 1, - 2}"
    using assms(2,6) that [of 0 False False] that [of 1 False True] by (auto simp: poll_result_def)
  obtain w1 where w1: "LOGW main_TAG (if poll_result sig_fd 1 ret [d, s] = - 2
        then ''forced shutdown, cancelling all tasks'' else ''task array '' @ show_nat 0 @ '' timeout, cancelling'') w = Some w1"
      "logged w w1"
    using LOG_wf(2) [OF stdin_up_array(3) [OF up]] by blast
  note same = logged_world [OF w1(2)]
  have up1: "stdin_up t w1" using up same loggedD [OF w1(2)] by (simp add: stdin_up_def)
  note arr = stdin_up_array [OF up1]
  have t: "th_thread (handles w1 stdin_handle) = t" using up1 by (simp add: stdin_up_def)
  have "\<forall>h \<in> set (tasks g_stdin_tasks w1). threads w1 (th_thread (handles w1 h)) \<in> {T_Running, T_Cancelling, T_Exited}"
    using arr(2) t same assms(4) by simp
  from cancel_all_ok [OF arr(3,1) this] obtain w2 where w2: "task_array_cancel_all g_stdin_tasks w1 = Some w2"
      "log_wf w2" "arrays w2 = arrays w1" "handles w2 = handles w1"
      "threads w2 = cancelled (threads_of (handles w1) (tasks g_stdin_tasks w1)) (threads w1)" by blast
  have "stdin_up t w2" using up1 w2 by (simp add: stdin_up_def)
  moreover have "threads w2 t = T_Cancelling"
    using w2(5) arr(2) t same assms(4) by (simp add: cancelled_def threads_of_def)
  moreover have "\<not> readable w2 stdin_handle" using assms(5) same w2(4) by (simp add: readable_def)
  moreover have "poll_arrays e sig_fd 0 False task_arrays w = Some w2"
    using poll_arrays_one [OF up assms(2,3) poll(1)] poll(2) assms(7) w1(1) w2(1)
    by (auto simp: task_arrays_def)
  ultimately show ?thesis by blast
qed

text \<open>
  Shutdown of the tasks when the stdin thread does not react within the timeout (or before a second
  \<open>SIGINT\<close>): \<open>main\<close> sends it a cancel request and does not join it, but frees its buffer, closes its done
  event and destroys its array all the same. A thread that has not yet acted on the request and then gets
  input runs into undefined behaviour.
\<close>
theorem main_frees_under_stuck_task:
  assumes "stdin_up t w" "sig_fd \<ge> 0" "wait_malloc e 16" "threads w t = T_Running"
    and "\<not> readable w stdin_handle"
    and "wait_poll e 0 [Poll_Done stdin_handle, Poll_Signal sig_fd] TASK_SHUTDOWN_TIMEOUT_MS \<in>
      {(0, [False, False]), (1, [False, True])}"
    and "wait_others e 0 = (\<lambda>w. w)"
  shows "\<exists>w'. main_stop_tasks e sig_fd w = Some w' \<and> threads w' t = T_Cancelling \<and>
    arrays w' g_stdin_tasks = dead_array \<and> line (user w') = None \<and>
    th_done_fd (handles w' stdin_handle) = None \<and>
    (\<forall>n d rs. stdin_round n Poll_Ready (Read_Data d # rs) w' = Fails)"
proof -
  obtain w1 w2 where w2: "LOGD main_TAG ''received SIGINT, shutting down...'' w = Some w1"
      "stop_arrays task_arrays w1 = Some w2" "stdin_up t w2" "threads w2 = threads w"
      "th_done_fd (handles w2 stdin_handle) = th_done_fd (handles w stdin_handle)"
    using stop_arrays_ok [OF assms(1)] by blast
  have "threads w2 t = T_Running" "\<not> readable w2 stdin_handle"
    using assms(4,5) w2(4,5) by (simp_all add: readable_def)
  from poll_arrays_gives_up [OF w2(3) assms(2,3) this assms(6,7)]
  obtain w4 where w4: "poll_arrays e sig_fd 0 False task_arrays w2 = Some w4" "stdin_up t w4"
      "threads w4 t = T_Cancelling" "\<not> readable w4 stdin_handle" by blast
  moreover obtain w5 where "destroy_arrays task_arrays w4 = Some w5" "threads w5 = threads w4"
      "arrays w5 = (arrays w4)(g_stdin_tasks := dead_array)" "line (user w5) = None"
      "handles w5 = (handles w4)(stdin_handle := destroyed_handle (handles w4 stdin_handle))"
    using destroy_arrays_ok [OF w4(2)] w4(4) by auto
  ultimately show ?thesis
    using w2(1,2)
    by (simp add: main_stop_tasks_def destroyed_handle_def stdin_round_def stdin_store_def)
qed

theorem main_frees_under_stuck_task_witness:
  "\<exists>w'. main_stop_tasks waits_stuck 3 rt_up = Some w' \<and> threads w' 5 = T_Cancelling \<and> line (user w') = None"
  using main_frees_under_stuck_task [OF rt_up_up, of 3 waits_stuck] rt_up_running rt_up_quiet
  by (auto simp: waits_stuck_def)

text \<open>
  \<open>main\<close> goes on when \<open>stdin_task_init\<close> fails, but its shutdown then locks the mutex of an array that
  does not exist: undefined behaviour with the first \<open>SIGINT\<close>.
\<close>
theorem main_shutdown_without_stdin_task:
  assumes "stdin_not_started env w w'" "ta_lock (arrays w g_stdin_tasks) = Mutex_Dead"
  shows "main_stop_tasks e sig_fd w' = None"
proof -
  have wf: "log_wf w'" and dead: "ta_lock (arrays w' g_stdin_tasks) = Mutex_Dead"
    using assms by (auto simp: stdin_not_started_def dead_array_def)
  obtain w1 where "LOGD main_TAG ''received SIGINT, shutting down...'' w' = Some w1" "logged w' w1"
    using LOG_wf(1) [OF wf] by blast
  with dead show ?thesis
    by (simp add: main_stop_tasks_def task_arrays_def task_array_stop_all_def lock_array_def logged_world)
qed

theorem main_shutdown_without_stdin_task_witness:
  "\<exists>w'. stdin_task_init (rt_env\<lparr>se_eventfd := False\<rparr>) 256 12 rt_sample = Some (- 1, w') \<and>
     main_stop_tasks waits_ok 3 w' = None"
proof -
  obtain w' where "stdin_task_init (rt_env\<lparr>se_eventfd := False\<rparr>) 256 12 rt_sample = Some (- 1, w')"
      "stdin_not_started (rt_env\<lparr>se_eventfd := False\<rparr>) rt_sample w'"
    using stdin_init_fails_early [OF rt_sample_wf, of "rt_env\<lparr>se_eventfd := False\<rparr>" 256 12] by auto
  moreover have "ta_lock (arrays rt_sample g_stdin_tasks) = Mutex_Dead"
    by (simp add: rt_sample_def log_state.defs world.defs dead_array_def)
  ultimately show ?thesis using main_shutdown_without_stdin_task by blast
qed

section \<open>Start and end of the program\<close>

lemma world_of_more:
  assumes "log_state.more w' = log_state.more w"
  shows "handles w' = handles w" "arrays w' = arrays w" "threads w' = threads w" "user w' = user w"
  using assms by (cases w; cases w'; simp)+

lemma main_start_fails:
  assumes "\<not> (me_signalfd env \<and> ie_malloc (me_log env) 19968 \<and> ie_queue_eventfd (me_log env) \<and>
    ie_done_eventfd (me_log env) \<and> ie_create (me_log env) (Some 10) = 0)"
  shows "\<exists>w'. main_start env w = Some (M_Exit 1, w') \<and> threads w' = threads w \<and>
    (\<exists>lines. stderr w' = stderr w @ lines \<and> lines \<noteq> [])"
proof (cases "me_signalfd env")
  case False
  then show ?thesis by (simp add: main_start_def perror_def EXIT_FAILURE_def)
next
  case True
  obtain w1 where "log_task_init (me_log env) LOG_QUEUE_SIZE PRIORITY_LOG_TASK (open_sig_fd w) = Some (- 1, w1)"
      "log_not_started (open_sig_fd w) w1"
    using log_task_init_fails [of LOG_QUEUE_SIZE "me_log env" PRIORITY_LOG_TASK "open_sig_fd w"] assms True
    by (auto simp: LOG_QUEUE_SIZE_def sched_attr_def PRIORITY_LOG_TASK_def)
  with True show ?thesis
    using world_of_more [of w1 "open_sig_fd w"]
    by (auto simp: main_start_def log_not_started_def EXIT_FAILURE_def close_sig_fd_def open_sig_fd_def)
qed

lemma main_start_goes:
  assumes ok: "me_signalfd env" "ie_malloc (me_log env) 19968" "ie_queue_eventfd (me_log env)"
      "ie_done_eventfd (me_log env)" "ie_create (me_log env) (Some 10) = 0"
  shows "\<exists>w2 r w3 w'. log_wf w2 \<and> threads w2 = threads w \<and> arrays w2 = arrays w \<and> user w2 = user (open_sig_fd w) \<and>
    stdin_task_init (me_stdin env) STDIN_LINE_BUF_SIZE PRIORITY_STDIN_TASK w2 = Some (r, w3) \<and>
    main_start env w = Some (M_Next, w') \<and> logged w3 w'"
proof -
  obtain w1 where w1: "log_task_init (me_log env) LOG_QUEUE_SIZE PRIORITY_LOG_TASK (open_sig_fd w) = Some (0, w1)"
      "log_started LOG_QUEUE_SIZE (open_sig_fd w) w1"
    using log_task_init_ok [of LOG_QUEUE_SIZE "me_log env" PRIORITY_LOG_TASK "open_sig_fd w"] ok
    by (auto simp: LOG_QUEUE_SIZE_def sched_attr_def PRIORITY_LOG_TASK_def)
  have wf1: "log_wf w1" "threads w1 = threads w" "arrays w1 = arrays w" "user w1 = user (open_sig_fd w)"
    using w1(2) world_of_more [of w1 "open_sig_fd w"] by (simp_all add: log_started_def open_sig_fd_def)
  obtain w2 where w2: "LOGD main_TAG ''rtsystem started'' w1 = Some w2" "logged w1 w2"
    using LOG_wf(1) [OF wf1(1)] by blast
  note wf2 = loggedD [OF w2(2)]
  obtain r w3 where w3: "stdin_task_init (me_stdin env) STDIN_LINE_BUF_SIZE PRIORITY_STDIN_TASK w2 = Some (r, w3)" "log_wf w3"
    using stdin_init_ok [OF wf2, of "me_stdin env" STDIN_LINE_BUF_SIZE PRIORITY_STDIN_TASK]
      stdin_init_fails_early [OF wf2, of "me_stdin env" STDIN_LINE_BUF_SIZE PRIORITY_STDIN_TASK]
      stdin_init_fails_late [OF wf2, of "me_stdin env" STDIN_LINE_BUF_SIZE PRIORITY_STDIN_TASK]
    by (fastforce simp: stdin_started_def stdin_not_started_def)
  obtain w4 where "(if r \<noteq> 0 then LOGE main_TAG ''failed to initialize stdin_task'' w3 else Some w3) = Some w4" "logged w3 w4"
    using LOG_wf(3) [OF w3(2)] w3(2) by (cases "r = 0") auto
  with ok(1) w1(1) w2 w3 wf1 wf2 show ?thesis
    by (intro exI [of _ w2] exI [of _ r] exI [of _ w3] exI [of _ w4])
      (simp add: main_start_def logged_world)
qed

text \<open>The log task starts; then the stdin task is started or what it has made is undone.\<close>

definition stdin_ok :: "stdin_env \<Rightarrow> bool" where
  "stdin_ok se \<longleftrightarrow> se_calloc se 8 \<and> se_eventfd se \<and> se_malloc se 256 \<and> se_create se (Some 12) = 0"

lemma main_start_stdin:
  assumes "me_signalfd env" "ie_malloc (me_log env) 19968" "ie_queue_eventfd (me_log env)"
    "ie_done_eventfd (me_log env)" "ie_create (me_log env) (Some 10) = 0"
  shows "\<exists>w2 w3 w'. threads w2 = threads w \<and> arrays w2 = arrays w \<and>
    main_start env w = Some (M_Next, w') \<and> logged w3 w' \<and>
    (if stdin_ok (me_stdin env) then stdin_started (me_stdin env) STDIN_LINE_BUF_SIZE w2 w3
     else stdin_not_started (me_stdin env) w2 w3)"
proof -
  let ?se = "me_stdin env"
  obtain w2 r w3 w' where w: "log_wf w2" "threads w2 = threads w" "arrays w2 = arrays w"
      "stdin_task_init ?se STDIN_LINE_BUF_SIZE PRIORITY_STDIN_TASK w2 = Some (r, w3)"
      "main_start env w = Some (M_Next, w')" "logged w3 w'"
    using main_start_goes [OF assms, of w] by blast
  have n: "unat STDIN_LINE_BUF_SIZE = 256" "sched_attr PRIORITY_STDIN_TASK = Some 12"
    by (simp_all add: STDIN_LINE_BUF_SIZE_def sched_attr_def PRIORITY_STDIN_TASK_def)
  have "if stdin_ok ?se then stdin_started ?se STDIN_LINE_BUF_SIZE w2 w3 else stdin_not_started ?se w2 w3"
    using stdin_init_ok [OF w(1), of ?se STDIN_LINE_BUF_SIZE PRIORITY_STDIN_TASK]
      stdin_init_fails_early [OF w(1), of ?se STDIN_LINE_BUF_SIZE PRIORITY_STDIN_TASK]
      stdin_init_fails_late [OF w(1), of ?se STDIN_LINE_BUF_SIZE PRIORITY_STDIN_TASK] w(4) n
    by (auto simp: stdin_ok_def)
  with w show ?thesis by blast
qed

text \<open>
  The start of \<open>main\<close>. It ends with code 1, some lines on \<open>stderr\<close> and no thread of the task helper when
  \<open>signalfd\<close> or the start of the log task fails. Else it goes on to its main loop with the logger usable,
  and the stdin task is up and its thread runs exactly when its four requests succeed.
\<close>
theorem main_start_result:
  "if me_signalfd env \<and> ie_malloc (me_log env) 19968 \<and> ie_queue_eventfd (me_log env) \<and>
     ie_done_eventfd (me_log env) \<and> ie_create (me_log env) (Some 10) = 0
   then \<exists>w'. main_start env w = Some (M_Next, w') \<and> log_wf w' \<and>
     (if se_calloc (me_stdin env) 8 \<and> se_eventfd (me_stdin env) \<and> se_malloc (me_stdin env) 256 \<and>
        se_create (me_stdin env) (Some 12) = 0
      then stdin_up (se_thread (me_stdin env)) w' \<and> threads w' = (threads w)(se_thread (me_stdin env) := T_Running)
      else threads w' = threads w \<and> ta_slots (arrays w' g_stdin_tasks) = Null)
   else \<exists>w'. main_start env w = Some (M_Exit 1, w') \<and> threads w' = threads w \<and>
     (\<exists>lines. stderr w' = stderr w @ lines \<and> lines \<noteq> [])"
proof (cases "me_signalfd env \<and> ie_malloc (me_log env) 19968 \<and> ie_queue_eventfd (me_log env) \<and>
     ie_done_eventfd (me_log env) \<and> ie_create (me_log env) (Some 10) = 0")
  case False
  then show ?thesis using main_start_fails [of env w] by auto
next
  case True
  let ?se = "me_stdin env"
  obtain w2 w3 w' where w: "threads w2 = threads w" "main_start env w = Some (M_Next, w')" "logged w3 w'"
      "if stdin_ok ?se then stdin_started ?se STDIN_LINE_BUF_SIZE w2 w3 else stdin_not_started ?se w2 w3"
    using main_start_stdin [of env w] True by blast
  note same = logged_world [OF w(3)] and wf' = loggedD [OF w(3)]
  have "stdin_up (se_thread ?se) w'" if "stdin_started ?se STDIN_LINE_BUF_SIZE w2 w3"
    using started_up [OF that] same wf' by (simp add: stdin_up_def)
  then have "if stdin_ok ?se then stdin_up (se_thread ?se) w' \<and> threads w' = (threads w)(se_thread ?se := T_Running)
      else threads w' = threads w \<and> ta_slots (arrays w' g_stdin_tasks) = Null"
    using same w(1,4) by (auto simp: stdin_started_def stdin_not_started_def split: if_splits)
  with True w(2) wf' show ?thesis by (auto simp: stdin_ok_def)
qed

text \<open>The log task runs on by itself from where it is in the system \<open>S\<close>.\<close>

definition log_runs :: "(int \<Rightarrow> int \<times> int \<times> int) \<Rightarrow> poll_answer list \<Rightarrow> log_sys \<Rightarrow> rt_world \<Rightarrow> rt_world" where
  "log_runs localtime answers S w = (case log_task_run localtime answers (S\<lparr>ls_state := log_state.truncate w\<rparr>) of
     Some S' \<Rightarrow> log_state.extend (ls_state S') (log_state.more w) | None \<Rightarrow> w)"

lemma main_stop_log_ok:
  assumes sys: "log_sys_inv S" "ls_state S = log_state.truncate w"
    and "\<not> drain_over S" "15 + 2 * length (queued w) \<le> length answers"
  shows "\<exists>S' w'. log_task_run localtime answers (S\<lparr>ls_state := log_task_stop (ls_state S)\<rparr>) = Some S' \<and>
    ls_printed S' = ls_accepted S' \<and> (\<exists>ms. ls_accepted S' = ls_accepted S @ ms) \<and>
    main_stop_log (Inr (1, True, signalled)) (log_runs localtime answers S) (\<lambda>w. w) w = Some (0, w') \<and>
    stderr w' = stderr (ls_state S') \<and> log_thread w' = T_Joined \<and> g_log_done_fd w' = Null \<and>
    q_buffer (g_log_queue w') = Null \<and> q_event_fd (g_log_queue w') = None \<and> handles w' = handles w \<and>
    arrays w' = arrays w \<and> threads w' = threads w \<and> user w' = (user w)\<lparr>sig_fd_open := False\<rparr>"
proof -
  let ?S = "S\<lparr>ls_state := log_task_stop (ls_state S)\<rparr>"
  have inv: "log_sys_inv ?S" using sys(1) by (simp add: log_sys_inv_def log_task_stop_def)
  have q: "queued (ls_state S) = queued w" using sys(2) by (simp add: queued_def log_state.defs)
  have "stopping ?S" using inv by (simp add: stopping_def log_task_stop_def split: log_pc.splits)
  moreover have "\<not> drain_over ?S" using assms(3) by (simp add: drain_over_def)
  moreover have "log_rank ?S \<le> length answers"
    using log_rank_bound [of ?S] assms(4) q by (simp add: log_task_stop_def)
  ultimately obtain S' where S': "log_task_run localtime answers ?S = Some S'" "log_sys_inv S'" "ls_pc S' = LT_Done"
      "queued (ls_state S') = []" "\<exists>ms. ls_accepted S' = ls_accepted ?S @ ms"
    using log_task_run_ends [OF inv, of answers localtime] by blast
  let ?w1 = "log_state.extend (ls_state S') (log_state.more w)"
  have "log_state.truncate (log_task_stop w) = log_task_stop (ls_state S)"
    using sys(2) by (simp add: log_state.defs log_task_stop_def)
  then have "log_runs localtime answers S (log_task_stop w) = ?w1"
    using S'(1) by (simp add: log_runs_def log_task_stop_def)
  moreover have w1: "log_thread ?w1 = T_Exited" "g_log_queue ?w1 = g_log_queue (ls_state S')"
      "stderr ?w1 = stderr (ls_state S')" "g_log_done_fd ?w1 = Valid \<lparr>efd_count = 1, efd_semaphore = False\<rparr>"
      "log_state.more ?w1 = log_state.more w"
    using S'(2,3) by (simp_all add: log_state.defs log_sys_inv_def done_signalled_def)
  moreover have "fq_wf (g_log_queue (ls_state S'))" using S'(2) by (simp add: log_sys_inv_def log_wf_def)
  ultimately show ?thesis
    using S' fq_destroy_wf [of "g_log_queue (ls_state S')"] world_of_more [OF w1(5)]
    by (auto simp: main_stop_log_def log_task_join_def log_task_cleanup_def log_queue_destroy_def
        EXIT_SUCCESS_def log_sys_inv_def close_sig_fd_def)
qed

text \<open>
  C11: the end of \<open>main\<close>. Whatever the log task was doing before its final drain ended, \<open>main\<close> clears
  \<open>g_log_running\<close>, the log task then reaches its end within 15 steps and two for each queued message, and
  \<open>main\<close> joins it, destroys the queue and returns 0. Everything that the queue had accepted was printed
  before.
\<close>
theorem main_stops_log_task:
  assumes "0 < queue_size" "unat queue_size \<le> 2 ^ 32"
    and "log_task_init env queue_size priority s = Some (0, s0)"
    and "log_reach localtime (log_sys_init s0) (Some S)" "ls_state S = log_state.truncate w"
    and "\<not> drain_over S" "15 + 2 * length (queued w) \<le> length answers"
  shows "\<exists>S' w'. log_task_run localtime answers (S\<lparr>ls_state := log_task_stop (ls_state S)\<rparr>) = Some S' \<and>
    ls_printed S' = ls_accepted S' \<and> (\<exists>ms. ls_accepted S' = ls_accepted S @ ms) \<and>
    main_stop_log (Inr (1, True, signalled)) (log_runs localtime answers S) (\<lambda>w. w) w = Some (0, w') \<and>
    stderr w' = stderr (ls_state S') \<and> log_thread w' = T_Joined \<and> g_log_done_fd w' = Null \<and>
    q_buffer (g_log_queue w') = Null \<and> q_event_fd (g_log_queue w') = None \<and> handles w' = handles w \<and>
    \<not> sig_fd_open (user w')"
  using main_stop_log_ok [OF _ assms(5-7)] log_reach_inv [OF assms(4) log_task_init_inv [OF assms(1-3)]]
  by fastforce

definition rt_logging :: rt_world where
  "rt_logging = log_state.extend log_s0 (log_state.more rt_sample)"

theorem main_stops_log_task_witness:
  "\<exists>w'. main_stop_log (Inr (1, True, False)) (log_runs utc (replicate 15 Poll_Timeout) (log_sys_init log_s0)) (\<lambda>w. w)
     rt_logging = Some (0, w') \<and> log_thread w' = T_Joined"
proof -
  have "ls_state (log_sys_init log_s0) = log_state.truncate rt_logging"
    by (simp add: log_sys_init_def rt_logging_def log_state.defs)
  moreover have "\<not> drain_over (log_sys_init log_s0)" by (simp add: drain_over_def log_sys_init_def)
  moreover have "queued rt_logging = []"
    using log_s0_started by (simp add: rt_logging_def queued_def log_started_def log_state.defs)
  ultimately show ?thesis
    using main_stops_log_task [where localtime = utc and w = rt_logging and signalled = False and
        answers = "replicate 15 Poll_Timeout", OF _ _ log_s0_init act_reach.start]
    by auto
qed

end
