(* ===== verification/Log_Calls.thy ===== *)
theory Log_Calls
  imports Rt_Main
begin

text \<open>
  Every operation of \<open>task_helper.c\<close>, \<open>stdin_task.c\<close> and \<open>main.c\<close> touches the logger only by calls of the log
  macro: if it returns, the logger's state has changed by a sequence of such calls. So what one thread does in
  the world of tasks is a sequence of steps of the system of \<open>Log_Task\<close>.
\<close>

section \<open>Sequences of log calls\<close>

inductive log_calls :: "log_state \<Rightarrow> log_state \<Rightarrow> bool" where
  none: "log_calls s s"
| call: "log_calls s s1 \<Longrightarrow> 0 \<le> level \<Longrightarrow> level < 4 \<Longrightarrow> ALOG LOG_LEVEL_DEBUG level tag msg s1 = Some s2 \<Longrightarrow> log_calls s s2"

definition only_logs :: "'u world \<Rightarrow> 'u world \<Rightarrow> bool" where
  "only_logs w w' \<longleftrightarrow> log_calls (log_state.truncate w) (log_state.truncate w')"

lemma truncate_ALOG_send:
  assumes "ALOG_send tag m w = Some w'"
  shows "ALOG_send tag m (log_state.truncate w) = Some (log_state.truncate w')"
proof -
  obtain r q where "fifo_queue_send (g_log_queue w) m = Some (r, q)"
    using assms by (auto simp: ALOG_send_def Option.bind_eq_Some_conv)
  then show ?thesis
    using assms by (cases "r = 0") (auto simp: ALOG_send_def Let_def write_stderr_def log_state.defs)
qed

lemma truncate_ALOG_begin:
  "ALOG_begin level tag msg (log_state.truncate w) =
     (fst (ALOG_begin level tag msg w), log_state.truncate (snd (ALOG_begin level tag msg w)))"
  by (simp add: ALOG_begin_def Let_def write_stderr_def log_state.defs)

lemma truncate_ALOG:
  assumes "ALOG threshold level tag msg w = Some w'"
  shows "ALOG threshold level tag msg (log_state.truncate w) = Some (log_state.truncate w')"
  using assms truncate_ALOG_send by (auto simp: ALOG_def truncate_ALOG_begin split: if_splits prod.splits)

lemma truncate_world [simp]:
  fixes w :: "'u world"
  shows "log_state.truncate (w\<lparr>handles := hs\<rparr>) = log_state.truncate w"
    "log_state.truncate (w\<lparr>arrays := as\<rparr>) = log_state.truncate w"
    "log_state.truncate (w\<lparr>threads := ts\<rparr>) = log_state.truncate w"
    "log_state.truncate (w\<lparr>user := u\<rparr>) = log_state.truncate w"
  by (simp_all add: log_state.defs)

lemma only_logs_refl [simp, intro]: "only_logs w w"
  by (simp add: only_logs_def log_calls.none)

lemma only_logs_frame [simp]:
  "only_logs v (w\<lparr>handles := hs\<rparr>) = only_logs v w" "only_logs v (w\<lparr>arrays := as\<rparr>) = only_logs v w"
  "only_logs v (w\<lparr>threads := ts\<rparr>) = only_logs v w" "only_logs v (w\<lparr>user := u\<rparr>) = only_logs v w"
  "only_logs v (set_handle h t w) = only_logs v w" "only_logs v (set_array a x w) = only_logs v w"
  by (simp_all add: only_logs_def set_handle_def set_array_def)

lemma only_logs_put_line [simp]: "only_logs v (put_line l w) = only_logs v w"
  by (simp add: put_line_def)

text \<open>The rules take the last operation off: they are used with \<open>erule\<close>, from the end of an operation to its start.\<close>

named_theorems only_logs_rules \<open>operations that touch the logger only by log calls\<close>

lemma only_logs_ALOG:
  assumes "ALOG LOG_LEVEL_DEBUG level tag msg w = Some w'" "0 \<le> level" "level < 4" "only_logs v w"
  shows "only_logs v w'"
  using assms truncate_ALOG log_calls.call unfolding only_logs_def by blast

lemma only_logs_LOG [only_logs_rules]:
  "LOGD tag msg w = Some w' \<Longrightarrow> only_logs v w \<Longrightarrow> only_logs v w'"
  "LOGW tag msg w = Some w' \<Longrightarrow> only_logs v w \<Longrightarrow> only_logs v w'"
  "LOGE tag msg w = Some w' \<Longrightarrow> only_logs v w \<Longrightarrow> only_logs v w'"
  "LOGW_ERRNO tag msg err w = Some w' \<Longrightarrow> only_logs v w \<Longrightarrow> only_logs v w'"
  "LOGE_ERRNO tag msg err w = Some w' \<Longrightarrow> only_logs v w \<Longrightarrow> only_logs v w'"
  unfolding LOGD_def LOGW_def LOGE_def LOGW_ERRNO_def LOGE_ERRNO_def
  by (erule only_logs_ALOG; simp add: log_levels)+

section \<open>Arrays and handles\<close>

lemma only_logs_array [only_logs_rules]:
  "lock_array a w = Some w' \<Longrightarrow> only_logs v w \<Longrightarrow> only_logs v w'"
  "unlock_array a w = Some w' \<Longrightarrow> only_logs v w \<Longrightarrow> only_logs v w'"
  "put_slot a i p w = Some w' \<Longrightarrow> only_logs v w \<Longrightarrow> only_logs v w'"
  "pthread_join t w = Some w' \<Longrightarrow> only_logs v w \<Longrightarrow> only_logs v w'"
  "pthread_cancel t w = Some w' \<Longrightarrow> only_logs v w \<Longrightarrow> only_logs v w'"
  by (auto simp: lock_array_def unlock_array_def put_slot_def pthread_join_def pthread_cancel_def
      split: if_splits ptr.splits thread_status.splits)

lemma only_logs_add [only_logs_rules]:
  "task_array_add a h w = Some (r, w') \<Longrightarrow> only_logs v w \<Longrightarrow> only_logs v w'"
  by (auto simp: task_array_add_def Option.bind_eq_Some_conv split: option.splits)
    (erule only_logs_rules | simp)+

lemma only_logs_remove [only_logs_rules]:
  "task_array_remove a h w = Some (r, w') \<Longrightarrow> only_logs v w \<Longrightarrow> only_logs v w'"
  by (auto simp: task_array_remove_def Option.bind_eq_Some_conv split: option.splits)
    (erule only_logs_rules | simp)+

lemma only_logs_array_life [only_logs_rules]:
  "task_array_init calloc a capacity w = Some (r, w') \<Longrightarrow> only_logs v w \<Longrightarrow> only_logs v w'"
  "task_array_destroy a w = Some w' \<Longrightarrow> only_logs v w \<Longrightarrow> only_logs v w'"
  by (auto simp: task_array_init_def task_array_destroy_def Option.bind_eq_Some_conv split: if_splits)
    (erule only_logs_rules | simp)+

lemma only_logs_handle [only_logs_rules]:
  "task_handle_init ok err h name w = Some (r, w') \<Longrightarrow> only_logs v w \<Longrightarrow> only_logs v w'"
  "task_handle_mark_done h w = Some w' \<Longrightarrow> only_logs v w \<Longrightarrow> only_logs v w'"
  "task_handle_destroy h w = Some w' \<Longrightarrow> only_logs v w \<Longrightarrow> only_logs v w'"
  by (auto simp: task_handle_init_def task_handle_mark_done_def task_handle_destroy_def Let_def Option.bind_eq_Some_conv
      split: if_splits option.splits)
    (erule only_logs_rules | simp)+

lemma only_logs_task [only_logs_rules]:
  "task_join h w = Some w' \<Longrightarrow> only_logs v w \<Longrightarrow> only_logs v w'"
  "task_cancel h w = Some w' \<Longrightarrow> only_logs v w \<Longrightarrow> only_logs v w'"
  by (auto simp: task_join_def task_cancel_def Option.bind_eq_Some_conv) (erule only_logs_rules | simp)+

section \<open>Loops over the slots\<close>

lemma for_up_only_logs:
  assumes "\<And>i t t'. f i t = Some t' \<Longrightarrow> only_logs v (snd t) \<Longrightarrow> only_logs v (snd t')"
    and "for_up n i f s = Some s'" "only_logs v (snd s)"
  shows "only_logs v (snd s')"
  using assms(2,3) by (induction n arbitrary: i s) (auto split: option.splits dest: assms(1))

lemma slots_loop_only_logs:
  assumes "\<And>i h c w c' w'. body i h (c, w) = Some (c', w') \<Longrightarrow> only_logs v w \<Longrightarrow> only_logs v w'"
    and "slots_loop a body (c, w) = Some (c', w')" "only_logs v w"
  shows "only_logs v w'"
proof -
  have "only_logs v (snd t')" if "each_task a body i t = Some t'" "only_logs v (snd t)" for i t t'
    using that assms(1) by (cases t; cases t') (auto simp: each_task_def split: option.splits)
  from for_up_only_logs [where f = "each_task a body", OF this] show ?thesis
    using assms(2,3) by (fastforce simp: slots_loop_def)
qed

lemma only_logs_bodies:
  "cancel_body i h (c, w) = Some (c', w') \<Longrightarrow> only_logs v w \<Longrightarrow> only_logs v w'"
  "join_body i h (js, w) = Some (js', w') \<Longrightarrow> only_logs v w \<Longrightarrow> only_logs v w'"
  "count_body i h (c, w) = Some (c', w') \<Longrightarrow> only_logs v w \<Longrightarrow> only_logs v w'"
  "collect_body i h (fds, w) = Some (fds', w') \<Longrightarrow> only_logs v w \<Longrightarrow> only_logs v w'"
  by (auto simp: cancel_body_def join_body_def count_body_def collect_body_def Option.bind_eq_Some_conv
      split: if_splits prod.splits)
    (erule only_logs_rules | simp)+

lemma only_logs_loops [only_logs_rules]:
  "slots_loop a cancel_body (c, w) = Some (c', w') \<Longrightarrow> only_logs v w \<Longrightarrow> only_logs v w'"
  "slots_loop a join_body (js, w) = Some (js', w') \<Longrightarrow> only_logs v w \<Longrightarrow> only_logs v w'"
  "slots_loop a count_body (c, w) = Some (c', w') \<Longrightarrow> only_logs v w \<Longrightarrow> only_logs v w'"
  "slots_loop a collect_body (fds, w) = Some (fds', w') \<Longrightarrow> only_logs v w \<Longrightarrow> only_logs v w'"
  by (erule slots_loop_only_logs [rotated 1], assumption, erule only_logs_bodies, assumption)+

lemma only_logs_cancel_all [only_logs_rules]:
  "task_array_cancel_all a w = Some w' \<Longrightarrow> only_logs v w \<Longrightarrow> only_logs v w'"
  by (auto simp: task_array_cancel_all_def Option.bind_eq_Some_conv) (erule only_logs_rules | simp)+

lemma only_logs_join_all [only_logs_rules]:
  "task_array_join_all a w = Some w' \<Longrightarrow> only_logs v w \<Longrightarrow> only_logs v w'"
  by (auto simp: task_array_join_all_def Option.bind_eq_Some_conv split: if_splits) (erule only_logs_rules | simp)+

lemma case_pair_Some: "(case p of (r, s) \<Rightarrow> Some (f r s, w)) = Some (f (fst p) (snd p), w)"
  by (simp add: case_prod_unfold)

lemma only_logs_poll_all [only_logs_rules]:
  "task_array_poll_all malloc poll a sig_fd timeout_ms w = Some (r, w') \<Longrightarrow> only_logs v w \<Longrightarrow> only_logs v w'"
  by (auto simp: task_array_poll_all_def Option.bind_eq_Some_conv case_pair_Some split: if_splits)
    (erule only_logs_rules | simp)+

section \<open>Operations with callbacks\<close>

lemma only_logs_callback [only_logs_rules]:
  "rt_callback c h w = Some w' \<Longrightarrow> only_logs v w \<Longrightarrow> only_logs v w'"
  by (auto simp: rt_callback_def stdin_cleanup_def split: option.splits) (erule only_logs_rules | simp)+

lemma only_logs_stop [only_logs_rules]:
  "task_stop rt_callback h w = Some w' \<Longrightarrow> only_logs v w \<Longrightarrow> only_logs v w'"
  by (auto simp: task_stop_def Option.bind_eq_Some_conv split: option.splits) (erule only_logs_rules | simp)+

lemma only_logs_callback_bodies:
  "stop_body rt_callback i h (c, w) = Some (c', w') \<Longrightarrow> only_logs v w \<Longrightarrow> only_logs v w'"
  "destroy_body rt_callback a i h (c, w) = Some (c', w') \<Longrightarrow> only_logs v w \<Longrightarrow> only_logs v w'"
  by (auto simp: stop_body_def destroy_body_def Option.bind_eq_Some_conv split: option.splits)
    (erule only_logs_rules | simp)+

lemma only_logs_callback_loops [only_logs_rules]:
  "slots_loop b (stop_body rt_callback) (c, w) = Some (c', w') \<Longrightarrow> only_logs v w \<Longrightarrow> only_logs v w'"
  "slots_loop b (destroy_body rt_callback a) (c, w) = Some (c', w') \<Longrightarrow> only_logs v w \<Longrightarrow> only_logs v w'"
  by (erule slots_loop_only_logs [rotated 1], assumption, erule only_logs_callback_bodies, assumption)+

lemma only_logs_all [only_logs_rules]:
  "task_array_stop_all rt_callback a w = Some w' \<Longrightarrow> only_logs v w \<Longrightarrow> only_logs v w'"
  "task_array_handles_destroy_all rt_callback a w = Some w' \<Longrightarrow> only_logs v w \<Longrightarrow> only_logs v w'"
  by (auto simp: task_array_stop_all_def task_array_handles_destroy_all_def Option.bind_eq_Some_conv)
    (erule only_logs_rules | simp)+

section \<open>The stdin task\<close>

lemma bind_SomeE:
  assumes "Option.bind m f = Some r"
  obtains x where "m = Some x" "f x = Some r"
  using assms by (cases m) auto

lemma only_logs_stdin_init [only_logs_rules]:
  "stdin_task_init env n priority w = Some (r, w') \<Longrightarrow> only_logs v w \<Longrightarrow> only_logs v w'"
  unfolding stdin_task_init_def Let_def
  by (clarsimp elim!: bind_SomeE split: if_split_asm)
    (erule only_logs_rules | clarsimp elim!: bind_SomeE split: if_split_asm | simp)+

lemma only_logs_stdin_end [only_logs_rules]:
  "stdin_end w = Some w' \<Longrightarrow> only_logs v w \<Longrightarrow> only_logs v w'"
  by (auto simp: stdin_end_def Option.bind_eq_Some_conv) (erule only_logs_rules | simp)+

lemma only_logs_stdin_store:
  "check_overflow n d rs w = Goes (rs', w') \<Longrightarrow> only_logs v w \<Longrightarrow> only_logs v w'"
  "log_input d w = Goes w' \<Longrightarrow> only_logs v w \<Longrightarrow> only_logs v w'"
  by (auto simp: check_overflow_def log_input_def Let_def Option.bind_eq_Some_conv
      split: if_splits option.splits progress.splits)
    (erule only_logs_rules | simp)+

lemma only_logs_stdin_round:
  "stdin_round n p rs w = Goes (rs', w') \<Longrightarrow> only_logs v w \<Longrightarrow> only_logs v w'"
  by (auto simp: stdin_round_def stdin_store_def split: poll_answer.splits option.splits list.splits
      read_answer.splits progress.splits prod.splits)
    (erule only_logs_rules only_logs_stdin_store | simp)+

lemma only_logs_stdin_loop:
  "stdin_loop n polls rs w = Goes (b, rs', w') \<Longrightarrow> only_logs v w \<Longrightarrow> only_logs v w'"
proof (induction n polls rs w rule: stdin_loop.induct)
  case (1 n polls rs w)
  show ?case
  proof (cases "stdin_running w")
    case False
    with 1(2,3) show ?thesis
      by (auto simp: stdin_loop.simps [of n polls rs w] split: option.splits elim: only_logs_stdin_end)
  next
    case True
    show ?thesis
    proof (cases polls)
      case Nil
      with True 1(2,3) show ?thesis by (simp add: stdin_loop.simps [of n "[]" rs w])
    next
      case (Cons p ps)
      with True 1(2) obtain rs1 w1 where r: "stdin_round n p rs w = Goes (rs1, w1)"
          "stdin_loop n ps rs1 w1 = Goes (b, rs', w')"
        by (auto simp: stdin_loop.simps [of n "p # ps" rs w] split: progress.splits)
      show ?thesis
        using 1(1) [OF _ Cons r(1) refl r(2)] True only_logs_stdin_round [OF r(1) 1(3)] by simp
    qed
  qed
qed

lemma only_logs_stdin_runs: "only_logs v w \<Longrightarrow> only_logs v (stdin_runs n polls rs w)"
  by (auto simp: stdin_runs_def split: progress.splits intro: only_logs_stdin_loop)

section \<open>The main program\<close>

lemma only_logs_stop_arrays [only_logs_rules]:
  "stop_arrays as w = Some w' \<Longrightarrow> only_logs v w \<Longrightarrow> only_logs v w'"
proof (induction as arbitrary: w)
  case (Cons a as)
  then obtain w1 where "task_array_stop_all rt_callback a w = Some w1" "stop_arrays as w1 = Some w'"
    by (auto simp: Option.bind_eq_Some_conv)
  then show ?case using Cons.IH only_logs_all(1) [OF _ Cons.prems(2)] by metis
qed simp

lemma only_logs_destroy_arrays [only_logs_rules]:
  "destroy_arrays as w = Some w' \<Longrightarrow> only_logs v w \<Longrightarrow> only_logs v w'"
proof (induction as arbitrary: w)
  case (Cons a as)
  then obtain w1 w2 w3 where "task_array_join_all a w = Some w1"
      "task_array_handles_destroy_all rt_callback a w1 = Some w2" "task_array_destroy a w2 = Some w3"
      "destroy_arrays as w3 = Some w'"
    by (auto simp: Option.bind_eq_Some_conv)
  then have "only_logs v w3" using Cons.prems(2) by - (erule only_logs_rules)+
  then show ?case using Cons.IH \<open>destroy_arrays as w3 = Some w'\<close> by blast
qed simp

section \<open>Log calls as steps of the system\<close>

text \<open>
  Thread 0 of the system of \<open>Log_Task\<close> makes the calls, one after the other, from a state in which it is not
  in the middle of one; the log task does not move.
\<close>

lemma log_reach_calls:
  assumes "log_calls s s'" "log_reach localtime S0 (Some S)" "ls_state S = s" "ls_pending S 0 = None"
  shows "\<exists>S'. log_reach localtime S0 (Some S') \<and> ls_state S' = s' \<and> ls_pending S' = ls_pending S \<and>
    ls_pc S' = ls_pc S \<and> ls_printed S' = ls_printed S \<and> (\<exists>ms. ls_accepted S' = ls_accepted S @ ms)"
  using assms
proof (induction rule: log_calls.induct)
  case (none s)
  then show ?case by (intro exI [of _ S]) simp
next
  case (call s s1 level tag msg s2)
  from call.IH [OF call.prems] obtain S1 where S1: "log_reach localtime S0 (Some S1)" "ls_state S1 = s1" "ls_pending S1 = ls_pending S"
      "ls_pc S1 = ls_pc S" "ls_printed S1 = ls_printed S" "\<exists>ms. ls_accepted S1 = ls_accepted S @ ms" by blast
  obtain m s1' where m: "ALOG_begin level tag msg s1 = (m, s1')" by fastforce
  have send: "ALOG_send tag m s1' = Some s2"
    using call.hyps(2-4) m by (simp add: ALOG_def log_levels)
  let ?S2 = "S1\<lparr>ls_state := s1', ls_pending := (ls_pending S1)(0 := Some (tag, m))\<rparr>"
  have "log_enabled (Act_Begin 0 level tag msg) S1" using call.hyps(2,3) call.prems(3) S1(3) by (simp add: log_enabled_def)
  from act_reach.step [OF S1(1) this] have "log_reach localtime S0 (Some ?S2)"
    using m S1(2) by (simp add: log_act_def)
  moreover have "log_enabled (Act_Send 0) ?S2" by (simp add: log_enabled_def)
  moreover have "\<exists>ms. log_act localtime (Act_Send 0) ?S2 = Some (S1\<lparr>ls_state := s2, ls_accepted := ls_accepted S1 @ ms,
      ls_pending := (ls_pending S1)(0 := None)\<rparr>)"
    using send by (auto simp: log_act_def sys_send_def)
  ultimately obtain ms where reach: "log_reach localtime S0 (Some (S1\<lparr>ls_state := s2, ls_accepted := ls_accepted S1 @ ms,
      ls_pending := (ls_pending S1)(0 := None)\<rparr>))"
    using act_reach_step by fast
  have "(ls_pending S1)(0 := None) = ls_pending S" using S1(3) call.prems(3) by auto
  then show ?case using S1(4-6) reach by fastforce
qed

end
