(* ===== verification/Rt_Program.thy ===== *)
theory Rt_Program
  imports Log_Calls
begin

text \<open>
  The whole of \<open>main\<close> in \<open>rtsystem/src/main/main.c\<close>: its parts from \<open>Rt_Main\<close> one after the other, and the run
  from the start to the return, with the stdin thread and the log task beside it.
\<close>

section \<open>The function main\<close>

text \<open>
  \<open>meanwhile\<close> is what the other threads do while \<open>main\<close> waits for signals, in all; the other arguments are those
  of the parts. The mask of the signals is set before; \<open>sig_fd\<close> is what \<open>signalfd\<close> returns.
\<close>

definition rt_main :: "main_env \<Rightarrow> int \<Rightarrow> (rt_world \<Rightarrow> rt_world) \<Rightarrow> signal_answer list \<Rightarrow> waits
    \<Rightarrow> string + int \<times> bool \<times> bool \<Rightarrow> (rt_world \<Rightarrow> rt_world) \<Rightarrow> (rt_world \<Rightarrow> rt_world)
    \<Rightarrow> rt_world \<Rightarrow> (main_at \<times> rt_world) option" where
  "rt_main env sig_fd meanwhile signals e answer others ending w = do {
     (at, w1) \<leftarrow> main_start env w;
     if at \<noteq> M_Next then Some (at, w1)
     else do {
       (at, w2) \<leftarrow> main_loop signals (meanwhile w1);
       if at \<noteq> M_Next then Some (at, w2)
       else do {
         w3 \<leftarrow> main_stop_tasks e sig_fd w2;
         (k, w4) \<leftarrow> main_stop_log answer others ending w3;
         Some (M_Exit k, w4)
       }
     }
   }"

section \<open>The parts and the logger\<close>

lemma main_loop_next:
  "\<exists>u. main_loop (replicate k Sig_None @ Sig_Received # as) w = Some (M_Next, w\<lparr>user := u\<rparr>) \<and> line u = line (user w)"
proof (cases "g_running (user w)")
  case True
  then have "main_loop (replicate k Sig_None @ Sig_Received # as) w =
      Some (M_Next, w\<lparr>user := (user w)\<lparr>g_sigint_count := g_sigint_count (user w) + 1, g_running := False,
        rt_stdout := rt_stdout (user w) @ [newline]\<rparr>\<rparr>)"
    by (induction k) (simp_all add: main_loop.simps)
  then show ?thesis by auto
next
  case False
  then show ?thesis by (intro exI [of _ "user w"]) (simp add: main_loop.simps)
qed

lemma stdin_up_user: "stdin_up t (w\<lparr>user := u\<rparr>) = stdin_up t w"
  by (simp add: stdin_up_def)

lemma only_logs_main_stop_tasks:
  assumes "main_stop_tasks e sig_fd w = Some w'" "only_logs v w"
    and others: "\<And>w. only_logs v w \<Longrightarrow> only_logs v (wait_others e 0 w)"
  shows "only_logs v w'"
proof -
  obtain w1 w2 w3 where w: "LOGD main_TAG ''received SIGINT, shutting down...'' w = Some w1"
      "stop_arrays task_arrays w1 = Some w2" "poll_arrays e sig_fd 0 False task_arrays w2 = Some w3"
      "destroy_arrays task_arrays w3 = Some w'"
    using assms(1) by (auto simp: main_stop_tasks_def Option.bind_eq_Some_conv)
  have v2: "only_logs v w2"
    using only_logs_stop_arrays [OF w(2) only_logs_LOG(1) [OF w(1) assms(2)]] .
  obtain r w0 where r: "task_array_poll_all (wait_malloc e) (wait_poll e 0) g_stdin_tasks sig_fd
      TASK_SHUTDOWN_TIMEOUT_MS w2 = Some (r, w0)"
    using w(3) by (auto simp: task_arrays_def Option.bind_eq_Some_conv)
  have "only_logs v (wait_others e 0 w0)" using others only_logs_poll_all [OF r v2] .
  with w(3) r have "only_logs v w3"
    by (auto simp: task_arrays_def Option.bind_eq_Some_conv Let_def split: if_splits)
      (erule only_logs_rules | simp)+
  then show ?thesis by (rule only_logs_destroy_arrays [OF w(4)])
qed

definition main_requests_ok :: "main_env \<Rightarrow> bool" where
  "main_requests_ok env \<longleftrightarrow> me_signalfd env \<and> ie_malloc (me_log env) 19968 \<and> ie_queue_eventfd (me_log env) \<and>
     ie_done_eventfd (me_log env) \<and> ie_create (me_log env) (Some 10) = 0 \<and>
     se_calloc (me_stdin env) 8 \<and> se_eventfd (me_stdin env) \<and> se_malloc (me_stdin env) 256 \<and>
     se_create (me_stdin env) (Some 12) = 0"

text \<open>The stdin thread has been created and has not run yet.\<close>

definition stdin_fresh :: "nat \<Rightarrow> rt_world \<Rightarrow> rt_world \<Rightarrow> bool" where
  "stdin_fresh t w w1 \<longleftrightarrow> line (user w1) = Some (replicate (unat STDIN_LINE_BUF_SIZE) None) \<and>
     buf_size_arg (user w1) = STDIN_LINE_BUF_SIZE \<and> threads w1 t = T_Running \<and>
     \<not> readable w1 stdin_handle \<and> g_running (user w1) = g_running (user w)"

lemma main_start_up:
  assumes "main_requests_ok env"
  shows "\<exists>w0 w1. log_task_init (me_log env) LOG_QUEUE_SIZE PRIORITY_LOG_TASK (open_sig_fd w) = Some (0, w0) \<and>
    log_started LOG_QUEUE_SIZE (open_sig_fd w) w0 \<and> only_logs w0 w1 \<and>
    main_start env w = Some (M_Next, w1) \<and> stdin_up (se_thread (me_stdin env)) w1 \<and>
    stdin_fresh (se_thread (me_stdin env)) w w1"
proof -
  let ?se = "me_stdin env"
  note ok = assms [unfolded main_requests_ok_def]
  obtain w0 where w0: "log_task_init (me_log env) LOG_QUEUE_SIZE PRIORITY_LOG_TASK (open_sig_fd w) = Some (0, w0)"
      "log_started LOG_QUEUE_SIZE (open_sig_fd w) w0"
    using log_task_init_ok [of LOG_QUEUE_SIZE "me_log env" PRIORITY_LOG_TASK "open_sig_fd w"] ok
    by (auto simp: LOG_QUEUE_SIZE_def sched_attr_def PRIORITY_LOG_TASK_def)
  obtain w2 r w3 w1 where w: "log_wf w2" "user w2 = user (open_sig_fd w)"
      "stdin_task_init ?se STDIN_LINE_BUF_SIZE PRIORITY_STDIN_TASK w2 = Some (r, w3)"
      "main_start env w = Some (M_Next, w1)" "logged w3 w1"
    using main_start_goes [of env w] ok by blast
  have started: "stdin_started ?se STDIN_LINE_BUF_SIZE w2 w3"
    using stdin_init_ok [OF w(1), of ?se STDIN_LINE_BUF_SIZE PRIORITY_STDIN_TASK] w(3) ok
    by (auto simp: STDIN_LINE_BUF_SIZE_def sched_attr_def PRIORITY_STDIN_TASK_def)
  from started_up [OF this] have "stdin_up (se_thread ?se) w1"
    using logged_world [OF w(5)] loggedD [OF w(5)] by (simp add: stdin_up_def)
  moreover have "stdin_fresh (se_thread ?se) w w1"
    using started logged_world [OF w(5)] w(2)
    by (simp add: stdin_fresh_def stdin_started_def readable_def efd_readable_def open_sig_fd_def)
  moreover have "only_logs w0 w1"
  proof -
    obtain v2 r v3 where v: "LOGD main_TAG ''rtsystem started'' w0 = Some v2"
        "stdin_task_init ?se STDIN_LINE_BUF_SIZE PRIORITY_STDIN_TASK v2 = Some (r, v3)"
        "(if r \<noteq> 0 then LOGE main_TAG ''failed to initialize stdin_task'' v3 else Some v3) = Some w1"
      using w(4) w0(1) ok by (auto simp: main_start_def Option.bind_eq_Some_conv)
    have "only_logs w0 v3" using v(1,2) by - (erule only_logs_rules | rule only_logs_refl)+
    with v(3) show ?thesis by (cases "r = 0") (auto intro: only_logs_LOG)
  qed
  ultimately show ?thesis using w0 w(4) by blast
qed

text \<open>
  The world and the system of \<open>Log_Task\<close> agree: the logger's state is the same, and \<open>main\<close>, thread 0, is not in
  the middle of a log call. The log task has not finished its last round.
\<close>

definition in_step :: "log_sys \<Rightarrow> rt_world \<Rightarrow> bool" where
  "in_step S w \<longleftrightarrow> ls_state S = log_state.truncate w \<and> ls_pending S 0 = None \<and> \<not> drain_over S"

text \<open>
  What is asked of the other threads while \<open>main\<close> waits for a signal: what they do to the logger is a run of the
  system, and they leave the stdin task registered.
\<close>

definition others_run :: "(int \<Rightarrow> int \<times> int \<times> int) \<Rightarrow> nat \<Rightarrow> (rt_world \<Rightarrow> rt_world) \<Rightarrow> bool" where
  "others_run localtime t meanwhile \<longleftrightarrow> (\<forall>S0 S w. log_sys_inv S0 \<and> log_reach localtime S0 (Some S) \<and> in_step S w \<and> stdin_up t w \<longrightarrow>
     (\<exists>S'. log_reach localtime S0 (Some S') \<and> in_step S' (meanwhile w) \<and> stdin_up t (meanwhile w)))"

lemma in_step_calls:
  assumes "only_logs w w'" "log_reach localtime S0 (Some S)" "in_step S w"
  shows "\<exists>S'. log_reach localtime S0 (Some S') \<and> in_step S' w'"
  using log_reach_calls [OF _ assms(2), of "log_state.truncate w" "log_state.truncate w'"] assms(1,3)
  unfolding only_logs_def in_step_def drain_over_def by fastforce

section \<open>From the start to the return\<close>

lemma started_system:
  assumes "log_started queue_size s s0"
  shows "log_sys_inv (log_sys_init (log_state.truncate s0))" "in_step (log_sys_init (log_state.truncate s0)) s0"
proof -
  have "queued s0 = []" "log_wf s0" "done_signalled s0 False" using assms by (simp_all add: log_started_def)
  then show "log_sys_inv (log_sys_init (log_state.truncate s0))"
    by (simp add: log_sys_inv_def log_sys_init_def log_wf_def queued_def done_signalled_def log_state.defs)
  show "in_step (log_sys_init (log_state.truncate s0)) s0"
    by (simp add: in_step_def log_sys_init_def drain_over_def)
qed

section \<open>What the stdin thread does meanwhile\<close>

lemma ALOG_more: "ALOG threshold level tag msg w = Some w' \<Longrightarrow> log_state.more w' = log_state.more w"
  by (auto simp: ALOG_def ALOG_begin_def ALOG_send_def Let_def write_stderr_def Option.bind_eq_Some_conv split: if_splits)

lemma LOG_more:
  "LOGD tag msg w = Some w' \<Longrightarrow> log_state.more w' = log_state.more w"
  "LOGW tag msg w = Some w' \<Longrightarrow> log_state.more w' = log_state.more w"
  "LOGW_ERRNO tag msg err w = Some w' \<Longrightarrow> log_state.more w' = log_state.more w"
  by (auto simp: LOGD_def LOGW_def LOGW_ERRNO_def dest: ALOG_more)

lemmas LOG_world = LOG_more [THEN world_of_more(1)] LOG_more [THEN world_of_more(2)]

lemma stdin_round_world:
  "stdin_round n p rs w = Goes (rs', w') \<Longrightarrow> handles w' = handles w \<and> arrays w' = arrays w"
  by (auto simp: stdin_round_def stdin_store_def check_overflow_def log_input_def Let_def LOG_world
      Option.bind_eq_Some_conv split: poll_answer.splits option.splits list.splits read_answer.splits
      progress.splits prod.splits if_splits)

text \<open>What the thread leaves of its task: the array, and the handle up to its state and the count of its done event.\<close>

definition keeps_task :: "rt_world \<Rightarrow> rt_world \<Rightarrow> bool" where
  "keeps_task w w' \<longleftrightarrow> arrays w' = arrays w \<and>
     (\<exists>st fd. handles w' stdin_handle = (handles w stdin_handle)\<lparr>th_state := st, th_done_fd := fd\<rparr> \<and>
       (th_done_fd (handles w stdin_handle) \<noteq> None \<longrightarrow> fd \<noteq> None))"

lemma stdin_up_keeps: "stdin_up t w \<Longrightarrow> keeps_task w w' \<Longrightarrow> log_wf w' \<Longrightarrow> stdin_up t w'"
  by (auto simp: stdin_up_def keeps_task_def)

lemma keeps_task_refl: "keeps_task w w"
proof -
  have "handles w stdin_handle = (handles w stdin_handle)\<lparr>th_state := th_state (handles w stdin_handle),
      th_done_fd := th_done_fd (handles w stdin_handle)\<rparr>" by simp
  then show ?thesis unfolding keeps_task_def by blast
qed

lemma keeps_task_same: "handles w1 = handles w \<Longrightarrow> arrays w1 = arrays w \<Longrightarrow> keeps_task w1 w' = keeps_task w w'"
  by (simp add: keeps_task_def)

lemma efd_signal_none: "efd_signal fd = None \<longleftrightarrow> fd = None"
  by (auto simp: efd_signal_def split: option.splits)

lemma stdin_end_keeps: "stdin_end w = Some w' \<Longrightarrow> keeps_task w w'"
  by (auto simp: stdin_end_def task_handle_mark_done_def set_handle_def LOG_world keeps_task_def Option.bind_eq_Some_conv)
    (metis efd_signal_none not_Some_eq)

lemma stdin_loop_keeps: "stdin_loop n polls rs w = Goes (b, rs', w') \<Longrightarrow> keeps_task w w'"
proof (induction n polls rs w rule: stdin_loop.induct)
  case (1 n polls rs w)
  show ?case
  proof (cases "stdin_running w")
    case False
    with 1(2) show ?thesis
      by (auto simp: stdin_loop.simps [of n polls rs w] split: option.splits intro: stdin_end_keeps)
  next
    case True
    show ?thesis
    proof (cases polls)
      case Nil
      with True 1(2) show ?thesis by (simp add: stdin_loop.simps [of n "[]" rs w] keeps_task_refl)
    next
      case (Cons p ps)
      with True 1(2) obtain rs1 w1 where r: "stdin_round n p rs w = Goes (rs1, w1)"
          "stdin_loop n ps rs1 w1 = Goes (b, rs', w')"
        by (auto simp: stdin_loop.simps [of n "p # ps" rs w] split: progress.splits)
      have "keeps_task w1 w'" using 1(1) [OF _ Cons r(1) refl r(2)] True by simp
      then show ?thesis using keeps_task_same [of w1 w w'] stdin_round_world [OF r(1)] by simp
    qed
  qed
qed

lemma stdin_runs_keeps: "keeps_task w (stdin_runs n polls rs w)"
  by (auto simp: stdin_runs_def keeps_task_refl split: progress.splits intro: stdin_loop_keeps)

text \<open>The stdin thread, alone or between what other threads do, is as \<open>others_run\<close> asks.\<close>

lemma others_run_stdin: "others_run localtime t (stdin_runs n polls rs)"
  unfolding others_run_def
proof (intro allI impI, elim conjE)
  fix S0 S w
  assume r: "log_sys_inv S0" "log_reach localtime S0 (Some S)" "in_step S w" "stdin_up t w"
  let ?w = "stdin_runs n polls rs w"
  obtain S' where S': "log_reach localtime S0 (Some S')" "in_step S' ?w"
    using in_step_calls [OF only_logs_stdin_runs [OF only_logs_refl] r(2,3)] by blast
  have "log_wf (ls_state S')" using log_reach_inv [OF S'(1) r(1)] by (simp add: log_sys_inv_def)
  then have "log_wf ?w" using S'(2) by (simp add: in_step_def log_wf_def log_state.defs)
  with S' stdin_up_keeps [OF r(4) stdin_runs_keeps]
  show "\<exists>S'. log_reach localtime S0 (Some S') \<and> in_step S' ?w \<and> stdin_up t ?w" by blast
qed

lemma others_run_comp: "others_run localtime t f \<Longrightarrow> others_run localtime t g \<Longrightarrow> others_run localtime t (\<lambda>w. f (g w))"
  unfolding others_run_def by meson

lemma rt_main_shutdown:
  assumes "main_requests_ok env" "sig_fd \<ge> 0" "wait_malloc e 16"
    and "wait_poll e 0 [Poll_Done stdin_handle, Poll_Signal sig_fd] TASK_SHUTDOWN_TIMEOUT_MS = (1, [True, False])"
    and "wait_others e 0 = stdin_runs n polls rs"
    and "others_run localtime (se_thread (me_stdin env)) meanwhile"
  shows "\<exists>w0 S w3. log_task_init (me_log env) LOG_QUEUE_SIZE PRIORITY_LOG_TASK (open_sig_fd w) = Some (0, w0) \<and>
    log_reach localtime (log_sys_init (log_state.truncate w0)) (Some S) \<and> log_sys_inv S \<and> in_step S w3 \<and>
    threads w3 (se_thread (me_stdin env)) = T_Joined \<and> arrays w3 g_stdin_tasks = dead_array \<and>
    line (user w3) = None \<and> th_done_fd (handles w3 stdin_handle) = None \<and>
    (\<forall>answer others ending. rt_main env sig_fd meanwhile (replicate k Sig_None @ Sig_Received # as) e answer others ending w =
       map_option (\<lambda>(k, w'). (M_Exit k, w')) (main_stop_log answer others ending w3))"
proof -
  let ?t = "se_thread (me_stdin env)"
  obtain w0 w1 where start: "log_task_init (me_log env) LOG_QUEUE_SIZE PRIORITY_LOG_TASK (open_sig_fd w) = Some (0, w0)"
      "log_started LOG_QUEUE_SIZE (open_sig_fd w) w0" "only_logs w0 w1" "main_start env w = Some (M_Next, w1)" "stdin_up ?t w1"
    using main_start_up [OF assms(1)] by blast
  let ?S0 = "log_sys_init (log_state.truncate w0)"
  note sys = started_system [OF start(2)]
  obtain S1 where S1: "log_reach localtime ?S0 (Some S1)" "in_step S1 w1"
    using in_step_calls [OF start(3) act_reach.start sys(2)] by blast
  obtain S2 where S2: "log_reach localtime ?S0 (Some S2)" "in_step S2 (meanwhile w1)" "stdin_up ?t (meanwhile w1)"
    using assms(6) sys(1) S1 start(5) unfolding others_run_def by blast
  obtain u where u: "main_loop (replicate k Sig_None @ Sig_Received # as) (meanwhile w1) =
      Some (M_Next, (meanwhile w1)\<lparr>user := u\<rparr>)"
    using main_loop_next by blast
  let ?w2 = "(meanwhile w1)\<lparr>user := u\<rparr>"
  have up: "stdin_up ?t ?w2" using S2(3) by (simp add: stdin_up_user)
  obtain w3 where w3: "main_stop_tasks e sig_fd ?w2 = Some w3" "threads w3 ?t = T_Joined"
      "arrays w3 g_stdin_tasks = dead_array" "line (user w3) = None" "th_done_fd (handles w3 stdin_handle) = None"
    using main_stop_tasks_ok [OF up assms(2-5)] by blast
  have "in_step S2 ?w2" using S2(2) by (simp add: in_step_def)
  moreover have "only_logs ?w2 w3"
    using only_logs_main_stop_tasks [OF w3(1) only_logs_refl] only_logs_stdin_runs assms(5) by simp
  ultimately obtain S3 where S3: "log_reach localtime ?S0 (Some S3)" "in_step S3 w3"
    using in_step_calls [OF _ S2(1)] by blast
  have "log_sys_inv S3" using log_reach_inv [OF S3(1) sys(1)] by simp
  moreover have "rt_main env sig_fd meanwhile (replicate k Sig_None @ Sig_Received # as) e answer others ending w =
      map_option (\<lambda>(k, w'). (M_Exit k, w')) (main_stop_log answer others ending w3)" for answer others ending
    using start(4) u w3(1) by (cases "main_stop_log answer others ending w3") (auto simp: rt_main_def)
  ultimately show ?thesis using start(1) S3 w3(2-5) by blast
qed

text \<open>
  The whole program. When every request of the start succeeds, then after any run of the log task, the stdin
  thread and other threads that log, and however often \<open>main\<close> is woken before, with the first \<open>SIGINT\<close> it stops the stdin task, which ends and is joined and
  released, and then the log task, which, from whatever it was doing, ends within 15 steps and two for each
  queued message; \<open>main\<close> returns 0, every message the logger ever accepted has been printed, both threads are
  joined, and the queue, the descriptors and the buffer are released.
\<close>

theorem rt_main_returns:
  assumes "main_requests_ok env" "sig_fd \<ge> 0" "wait_malloc e 16"
    and "wait_poll e 0 [Poll_Done stdin_handle, Poll_Signal sig_fd] TASK_SHUTDOWN_TIMEOUT_MS = (1, [True, False])"
    and "wait_others e 0 = stdin_runs n polls rs"
    and "others_run localtime (se_thread (me_stdin env)) meanwhile"
  shows "\<exists>w0 S. log_task_init (me_log env) LOG_QUEUE_SIZE PRIORITY_LOG_TASK (open_sig_fd w) = Some (0, w0) \<and>
    log_reach localtime (log_sys_init (log_state.truncate w0)) (Some S) \<and>
    (\<forall>answers. 15 + 2 * length (queued (ls_state S)) \<le> length answers \<longrightarrow>
      (\<exists>S' w'. log_task_run localtime answers (S\<lparr>ls_state := log_task_stop (ls_state S)\<rparr>) = Some S' \<and>
        ls_printed S' = ls_accepted S' \<and> (\<exists>ms. ls_accepted S' = ls_accepted S @ ms) \<and>
        rt_main env sig_fd meanwhile (replicate k Sig_None @ Sig_Received # as) e (Inr (1, True, False))
          (log_runs localtime answers S) (\<lambda>w. w) w = Some (M_Exit 0, w') \<and>
        stderr w' = stderr (ls_state S') \<and> log_thread w' = T_Joined \<and>
        threads w' (se_thread (me_stdin env)) = T_Joined \<and> arrays w' g_stdin_tasks = dead_array \<and>
        line (user w') = None \<and> th_done_fd (handles w' stdin_handle) = None \<and>
        q_buffer (g_log_queue w') = Null \<and> q_event_fd (g_log_queue w') = None \<and>
        g_log_done_fd w' = Null \<and> \<not> sig_fd_open (user w')))"
proof -
  obtain w0 S w3 where S: "log_task_init (me_log env) LOG_QUEUE_SIZE PRIORITY_LOG_TASK (open_sig_fd w) = Some (0, w0)"
      "log_reach localtime (log_sys_init (log_state.truncate w0)) (Some S)" "log_sys_inv S" "in_step S w3"
    and w3: "threads w3 (se_thread (me_stdin env)) = T_Joined" "arrays w3 g_stdin_tasks = dead_array"
      "line (user w3) = None" "th_done_fd (handles w3 stdin_handle) = None"
    and main: "\<And>answer others ending. rt_main env sig_fd meanwhile (replicate k Sig_None @ Sig_Received # as) e
       answer others ending w = map_option (\<lambda>(k, w'). (M_Exit k, w')) (main_stop_log answer others ending w3)"
    using rt_main_shutdown [OF assms] by blast
  have sys: "ls_state S = log_state.truncate w3" "\<not> drain_over S" using S(4) by (simp_all add: in_step_def)
  have q: "queued w3 = queued (ls_state S)" using sys(1) by (simp add: queued_def log_state.defs)
  have ends: "\<exists>S' w'. log_task_run localtime answers (S\<lparr>ls_state := log_task_stop (ls_state S)\<rparr>) = Some S' \<and>
        ls_printed S' = ls_accepted S' \<and> (\<exists>ms. ls_accepted S' = ls_accepted S @ ms) \<and>
        rt_main env sig_fd meanwhile (replicate k Sig_None @ Sig_Received # as) e (Inr (1, True, False))
          (log_runs localtime answers S) (\<lambda>w. w) w = Some (M_Exit 0, w') \<and>
        stderr w' = stderr (ls_state S') \<and> log_thread w' = T_Joined \<and>
        threads w' (se_thread (me_stdin env)) = T_Joined \<and> arrays w' g_stdin_tasks = dead_array \<and>
        line (user w') = None \<and> th_done_fd (handles w' stdin_handle) = None \<and>
        q_buffer (g_log_queue w') = Null \<and> q_event_fd (g_log_queue w') = None \<and>
        g_log_done_fd w' = Null \<and> \<not> sig_fd_open (user w')"
    if len: "15 + 2 * length (queued (ls_state S)) \<le> length answers" for answers
  proof -
      have "15 + 2 * length (queued w3) \<le> length answers" using len q by simp
      from main_stop_log_ok [OF S(3) sys this, of localtime False]
      obtain S' w' where run: "log_task_run localtime answers (S\<lparr>ls_state := log_task_stop (ls_state S)\<rparr>) = Some S'"
          "ls_printed S' = ls_accepted S'" "\<exists>ms. ls_accepted S' = ls_accepted S @ ms"
        and stop: "main_stop_log (Inr (1, True, False)) (log_runs localtime answers S) (\<lambda>w. w) w3 = Some (0, w')"
        and w': "stderr w' = stderr (ls_state S')" "log_thread w' = T_Joined" "g_log_done_fd w' = Null"
          "q_buffer (g_log_queue w') = Null" "q_event_fd (g_log_queue w') = None" "handles w' = handles w3"
          "arrays w' = arrays w3" "threads w' = threads w3" "user w' = (user w3)\<lparr>sig_fd_open := False\<rparr>"
        by blast
      show ?thesis
        by (intro exI [of _ S'] exI [of _ w'] conjI) (use run stop w' w3 in \<open>simp_all add: main\<close>)
  qed
  show ?thesis
    by (rule exI [of _ w0], rule exI [of _ S], intro conjI S allI impI ends)
qed

definition env_ok :: main_env where
  "env_ok = \<lparr>me_signalfd = True, me_log = \<lparr>ie_malloc = \<lambda>n. True, ie_queue_eventfd = True, ie_done_eventfd = True,
     ie_create = \<lambda>p. 0, ie_errno = [], ie_strerror = \<lambda>e. []\<rparr>, me_stdin = rt_env, me_errno = []\<rparr>"

text \<open>While \<open>main\<close> waits the stdin thread reads two lines.\<close>

definition typed :: "rt_world \<Rightarrow> rt_world" where
  "typed = stdin_runs 256 [Poll_Ready, Poll_Timeout, Poll_Ready] [Read_Data (''hello'' @ newline), Read_Data (''world'' @ newline)]"

theorem rt_main_returns_witness:
  "\<exists>S answers w'. rt_main env_ok 3 typed [Sig_None, Sig_Received] waits_ok (Inr (1, True, False))
     (log_runs utc answers S) (\<lambda>w. w) rt_sample = Some (M_Exit 0, w') \<and> threads w' 5 = T_Joined \<and> log_thread w' = T_Joined"
proof -
  have ok: "main_requests_ok env_ok" by (simp add: main_requests_ok_def env_ok_def rt_env_def)
  have others: "others_run utc (se_thread (me_stdin env_ok)) typed"
    unfolding typed_def by (rule others_run_stdin)
  have waits: "wait_poll waits_ok 0 [Poll_Done stdin_handle, Poll_Signal 3] TASK_SHUTDOWN_TIMEOUT_MS = (1, [True, False])"
      "wait_malloc waits_ok 16" "wait_others waits_ok 0 = stdin_runs 256 [] []"
    by (simp_all add: waits_ok_def)
  obtain S where S: "\<forall>answers. 15 + 2 * length (queued (ls_state S)) \<le> length answers \<longrightarrow>
      (\<exists>w'. rt_main env_ok 3 typed (replicate 1 Sig_None @ Sig_Received # []) waits_ok (Inr (1, True, False))
        (log_runs utc answers S) (\<lambda>w. w) rt_sample = Some (M_Exit 0, w') \<and> log_thread w' = T_Joined \<and>
        threads w' (se_thread (me_stdin env_ok)) = T_Joined)"
    using rt_main_returns [OF ok _ waits(2,1,3) others, of rt_sample 1 "[]"] by fastforce
  have "se_thread (me_stdin env_ok) = 5" by (simp add: env_ok_def rt_env_def)
  with S [rule_format, of "replicate (15 + 2 * length (queued (ls_state S))) Poll_Timeout"] show ?thesis by auto
qed

section \<open>The program without its stdin task\<close>

text \<open>
  C29: \<open>main\<close> only logs that \<open>stdin_task_init\<close> has failed and goes on; but when one of the requests of that function
  fails, the whole program has undefined behaviour with the first \<open>SIGINT\<close>, because its shutdown locks the mutex
  of an array that does not exist, whatever the other threads have done in the meantime.
\<close>
theorem rt_main_undefined_without_stdin_task:
  assumes "me_signalfd env" "ie_malloc (me_log env) 19968" "ie_queue_eventfd (me_log env)"
      "ie_done_eventfd (me_log env)" "ie_create (me_log env) (Some 10) = 0"
    and "\<not> stdin_ok (me_stdin env)" "ta_lock (arrays w g_stdin_tasks) = Mutex_Dead"
    and others: "\<And>w. arrays (meanwhile w) = arrays w"
  shows "rt_main env sig_fd meanwhile (replicate k Sig_None @ Sig_Received # as) e answer others' ending w = None"
proof -
  obtain w2 w3 w1 where w1: "arrays w2 = arrays w" "main_start env w = Some (M_Next, w1)" "logged w3 w1"
      "stdin_not_started (me_stdin env) w2 w3"
    using main_start_stdin [OF assms(1-5), of w] assms(6) by auto
  obtain u where u: "main_loop (replicate k Sig_None @ Sig_Received # as) (meanwhile w1) =
      Some (M_Next, (meanwhile w1)\<lparr>user := u\<rparr>)"
    using main_loop_next by blast
  let ?w = "(meanwhile w1)\<lparr>user := u\<rparr>"
  have "ta_lock (arrays w3 g_stdin_tasks) = Mutex_Dead"
    using w1(1,4) assms(7) by (cases "se_calloc (me_stdin env) 8") (simp_all add: stdin_not_started_def dead_array_def)
  then have dead: "ta_lock (arrays ?w g_stdin_tasks) = Mutex_Dead"
    using others logged_world [OF w1(3)] by simp
  have "main_stop_tasks e sig_fd ?w = None"
  proof (cases "LOGD main_TAG ''received SIGINT, shutting down...'' ?w")
    case (Some w4)
    then have "ta_lock (arrays w4 g_stdin_tasks) = Mutex_Dead" using dead LOG_world(4) [OF Some] by simp
    with Some show ?thesis
      by (simp add: main_stop_tasks_def task_arrays_def task_array_stop_all_def lock_array_def)
  qed (simp add: main_stop_tasks_def)
  with w1(2) u show ?thesis by (simp add: rt_main_def)
qed

theorem rt_main_undefined_without_stdin_task_witness:
  "rt_main (env_ok\<lparr>me_stdin := rt_env\<lparr>se_eventfd := False\<rparr>\<rparr>) 3 (\<lambda>w. w) [Sig_None, Sig_Received] waits_ok
     (Inr (1, True, False)) (\<lambda>w. w) (\<lambda>w. w) rt_sample = None"
proof -
  let ?env = "env_ok\<lparr>me_stdin := rt_env\<lparr>se_eventfd := False\<rparr>\<rparr>"
  have env: "me_signalfd ?env" "ie_malloc (me_log ?env) 19968" "ie_queue_eventfd (me_log ?env)"
      "ie_done_eventfd (me_log ?env)" "ie_create (me_log ?env) (Some 10) = 0" "\<not> stdin_ok (me_stdin ?env)"
    by (simp_all add: env_ok_def stdin_ok_def)
  have "ta_lock (arrays rt_sample g_stdin_tasks) = Mutex_Dead"
    by (simp add: rt_sample_def log_state.defs world.defs dead_array_def)
  from rt_main_undefined_without_stdin_task [OF env this, of "\<lambda>w. w" 3 1 "[]"] show ?thesis by simp
qed

end
