(* ===== verification/Rt_System.thy ===== *)
theory Rt_System
  imports Rt_Program
begin

text \<open>
  The three threads of \<open>rtsystem\<close> side by side, after \<open>main\<close> has started the other two: the log task
  statement by statement, as in \<open>Log_Task\<close>; the stdin thread statement by statement, its log calls in two
  halves; and \<open>main\<close>, one step for each part of it, a part that waits being a step only when the wait is over.
  Nothing of what a thread does is a parameter here: only the answers of the operating system are.
\<close>

section \<open>The state\<close>

text \<open>
  Where the stdin thread is: \<open>SP_Log\<close> before a log call with that level, tag and text, \<open>SP_Send\<close> in the middle of
  it with the message made, each with the statement that comes after the call; \<open>SP_Flush\<close> and \<open>SP_Strip\<close> with the
  bytes that were read.
\<close>

datatype stdin_pc =
    SP_Begin | SP_While | SP_Poll | SP_Read | SP_Flush string | SP_Strip string
  | SP_Log int string string stdin_pc | SP_Send string log_message stdin_pc
  | SP_Mark | SP_Signal | SP_Return | SP_Done

text \<open>Where \<open>main\<close> is: at the parts of \<open>main.c\<close>, in their order, or returned with a code.\<close>

datatype main_pc =
    MP_Loop | MP_Shutdown | MP_Stop | MP_Poll_Tasks | MP_Join_Tasks
  | MP_Stop_Log | MP_Poll_Log | MP_Join_Log | MP_Done int

text \<open>\<open>rs_size\<close> is the local variable \<open>line_buf_size\<close> of the stdin thread.\<close>

record rt_sys =
  rs_world :: rt_world
  rs_log :: log_pc
  rs_stdin :: stdin_pc
  rs_size :: size_t
  rs_main :: main_pc

section \<open>The stdin thread\<close>

datatype stdin_answer = SA_None | SA_Poll poll_answer | SA_Read read_answer

definition stdin_goto :: "stdin_pc \<Rightarrow> rt_world \<Rightarrow> rt_sys \<Rightarrow> rt_sys" where
  "stdin_goto pc w R = R\<lparr>rs_world := w, rs_stdin := pc\<rparr>"

definition stdin_warn :: "string \<Rightarrow> string \<Rightarrow> stdin_pc" where
  "stdin_warn msg err = SP_Log LOG_LEVEL_WARN stdin_TAG (msg @ '': '' @ err) SP_While"

text \<open>What follows a read of the bytes \<open>d\<close>: they and a NUL are in the buffer, and a full buffer is flushed first.\<close>

definition stdin_stored :: "string \<Rightarrow> rt_sys \<Rightarrow> rt_sys option" where
  "stdin_stored d R = (let w = rs_world R; n = unat (rs_size R - 1) in
     case Option.bind (line (user w)) (\<lambda>b. Option.bind (write_bytes 0 d b) (write_bytes (length d) [CHR 0x00])) of
       None \<Rightarrow> None
     | Some b \<Rightarrow> Some (stdin_goto
         (if length d = n \<and> last d \<noteq> nl
          then SP_Log LOG_LEVEL_WARN stdin_TAG (''input >= '' @ show_nat n @ '' bytes, flushing rest of data'') (SP_Flush d)
          else SP_Strip d)
         (put_line (Some b) w) R))"

definition stdin_strip :: "string \<Rightarrow> rt_sys \<Rightarrow> rt_sys option" where
  "stdin_strip d R = (let w = rs_world R in
     case line (user w) of
       None \<Rightarrow> None
     | Some b \<Rightarrow>
         let b1 = (if last d = nl then b[length d - 1 := Some (CHR 0x00)] else b);
             n = (if last d = nl then length d - 1 else length d);
             w1 = put_line (Some b1) w in
         if n = 0 then Some (stdin_goto SP_While w1 R)
         else case c_string b1 of
             None \<Rightarrow> None
           | Some s \<Rightarrow> Some (stdin_goto (SP_Log LOG_LEVEL_DEBUG stdin_TAG (''input received: '' @ s) SP_While) w1 R))"

definition stdin_step :: "stdin_answer \<Rightarrow> rt_sys \<Rightarrow> rt_sys option" where
  "stdin_step ans R = (let w = rs_world R; self = handles w stdin_handle in
     case rs_stdin R of
       SP_Begin \<Rightarrow> Some (stdin_goto (SP_Log LOG_LEVEL_DEBUG stdin_TAG ''ready for input...'' SP_While)
         (set_handle stdin_handle (self\<lparr>th_state := TASK_STATE_RUNNING\<rparr>) w) (R\<lparr>rs_size := buf_size_arg (user w)\<rparr>))
     | SP_While \<Rightarrow> Some (stdin_goto
         (if stdin_running w then SP_Poll else SP_Log LOG_LEVEL_DEBUG stdin_TAG ''exiting...'' SP_Mark) w R)
     | SP_Poll \<Rightarrow> (case ans of
           SA_Poll (Poll_Error err) \<Rightarrow> Some (stdin_goto (stdin_warn ''could not poll STDIN: '' err) w R)
         | SA_Poll Poll_Timeout \<Rightarrow> Some (stdin_goto SP_While w R)
         | SA_Poll Poll_Ready \<Rightarrow> Some (stdin_goto SP_Read w R)
         | _ \<Rightarrow> Some R)
     | SP_Read \<Rightarrow> (case ans of
           SA_Read (Read_Error err) \<Rightarrow> Some (stdin_goto (stdin_warn ''failed to read input: '' err) w R)
         | SA_Read Read_Eof \<Rightarrow> Some (stdin_goto SP_While w R)
         | SA_Read (Read_Data d) \<Rightarrow> stdin_stored d R
         | _ \<Rightarrow> Some R)
     | SP_Flush d \<Rightarrow> (case ans of
           SA_Read (Read_Data e) \<Rightarrow> Some (if nl \<in> set e then stdin_goto (SP_Strip d) w R else R)
         | SA_Read _ \<Rightarrow> Some (stdin_goto (SP_Strip d) w R)
         | _ \<Rightarrow> Some R)
     | SP_Strip d \<Rightarrow> stdin_strip d R
     | SP_Log level tag msg pc \<Rightarrow> (case ALOG_begin level tag msg w of (m, w1) \<Rightarrow> Some (stdin_goto (SP_Send tag m pc) w1 R))
     | SP_Send tag m pc \<Rightarrow> map_option (\<lambda>w1. stdin_goto pc w1 R) (ALOG_send tag m w)
     | SP_Mark \<Rightarrow> Some (stdin_goto SP_Signal
         (set_handle stdin_handle (self\<lparr>th_state := TASK_STATE_STOPPED\<rparr>) w) R)
     | SP_Signal \<Rightarrow> Some (stdin_goto
         (SP_Log LOG_LEVEL_DEBUG th_TAG (''task '' @ quoted (th_name self) @ '' marked done'') SP_Return)
         (set_handle stdin_handle (self\<lparr>th_done_fd := efd_signal (th_done_fd self)\<rparr>) w) R)
     | SP_Return \<Rightarrow> Some (stdin_goto SP_Done (w\<lparr>threads := (threads w)(th_thread self := T_Exited)\<rparr>) R)
     | SP_Done \<Rightarrow> Some R)"

text \<open>A read returns between one and the number of bytes asked for, or end of file, or an error.\<close>

definition read_ok :: "nat \<Rightarrow> stdin_answer \<Rightarrow> bool" where
  "read_ok n ans = (case ans of
     SA_Read (Read_Data d) \<Rightarrow> d \<noteq> [] \<and> length d \<le> n | SA_Read _ \<Rightarrow> True | _ \<Rightarrow> False)"

definition stdin_enabled :: "stdin_answer \<Rightarrow> rt_sys \<Rightarrow> bool" where
  "stdin_enabled ans R = (case rs_stdin R of
     SP_Done \<Rightarrow> False
   | SP_Poll \<Rightarrow> (case ans of SA_Poll p \<Rightarrow> True | _ \<Rightarrow> False)
   | SP_Read \<Rightarrow> read_ok (unat (rs_size R - 1)) ans
   | SP_Flush d \<Rightarrow> read_ok 64 ans
   | _ \<Rightarrow> True)"

section \<open>The log task\<close>

text \<open>The system of \<open>Log_Task\<close> in this one; thread 1 is the stdin thread and thread 0 is \<open>main\<close>.\<close>

fun stdin_pending :: "stdin_pc \<Rightarrow> nat \<Rightarrow> (string \<times> log_message) option" where
  "stdin_pending (SP_Send tag m pc) i = (if i = 1 then Some (tag, m) else None)"
| "stdin_pending pc i = None"

definition log_view :: "rt_sys \<Rightarrow> log_sys" where
  "log_view R = \<lparr>ls_state = log_state.truncate (rs_world R), ls_pc = rs_log R, ls_pending = stdin_pending (rs_stdin R),
     ls_accepted = [], ls_printed = []\<rparr>"

definition log_back :: "rt_sys \<Rightarrow> log_sys \<Rightarrow> rt_sys" where
  "log_back R S = R\<lparr>rs_world := log_state.extend (ls_state S) (log_state.more (rs_world R)), rs_log := ls_pc S\<rparr>"

section \<open>The steps of main\<close>

text \<open>The wait for the tasks that ends because every task has signalled its end.\<close>

definition all_done :: waits where
  "all_done = \<lparr>wait_poll = \<lambda>i fds timeout. (int (length fds) - 1, replicate (length fds - 1) True @ [False]),
     wait_malloc = \<lambda>n. True, wait_others = \<lambda>i w. w\<rparr>"

definition main_end :: "rt_world \<Rightarrow> rt_world option" where
  "main_end w = do {
     w1 \<leftarrow> log_task_join w;
     w2 \<leftarrow> log_task_cleanup w1;
     Some (close_sig_fd w2)
   }"

definition main_goto :: "main_pc \<Rightarrow> rt_world option \<Rightarrow> rt_sys \<Rightarrow> rt_sys option" where
  "main_goto pc r R = map_option (\<lambda>w. R\<lparr>rs_world := w, rs_main := pc\<rparr>) r"

definition main_step :: "int \<Rightarrow> signal_answer \<Rightarrow> rt_sys \<Rightarrow> rt_sys option" where
  "main_step sig_fd answer R = (let w = rs_world R in
     case rs_main R of
       MP_Loop \<Rightarrow> (case main_loop [answer] w of
           None \<Rightarrow> None
         | Some (M_Exit k, w1) \<Rightarrow> main_goto (MP_Done k) (Some w1) R
         | Some (M_Next, w1) \<Rightarrow> main_goto MP_Shutdown (Some w1) R
         | Some (M_Waits, w1) \<Rightarrow> main_goto MP_Loop (Some w1) R)
     | MP_Shutdown \<Rightarrow> main_goto MP_Stop (LOGD main_TAG ''received SIGINT, shutting down...'' w) R
     | MP_Stop \<Rightarrow> main_goto MP_Poll_Tasks (stop_arrays task_arrays w) R
     | MP_Poll_Tasks \<Rightarrow> main_goto MP_Join_Tasks (poll_arrays all_done sig_fd 0 False task_arrays w) R
     | MP_Join_Tasks \<Rightarrow> main_goto MP_Stop_Log (destroy_arrays task_arrays w) R
     | MP_Stop_Log \<Rightarrow> main_goto MP_Poll_Log (Some (log_task_stop w)) R
     | MP_Poll_Log \<Rightarrow> main_goto MP_Join_Log (Some w) R
     | MP_Join_Log \<Rightarrow> main_goto (MP_Done EXIT_SUCCESS) (main_end w) R
     | MP_Done k \<Rightarrow> Some R)"

text \<open>
  \<open>main\<close> goes past its waits when the event they wait for is there: the done events of all the registered tasks,
  the end of every thread that it joins, the done event of the log task, and the end of its thread. That
  it gives up a wait, after its timeout or at a second \<open>SIGINT\<close>, is not a step of this system.
\<close>

definition main_enabled :: "rt_sys \<Rightarrow> bool" where
  "main_enabled R = (let w = rs_world R in
     case rs_main R of
       MP_Poll_Tasks \<Rightarrow> list_all (readable w) (tasks g_stdin_tasks w)
     | MP_Join_Tasks \<Rightarrow> list_all (\<lambda>h. readable w h \<longrightarrow> threads w (th_thread (handles w h)) = T_Exited) (tasks g_stdin_tasks w)
     | MP_Poll_Log \<Rightarrow> (case g_log_done_fd w of Valid e \<Rightarrow> efd_readable (Some e) | _ \<Rightarrow> False)
     | MP_Join_Log \<Rightarrow> log_thread w = T_Exited
     | _ \<Rightarrow> True)"

section \<open>The system\<close>

datatype rt_action = RA_Log poll_answer | RA_Stdin stdin_answer | RA_Main signal_answer | RA_Clock timespec

definition rt_over :: "rt_sys \<Rightarrow> bool" where
  "rt_over R = (case rs_main R of MP_Done k \<Rightarrow> True | _ \<Rightarrow> False)"

definition rt_enabled :: "rt_action \<Rightarrow> rt_sys \<Rightarrow> bool" where
  "rt_enabled a R \<longleftrightarrow> \<not> rt_over R \<and> (case a of
     RA_Log ans \<Rightarrow> log_enabled (Act_Task ans) (log_view R)
   | RA_Stdin ans \<Rightarrow> stdin_enabled ans R
   | RA_Main ans \<Rightarrow> main_enabled R
   | RA_Clock t \<Rightarrow> True)"

definition rt_act :: "(int \<Rightarrow> int \<times> int \<times> int) \<Rightarrow> int \<Rightarrow> rt_action \<Rightarrow> rt_sys \<Rightarrow> rt_sys option" where
  "rt_act localtime sig_fd a R = (case a of
     RA_Log ans \<Rightarrow> map_option (log_back R) (log_act localtime (Act_Task ans) (log_view R))
   | RA_Stdin ans \<Rightarrow> stdin_step ans R
   | RA_Main ans \<Rightarrow> main_step sig_fd ans R
   | RA_Clock t \<Rightarrow> Some (R\<lparr>rs_world := (rs_world R)\<lparr>clock := t\<rparr>\<rparr>))"

text \<open>The process ends when \<open>main\<close> returns; \<open>None\<close> is reached when a step is undefined.\<close>

abbreviation rt_reach :: "(int \<Rightarrow> int \<times> int \<times> int) \<Rightarrow> int \<Rightarrow> rt_sys \<Rightarrow> rt_sys option \<Rightarrow> bool" where
  "rt_reach localtime sig_fd \<equiv> act_reach rt_enabled (rt_act localtime sig_fd)"

text \<open>The system when \<open>main\<close> enters its loop, and a run of it along a list of actions.\<close>

definition rt_sys_init :: "rt_world \<Rightarrow> rt_sys" where
  "rt_sys_init w = \<lparr>rs_world = w, rs_log = LT_Begin, rs_stdin = SP_Begin, rs_size = 0, rs_main = MP_Loop\<rparr>"

abbreviation rt_exec :: "(int \<Rightarrow> int \<times> int \<times> int) \<Rightarrow> int \<Rightarrow> rt_action list \<Rightarrow> rt_sys \<Rightarrow> rt_sys option" where
  "rt_exec localtime sig_fd \<equiv> act_exec rt_enabled (rt_act localtime sig_fd)"

section \<open>The logger of the system is the system of the logger\<close>

text \<open>
  \<open>rt_matches S R\<close>: but for its history \<open>S\<close> is what \<open>R\<close> shows of the logger. Every step of \<open>R\<close>, up to the last
  one of \<open>main\<close>, is a sequence of steps of \<open>S\<close>. The history fields are written and never read.
\<close>

definition forget :: "log_sys \<Rightarrow> log_sys" where
  "forget S = S\<lparr>ls_accepted := [], ls_printed := []\<rparr>"

definition rt_matches :: "log_sys \<Rightarrow> rt_sys \<Rightarrow> bool" where
  "rt_matches S R \<longleftrightarrow> forget S = log_view R"

lemma rt_matchesD:
  assumes "rt_matches S R"
  shows "ls_state S = log_state.truncate (rs_world R)" "ls_pc S = rs_log R" "ls_pending S = stdin_pending (rs_stdin R)"
  using assms by (cases S, simp add: rt_matches_def forget_def log_view_def)+

lemma rt_matchesI:
  "ls_state S = log_state.truncate (rs_world R) \<Longrightarrow> ls_pc S = rs_log R \<Longrightarrow> ls_pending S = stdin_pending (rs_stdin R) \<Longrightarrow>
   rt_matches S R"
  by (cases S) (simp add: rt_matches_def forget_def log_view_def)

lemma forget_simps [simp]:
  "ls_state (forget S) = ls_state S" "ls_pc (forget S) = ls_pc S" "ls_pending (forget S) = ls_pending S"
  "forget (S\<lparr>ls_state := s\<rparr>) = (forget S)\<lparr>ls_state := s\<rparr>" "forget (S\<lparr>ls_pc := pc\<rparr>) = (forget S)\<lparr>ls_pc := pc\<rparr>"
  "forget (S\<lparr>ls_accepted := ms\<rparr>) = forget S" "forget (S\<lparr>ls_printed := ms\<rparr>) = forget S" "forget (forget S) = forget S"
  by (simp_all add: forget_def)

lemma forget_sys_send:
  "map_option forget (sys_send tag m S) = map_option (\<lambda>s. (forget S)\<lparr>ls_state := s\<rparr>) (ALOG_send tag m (ls_state S))"
  by (cases "ALOG_send tag m (ls_state S)") (simp_all add: sys_send_def)

lemma forget_task_step:
  "map_option forget (log_task_step localtime ans (forget S)) = map_option forget (log_task_step localtime ans S)"
proof -
  have goto: "map_option forget (map_option (goto_pc pc) r) = map_option (goto_pc pc) (map_option forget r)" for pc r
    by (cases r) (simp_all add: goto_pc_def)
  show ?thesis
  proof (cases "ls_pc S")
    case (LT_Receive fin)
    then show ?thesis
      by (cases "fifo_queue_receive (g_log_queue (ls_state S))") (auto simp: log_task_step_def Let_def goto_pc_def)
  next
    case (LT_Print fin m)
    then show ?thesis
      by (cases "print_log_message localtime m") (auto simp: log_task_step_def Let_def goto_pc_def)
  next
    case LT_Signal
    then show ?thesis
      by (cases "g_log_done_fd (ls_state S)") (auto simp: log_task_step_def Let_def goto_pc_def)
  next
    case LT_Poll
    then show ?thesis
      by (cases ans) (auto simp: log_task_step_def Let_def goto_pc_def)
  qed (simp_all add: log_task_step_def Let_def goto forget_sys_send log_begin_own_def split: prod.splits,
       simp_all add: goto_pc_def)
qed

text \<open>The log task's own step, and the clock.\<close>

lemma rt_log_step:
  assumes "rt_matches S R" "log_task_step localtime ans S = Some S'"
  shows "rt_act localtime sig_fd (RA_Log ans) R = Some (log_back R S') \<and> rt_matches S' (log_back R S')"
proof -
  have "map_option forget (log_task_step localtime ans (log_view R)) = Some (forget S')"
    using forget_task_step [of localtime ans S] assms by (simp add: rt_matches_def)
  then obtain S1 where S1: "log_task_step localtime ans (log_view R) = Some S1" "forget S1 = forget S'" by auto
  have "ls_pending S' = ls_pending S"
    using assms(2) by (auto simp: log_task_step_def Let_def goto_pc_def log_begin_own_def sys_send_def
        Option.bind_eq_Some_conv split: log_pc.splits poll_answer.splits ptr.splits prod.splits if_splits)
  moreover have "ls_state S1 = ls_state S'" "ls_pc S1 = ls_pc S'"
    using S1(2) by (metis forget_simps(1), metis forget_simps(2))
  ultimately show ?thesis
    using S1(1) rt_matchesD(3) [OF assms(1)]
    by (auto simp: rt_act_def log_act_def log_back_def log_state.defs intro!: rt_matchesI)
qed

lemma rt_log_enabled: "rt_matches S R \<Longrightarrow> log_enabled (Act_Task ans) (log_view R) = log_enabled (Act_Task ans) S"
  by (auto simp: log_enabled_def log_view_def rt_matchesD split: poll_answer.splits)

section \<open>The invariant of the stdin thread\<close>

text \<open>The bytes \<open>d\<close> and a NUL are at the start of the buffer.\<close>

definition line_holds :: "string \<Rightarrow> rt_world \<Rightarrow> bool" where
  "line_holds d w \<longleftrightarrow> d \<noteq> [] \<and> (\<exists>b. line (user w) = Some (map Some d @ Some (CHR 0x00) # b))"

definition resume_ok :: "stdin_pc \<Rightarrow> rt_world \<Rightarrow> bool" where
  "resume_ok pc w = (case pc of
     SP_While \<Rightarrow> True | SP_Mark \<Rightarrow> True | SP_Return \<Rightarrow> True | SP_Flush d \<Rightarrow> line_holds d w | _ \<Rightarrow> False)"

definition stdin_pc_ok :: "stdin_pc \<Rightarrow> rt_world \<Rightarrow> bool" where
  "stdin_pc_ok pc w = (case pc of
     SP_Log level tag msg k \<Rightarrow> 0 \<le> level \<and> level < 4 \<and> resume_ok k w
   | SP_Send tag m k \<Rightarrow> level_ok m \<and> resume_ok k w
   | SP_Flush d \<Rightarrow> line_holds d w | SP_Strip d \<Rightarrow> line_holds d w | _ \<Rightarrow> True)"

text \<open>The done event has been signalled.\<close>

definition signalled :: "stdin_pc \<Rightarrow> bool" where
  "signalled pc = (case pc of
     SP_Log level tag msg k \<Rightarrow> k = SP_Return | SP_Send tag m k \<Rightarrow> k = SP_Return
   | SP_Return \<Rightarrow> True | SP_Done \<Rightarrow> True | _ \<Rightarrow> False)"

definition stdin_inv :: "size_t \<Rightarrow> nat \<Rightarrow> rt_sys \<Rightarrow> bool" where
  "stdin_inv n t R \<longleftrightarrow> (let w = rs_world R; pc = rs_stdin R in
     stdin_up t w \<and> (\<exists>b. line (user w) = Some b \<and> length b = unat n) \<and> buf_size_arg (user w) = n \<and>
     (pc = SP_Begin \<or> rs_size R = n) \<and> stdin_pc_ok pc w \<and> readable w stdin_handle = signalled pc \<and>
     threads w t = (if pc = SP_Done then T_Exited else T_Running))"

lemmas stdin_inv_defs = stdin_inv_def Let_def stdin_pc_ok_def resume_ok_def signalled_def

text \<open>What the other threads leave of the task: all but the state in its handle.\<close>

definition same_task :: "rt_world \<Rightarrow> rt_world \<Rightarrow> bool" where
  "same_task w w' \<longleftrightarrow> arrays w' = arrays w \<and> threads w' = threads w \<and>
     line (user w') = line (user w) \<and> buf_size_arg (user w') = buf_size_arg (user w) \<and>
     (\<exists>st. handles w' stdin_handle = (handles w stdin_handle)\<lparr>th_state := st\<rparr>)"

lemma stdin_pc_ok_line: "line (user w') = line (user w) \<Longrightarrow> stdin_pc_ok pc w' = stdin_pc_ok pc w"
  by (simp add: stdin_pc_ok_def resume_ok_def line_holds_def cong: stdin_pc.case_cong)

lemma stdin_inv_same:
  assumes "stdin_inv n t R" "same_task (rs_world R) (rs_world R')" "log_wf (rs_world R')"
    and "rs_stdin R' = rs_stdin R" "rs_size R' = rs_size R"
  shows "stdin_inv n t R'"
proof -
  have "readable (rs_world R') stdin_handle = readable (rs_world R) stdin_handle"
    using assms(2) by (auto simp: same_task_def readable_def)
  moreover have "stdin_up t (rs_world R')"
    using assms(1-3) by (auto simp: stdin_inv_def Let_def stdin_up_def same_task_def)
  ultimately show ?thesis
    using assms stdin_pc_ok_line [of "rs_world R'" "rs_world R"] by (auto simp: stdin_inv_def Let_def same_task_def)
qed

lemma same_task_logged: "logged w w' \<Longrightarrow> same_task w w'"
  by (auto simp: same_task_def logged_world intro!: exI [of _ "th_state (handles w stdin_handle)"])

lemma stdin_move:
  assumes "stdin_inv n t R" "rs_stdin R \<noteq> SP_Begin" "rs_stdin R \<noteq> SP_Done" "same_task (rs_world R) w" "log_wf w"
    and "stdin_pc_ok pc w" "signalled pc = signalled (rs_stdin R)" "pc \<noteq> SP_Done"
  shows "stdin_inv n t (stdin_goto pc w R)"
proof -
  have "stdin_inv n t (R\<lparr>rs_world := w\<rparr>)"
    by (rule stdin_inv_same [OF assms(1)]) (use assms in simp_all)
  then show ?thesis using assms(2,3,6-8) by (auto simp: stdin_inv_def Let_def stdin_goto_def)
qed

lemma same_task_refl [simp]: "same_task w w"
  by (auto simp: same_task_def intro!: exI [of _ "th_state (handles w stdin_handle)"])

lemma stdin_inv_wf: "stdin_inv n t R \<Longrightarrow> log_wf (rs_world R)"
  by (simp add: stdin_inv_def Let_def stdin_up_def)

text \<open>The buffer is written: the bytes that were read fit, with their NUL.\<close>

lemma stdin_put:
  assumes inv: "stdin_inv n t R" and pc: "rs_stdin R \<noteq> SP_Begin" "rs_stdin R \<noteq> SP_Done"
    and b: "length b = unat n" and ok: "stdin_pc_ok pc (put_line (Some b) (rs_world R))"
    and "signalled pc = signalled (rs_stdin R)" "pc \<noteq> SP_Done"
  shows "stdin_inv n t (stdin_goto pc (put_line (Some b) (rs_world R)) R)"
  using assms by (auto simp: stdin_inv_def Let_def stdin_goto_def stdin_up_def readable_def)

lemma unat_minus_one_pos: "0 < unat (n :: size_t) \<Longrightarrow> unat (n - 1) = unat n - 1"
  by (simp add: unat_sub word_le_nat_alt)

lemma stdin_stored_inv:
  assumes inv: "stdin_inv n t R" and pc: "rs_stdin R = SP_Read" and n: "0 < unat n"
    and d: "d \<noteq> []" "length d \<le> unat (rs_size R - 1)"
  shows "\<exists>R'. stdin_stored d R = Some R' \<and> stdin_inv n t R'"
proof -
  obtain b where b: "line (user (rs_world R)) = Some b" "length b = unat n"
    using inv by (auto simp: stdin_inv_def Let_def)
  have size: "rs_size R = n" using inv pc by (simp add: stdin_inv_def Let_def)
  have len: "length d < length b" using d n b size unat_minus_one_pos [OF n] by simp
  let ?b1 = "map Some d @ Some (CHR 0x00) # drop (length d + 1) b"
  have len1: "length ?b1 = unat n" using len b(2) by simp
  have holds: "line_holds d (put_line (Some ?b1) (rs_world R))" using d(1) by (simp add: line_holds_def)
  have move: "stdin_inv n t (stdin_goto pc' (put_line (Some ?b1) (rs_world R)) R)"
    if "pc' = SP_Strip d \<or> pc' = SP_Log LOG_LEVEL_WARN stdin_TAG s (SP_Flush d)" for pc' s
    by (rule stdin_put [OF inv _ _ len1])
      (use that pc holds in \<open>auto simp: stdin_pc_ok_def resume_ok_def signalled_def log_levels\<close>)
  have store: "Option.bind (line (user (rs_world R)))
      (\<lambda>b. Option.bind (write_bytes 0 d b) (write_bytes (length d) [CHR 0x00])) = Some ?b1"
    using b(1) len by (simp add: write_line)
  show ?thesis
    unfolding stdin_stored_def Let_def store option.case using move by auto
qed

lemma stdin_strip_inv:
  assumes inv: "stdin_inv n t R" and pc: "rs_stdin R = SP_Strip d"
  shows "\<exists>R'. stdin_strip d R = Some R' \<and> stdin_inv n t R'"
proof -
  obtain b c where b: "line (user (rs_world R)) = Some b" "length b = unat n" and d: "d \<noteq> []"
      "b = map Some d @ Some (CHR 0x00) # c"
    using inv pc by (auto simp: stdin_inv_def Let_def stdin_pc_ok_def line_holds_def)
  let ?b1 = "if last d = nl then b[length d - 1 := Some (CHR 0x00)] else b"
  have len1: "length ?b1 = unat n" using b(2) by simp
  have str: "c_string ?b1 \<noteq> None"
    using d strip_line [OF d(1), of "Some (CHR 0x00) # c" "CHR 0x00"] by (simp add: c_string_prefix)
  have move: "stdin_inv n t (stdin_goto pc' (put_line (Some ?b1) (rs_world R)) R)"
    if "pc' = SP_While \<or> pc' = SP_Log LOG_LEVEL_DEBUG stdin_TAG s SP_While" for pc' s
    by (rule stdin_put [OF inv _ _ len1])
      (use that pc in \<open>auto simp: stdin_pc_ok_def resume_ok_def signalled_def log_levels\<close>)
  show ?thesis
    using str b(1) move by (auto simp: stdin_strip_def Let_def split: option.splits)
qed

text \<open>A step leaves the two other threads where they are.\<close>

lemma stdin_step_frame:
  assumes "stdin_step ans R = Some R'"
  shows "rs_main R' = rs_main R \<and> rs_log R' = rs_log R \<and> g_log_running (rs_world R') = g_log_running (rs_world R) \<and>
    g_running (user (rs_world R')) = g_running (user (rs_world R))"
  using assms
  by (auto simp: stdin_step_def stdin_stored_def stdin_strip_def stdin_goto_def set_handle_def put_line_def Let_def
      ALOG_begin_def ALOG_send_def Option.bind_eq_Some_conv
      split: stdin_pc.splits stdin_answer.splits poll_answer.splits read_answer.splits option.splits if_splits)

lemma stdin_step_signalled: "stdin_step ans R = Some R' \<Longrightarrow> signalled (rs_stdin R) \<Longrightarrow> signalled (rs_stdin R')"
  by (auto simp: stdin_step_def signalled_def stdin_goto_def Let_def split: stdin_pc.splits prod.splits)

lemma same_task_state: "same_task w (set_handle stdin_handle ((handles w stdin_handle)\<lparr>th_state := st\<rparr>) w)"
  by (auto simp: same_task_def set_handle_def)

lemma stdin_begin_inv:
  assumes inv: "stdin_inv n t R" and pc: "rs_stdin R = SP_Begin"
  shows "\<exists>R'. stdin_step ans R = Some R' \<and> stdin_inv n t R'"
proof -
  let ?w = "set_handle stdin_handle ((handles (rs_world R) stdin_handle)\<lparr>th_state := TASK_STATE_RUNNING\<rparr>) (rs_world R)"
  have size: "buf_size_arg (user (rs_world R)) = n" using inv by (simp add: stdin_inv_def Let_def)
  let ?R = "R\<lparr>rs_size := n, rs_stdin := SP_While\<rparr>"
  have "stdin_inv n t ?R" using inv pc by (simp add: stdin_inv_defs)
  then have "stdin_inv n t (stdin_goto (SP_Log LOG_LEVEL_DEBUG stdin_TAG ''ready for input...'' SP_While) ?w ?R)"
    by (rule stdin_move) (use inv in \<open>simp_all add: same_task_state stdin_inv_wf stdin_pc_ok_def resume_ok_def
        signalled_def log_levels\<close>)
  then show ?thesis using pc size by (simp add: stdin_step_def Let_def stdin_goto_def)
qed

lemma stdin_log_inv:
  assumes inv: "stdin_inv n t R" and pc: "rs_stdin R = SP_Log level tag msg k"
  shows "\<exists>R'. stdin_step ans R = Some R' \<and> stdin_inv n t R'"
proof -
  obtain m w where m: "ALOG_begin level tag msg (rs_world R) = (m, w)" by fastforce
  have ok: "0 \<le> level" "level < 4" "resume_ok k (rs_world R)"
    using inv pc by (simp_all add: stdin_inv_def Let_def stdin_pc_ok_def)
  have w: "logged (rs_world R) w" "level_ok m"
    using ALOG_begin_wf [OF stdin_inv_wf [OF inv] ok(1,2) m] by auto
  have "line (user w) = line (user (rs_world R))" using logged_world [OF w(1)] by simp
  then have "resume_ok k w" using ok(3) by (simp add: resume_ok_def line_holds_def cong: stdin_pc.case_cong)
  then have "stdin_inv n t (stdin_goto (SP_Send tag m k) w R)"
    by (intro stdin_move [OF inv]) (use pc w in \<open>simp_all add: same_task_logged loggedD stdin_pc_ok_def signalled_def\<close>)
  then show ?thesis using pc m by (simp add: stdin_step_def)
qed

lemma stdin_send_inv:
  assumes inv: "stdin_inv n t R" and pc: "rs_stdin R = SP_Send tag m k"
  shows "\<exists>R'. stdin_step ans R = Some R' \<and> stdin_inv n t R'"
proof -
  have ok: "level_ok m" "resume_ok k (rs_world R)"
    using inv pc by (simp_all add: stdin_inv_def Let_def stdin_pc_ok_def)
  obtain w where w: "ALOG_send tag m (rs_world R) = Some w" "logged (rs_world R) w"
    using ALOG_send_logged [OF stdin_inv_wf [OF inv], of m tag] ok(1) by (auto simp: level_ok_def)
  have "line (user w) = line (user (rs_world R))" using logged_world [OF w(2)] by simp
  then have k: "resume_ok k w" using ok(2) by (simp add: resume_ok_def line_holds_def cong: stdin_pc.case_cong)
  then have "stdin_inv n t (stdin_goto k w R)"
    by (intro stdin_move [OF inv])
      (use pc w(2) in \<open>auto simp: same_task_logged loggedD stdin_pc_ok_def resume_ok_def signalled_def split: stdin_pc.splits\<close>)
  then show ?thesis using pc w by (simp add: stdin_step_def)
qed

lemma stdin_step_inv:
  assumes inv: "stdin_inv n t R" and n: "0 < unat n" and en: "stdin_enabled ans R"
  shows "\<exists>R'. stdin_step ans R = Some R' \<and> stdin_inv n t R'"
proof -
  note move = stdin_move [OF inv _ _ same_task_refl stdin_inv_wf [OF inv]]
  show ?thesis
  proof (cases "rs_stdin R")
    case SP_Begin
    then show ?thesis by (rule stdin_begin_inv [OF inv])
  next
    case SP_While
    then show ?thesis
      by (auto simp: stdin_step_def Let_def stdin_pc_ok_def resume_ok_def signalled_def log_levels intro!: move)
  next
    case SP_Poll
    then obtain p where "ans = SA_Poll p" using en by (auto simp: stdin_enabled_def split: stdin_answer.splits)
    with SP_Poll show ?thesis
      by (cases p) (auto simp: stdin_step_def Let_def stdin_warn_def stdin_pc_ok_def resume_ok_def signalled_def
          log_levels intro!: move)
  next
    case SP_Read
    then obtain r where r: "ans = SA_Read r" using en by (auto simp: stdin_enabled_def read_ok_def split: stdin_answer.splits)
    show ?thesis
    proof (cases r)
      case (Read_Data d)
      then have "d \<noteq> []" "length d \<le> unat (rs_size R - 1)" using en SP_Read r by (simp_all add: stdin_enabled_def read_ok_def)
      from stdin_stored_inv [OF inv SP_Read n this] show ?thesis
        using SP_Read r Read_Data by (simp add: stdin_step_def)
    qed (use SP_Read r in \<open>auto simp: stdin_step_def Let_def stdin_warn_def stdin_pc_ok_def resume_ok_def signalled_def
        log_levels intro!: move\<close>)
  next
    case (SP_Flush d)
    then have d: "line_holds d (rs_world R)" using inv by (simp add: stdin_inv_def Let_def stdin_pc_ok_def)
    obtain r where "ans = SA_Read r" using en SP_Flush by (auto simp: stdin_enabled_def read_ok_def split: stdin_answer.splits)
    with SP_Flush d inv show ?thesis
      by (cases r) (auto simp: stdin_step_def Let_def stdin_pc_ok_def signalled_def intro!: move)
  next
    case (SP_Strip d)
    then show ?thesis using stdin_strip_inv [OF inv SP_Strip] by (simp add: stdin_step_def)
  next
    case (SP_Log level tag msg k)
    then show ?thesis by (rule stdin_log_inv [OF inv])
  next
    case (SP_Send tag m k)
    then show ?thesis by (rule stdin_send_inv [OF inv])
  next
    case SP_Mark
    have "stdin_inv n t (stdin_goto SP_Signal
        (set_handle stdin_handle ((handles (rs_world R) stdin_handle)\<lparr>th_state := TASK_STATE_STOPPED\<rparr>) (rs_world R)) R)"
      by (rule stdin_move [OF inv])
        (use SP_Mark inv in \<open>simp_all add: same_task_state stdin_inv_wf stdin_pc_ok_def signalled_def\<close>)
    with SP_Mark show ?thesis by (simp add: stdin_step_def Let_def)
  next
    case SP_Signal
    obtain e where e: "th_done_fd (handles (rs_world R) stdin_handle) = Some e"
      using inv by (auto simp: stdin_inv_def Let_def stdin_up_def)
    then obtain e' where "efd_signal (Some e) = Some e'" by (cases "efd_signal (Some e)") (auto simp: efd_signal_none)
    with SP_Signal inv e efd_signal_readable [OF this] show ?thesis
      by (auto simp: stdin_step_def stdin_inv_defs stdin_goto_def stdin_up_def readable_def set_handle_def log_wf_def
          log_levels)
  next
    case SP_Return
    with inv show ?thesis
      by (auto simp: stdin_step_def stdin_inv_defs stdin_goto_def stdin_up_def readable_def log_wf_def)
  next
    case SP_Done
    with en show ?thesis by (simp add: stdin_enabled_def)
  qed
qed

text \<open>The two halves of its log calls are steps of the logger; its other steps are not seen there.\<close>

lemma stdin_step_log:
  assumes m: "rt_matches S R" and ok: "stdin_pc_ok (rs_stdin R) (rs_world R)" and stp: "stdin_step ans R = Some R'"
  shows "rt_matches S R' \<or> (\<exists>a S'. log_enabled a S \<and> log_act localtime a S = Some S' \<and> rt_matches S' R')"
proof (cases "rs_stdin R")
  case (SP_Log level tag msg k)
  obtain m w where mw: "ALOG_begin level tag msg (rs_world R) = (m, w)" by fastforce
  let ?S = "S\<lparr>ls_state := log_state.truncate w, ls_pending := (ls_pending S)(1 := Some (tag, m))\<rparr>"
  have "R' = stdin_goto (SP_Send tag m k) w R" using stp SP_Log mw by (simp add: stdin_step_def)
  then have "rt_matches ?S R'"
    using rt_matchesD [OF m] SP_Log by (auto intro!: rt_matchesI simp: stdin_goto_def fun_eq_iff)
  moreover have "log_enabled (Act_Begin 1 level tag msg) S"
    using ok SP_Log rt_matchesD(3) [OF m] by (simp add: log_enabled_def stdin_pc_ok_def)
  moreover have "log_act localtime (Act_Begin 1 level tag msg) S = Some ?S"
    using mw rt_matchesD(1) [OF m] by (simp add: log_act_def truncate_ALOG_begin)
  ultimately show ?thesis by fastforce
next
  case (SP_Send tag msg k)
  obtain w where w: "ALOG_send tag msg (rs_world R) = Some w" "R' = stdin_goto k w R"
    using stp SP_Send by (auto simp: stdin_step_def)
  have pend: "ls_pending S 1 = Some (tag, msg)" using rt_matchesD(3) [OF m] SP_Send by simp
  obtain ms where S': "log_act localtime (Act_Send 1) S =
      Some (S\<lparr>ls_state := log_state.truncate w, ls_accepted := ls_accepted S @ ms, ls_pending := (ls_pending S)(1 := None)\<rparr>)"
    using truncate_ALOG_send [OF w(1)] pend rt_matchesD(1) [OF m] by (auto simp: log_act_def sys_send_def)
  have "stdin_pending k = (\<lambda>i. None)"
    using ok SP_Send by (auto simp: stdin_pc_ok_def resume_ok_def fun_eq_iff split: stdin_pc.splits)
  then have "rt_matches (S\<lparr>ls_state := log_state.truncate w, ls_accepted := ls_accepted S @ ms,
      ls_pending := (ls_pending S)(1 := None)\<rparr>) R'"
    using rt_matchesD [OF m] SP_Send w(2) by (auto intro!: rt_matchesI simp: stdin_goto_def fun_eq_iff)
  moreover have "log_enabled (Act_Send 1) S" using pend by (simp add: log_enabled_def)
  ultimately show ?thesis using S' by fastforce
qed (use m stp in \<open>auto simp: stdin_step_def stdin_stored_def stdin_strip_def stdin_warn_def stdin_goto_def set_handle_def
    put_line_def Let_def fun_eq_iff rt_matches_def log_view_def
    split: stdin_answer.splits poll_answer.splits read_answer.splits option.splits if_splits\<close>)

section \<open>The phases of a run\<close>

text \<open>The log task in its outer loop with the flag set; and after \<open>log_task_stop\<close>, with nothing left once the drain is over.\<close>

definition log_live :: "log_sys \<Rightarrow> bool" where
  "log_live S \<longleftrightarrow> g_log_running (ls_state S) \<and> (case ls_pc S of
     LT_Begin \<Rightarrow> True | LT_Begin_Send m \<Rightarrow> True | LT_While \<Rightarrow> True | LT_Poll \<Rightarrow> True
   | LT_Receive fin \<Rightarrow> \<not> fin | LT_Print fin m \<Rightarrow> \<not> fin | _ \<Rightarrow> False)"

definition log_draining :: "log_sys \<Rightarrow> bool" where
  "log_draining S \<longleftrightarrow> stopping S \<and> (drain_over S \<longrightarrow> queued (ls_state S) = [])"

text \<open>The stdin task has been joined, destroyed and its buffer released.\<close>

definition stdin_gone :: "nat \<Rightarrow> rt_world \<Rightarrow> bool" where
  "stdin_gone t w \<longleftrightarrow> threads w t = T_Joined \<and> arrays w g_stdin_tasks = dead_array \<and>
     line (user w) = None \<and> th_done_fd (handles w stdin_handle) = None"

definition rt_phase :: "size_t \<Rightarrow> nat \<Rightarrow> log_sys \<Rightarrow> rt_sys \<Rightarrow> bool" where
  "rt_phase n t S R = (case rs_main R of
     MP_Loop \<Rightarrow> stdin_inv n t R \<and> log_live S \<and> g_running (user (rs_world R))
   | MP_Shutdown \<Rightarrow> stdin_inv n t R \<and> log_live S \<and> \<not> g_running (user (rs_world R))
   | MP_Stop \<Rightarrow> stdin_inv n t R \<and> log_live S \<and> \<not> g_running (user (rs_world R))
   | MP_Poll_Tasks \<Rightarrow> stdin_inv n t R \<and> log_live S \<and> \<not> g_running (user (rs_world R))
   | MP_Join_Tasks \<Rightarrow> stdin_inv n t R \<and> log_live S \<and> \<not> g_running (user (rs_world R)) \<and> signalled (rs_stdin R)
   | MP_Stop_Log \<Rightarrow> stdin_gone t (rs_world R) \<and> rs_stdin R = SP_Done \<and> log_live S
   | MP_Poll_Log \<Rightarrow> stdin_gone t (rs_world R) \<and> rs_stdin R = SP_Done \<and> log_draining S
   | MP_Join_Log \<Rightarrow> stdin_gone t (rs_world R) \<and> rs_stdin R = SP_Done \<and> log_draining S \<and> ls_pc S \<in> {LT_Return, LT_Done}
   | MP_Done k \<Rightarrow> False)"

text \<open>What the world is like when \<open>main\<close> has returned 0.\<close>

definition rt_released :: "nat \<Rightarrow> rt_world \<Rightarrow> bool" where
  "rt_released t w \<longleftrightarrow> stdin_gone t w \<and> log_thread w = T_Joined \<and> g_log_done_fd w = Null \<and>
     q_buffer (g_log_queue w) = Null \<and> q_event_fd (g_log_queue w) = None \<and> \<not> sig_fd_open (user w)"

definition rt_ended :: "nat \<Rightarrow> log_sys \<Rightarrow> rt_sys \<Rightarrow> bool" where
  "rt_ended t S R \<longleftrightarrow> rs_main R = MP_Done EXIT_FAILURE \<or>
     rs_main R = MP_Done EXIT_SUCCESS \<and> rs_stdin R = SP_Done \<and> rt_released t (rs_world R) \<and>
     ls_printed S = ls_accepted S \<and> stderr (rs_world R) = stderr (ls_state S)"

definition rt_inv :: "(int \<Rightarrow> int \<times> int \<times> int) \<Rightarrow> log_sys \<Rightarrow> size_t \<Rightarrow> nat \<Rightarrow> rt_sys \<Rightarrow> bool" where
  "rt_inv localtime S0 n t R \<longleftrightarrow> (\<exists>S. log_reach localtime S0 (Some S) \<and> log_sys_inv S \<and>
     (rt_matches S R \<and> rt_phase n t S R \<or> rt_ended t S R))"

lemma log_live_step:
  assumes "log_live S" "log_task_step localtime ans S = Some S'"
  shows "log_live S'"
  using assms
  by (auto simp: log_live_def log_task_step_def Let_def goto_pc_def log_begin_own_def sys_send_def ALOG_begin_def
      ALOG_send_def Option.bind_eq_Some_conv split: log_pc.splits poll_answer.splits prod.splits if_splits)

lemma log_draining_step:
  assumes "log_sys_inv S" "log_draining S" "log_task_step localtime ans S = Some S'"
  shows "log_draining S'"
proof (cases "ls_pc S = LT_Done")
  case True
  with assms show ?thesis by (auto simp: log_task_step_def)
next
  case False
  show ?thesis using log_task_progress [OF assms(1) _ False assms(3)] assms(2) by (auto simp: log_draining_def)
qed

lemma log_live_stop: "log_live S \<Longrightarrow> log_draining (S\<lparr>ls_state := log_task_stop (ls_state S)\<rparr>)"
  by (auto simp: log_live_def log_draining_def stopping_def drain_over_def log_task_stop_def split: log_pc.splits)

lemma log_calls_running: "log_calls s s' \<Longrightarrow> g_log_running s' = g_log_running s"
proof (induction rule: log_calls.induct)
  case (call s s1 level tag msg s2)
  then show ?case
    by (auto simp: ALOG_def ALOG_begin_def ALOG_send_def Let_def Option.bind_eq_Some_conv split: if_splits)
qed simp

lemma same_task_more:
  assumes "log_state.more w' = log_state.more w"
  shows "same_task w w'" "user w' = user w" "stdin_gone t w' = stdin_gone t w"
proof -
  note same = world_of_more [OF assms]
  show "same_task w w'" "user w' = user w" "stdin_gone t w' = stdin_gone t w"
    by (auto simp: same_task_def stdin_gone_def same intro!: exI [of _ "th_state (handles w stdin_handle)"])
qed

lemma rt_matches_wf: "rt_matches S R \<Longrightarrow> log_sys_inv S \<Longrightarrow> log_wf (rs_world R)"
  by (auto simp: log_sys_inv_def rt_matchesD log_wf_def log_state.defs)

section \<open>Every step keeps the invariant\<close>

text \<open>A step of another thread leaves the stdin thread and its task alone.\<close>

lemma rt_phase_same:
  assumes "rt_phase n t S R" "rs_main R' = rs_main R" "rs_stdin R' = rs_stdin R" "rs_size R' = rs_size R"
    and more: "log_state.more (rs_world R') = log_state.more (rs_world R)" and "log_wf (rs_world R')"
    and live: "log_live S \<Longrightarrow> log_live S'" "log_draining S \<Longrightarrow> log_draining S'"
      "log_draining S \<Longrightarrow> ls_pc S \<in> {LT_Return, LT_Done} \<Longrightarrow> ls_pc S' \<in> {LT_Return, LT_Done}"
  shows "rt_phase n t S' R'"
proof -
  note same = same_task_more [OF more]
  have "stdin_inv n t R \<Longrightarrow> stdin_inv n t R'"
    using stdin_inv_same [OF _ same(1) assms(6,3,4)] by blast
  with assms same(2,3) show ?thesis
    by (cases "rs_main R") (auto simp: rt_phase_def)
qed

lemma rt_log_inv:
  assumes "log_reach localtime S0 (Some S)" "log_sys_inv S" "rt_matches S R" "rt_phase n t S R"
    and en: "log_enabled (Act_Task ans) (log_view R)"
  shows "\<exists>R'. rt_act localtime sig_fd (RA_Log ans) R = Some R' \<and> rt_inv localtime S0 n t R'"
proof -
  have en': "log_enabled (Act_Task ans) S" using en rt_log_enabled [OF assms(3)] by simp
  obtain S' where S': "log_task_step localtime ans S = Some S'" "log_sys_inv S'"
    using log_task_step_inv [OF assms(2)] by blast
  note R' = rt_log_step [OF assms(3) S'(1)]
  have "log_reach localtime S0 (Some S')"
    using act_reach.step [OF assms(1) en'] S'(1) by (simp add: log_act_def)
  moreover have "ls_pc S \<in> {LT_Return, LT_Done} \<Longrightarrow> ls_pc S' \<in> {LT_Return, LT_Done}"
    using S'(1) by (auto simp: log_task_step_def goto_pc_def)
  then have "rt_phase n t S' (log_back R S')"
    by (intro rt_phase_same [OF assms(4)])
      (use rt_matches_wf [OF conjunct2 [OF R'] S'(2)] log_live_step [OF _ S'(1)] log_draining_step [OF assms(2) _ S'(1)] in
        \<open>simp_all add: log_back_def log_state.defs\<close>)
  ultimately show ?thesis using R' S'(2) unfolding rt_inv_def by blast
qed

lemma rt_clock_inv:
  assumes "log_reach localtime S0 (Some S)" "log_sys_inv S" "rt_matches S R" "rt_phase n t S R"
  shows "\<exists>R'. rt_act localtime sig_fd (RA_Clock c) R = Some R' \<and> rt_inv localtime S0 n t R'"
proof -
  let ?S = "S\<lparr>ls_state := (ls_state S)\<lparr>clock := c\<rparr>\<rparr>"
  let ?R = "R\<lparr>rs_world := (rs_world R)\<lparr>clock := c\<rparr>\<rparr>"
  have "log_enabled (Act_Clock c) S" "log_act localtime (Act_Clock c) S = Some ?S"
    by (simp_all add: log_enabled_def log_act_def)
  then have "log_reach localtime S0 (Some ?S)" "log_sys_inv ?S"
    using act_reach.step [OF assms(1), of "Act_Clock c"] log_act_inv [OF assms(2), of "Act_Clock c" localtime] by auto
  moreover have m: "rt_matches ?S ?R"
    using rt_matchesD [OF assms(3)] by (auto intro!: rt_matchesI simp: log_state.defs)
  moreover have "rt_phase n t ?S ?R"
    by (rule rt_phase_same [OF assms(4)])
      (use rt_matches_wf [OF assms(3,2)] in \<open>simp_all add: log_wf_def log_live_def log_draining_def stopping_def
        drain_over_def cong: log_pc.case_cong\<close>)
  ultimately show ?thesis unfolding rt_inv_def by (auto simp: rt_act_def)
qed

lemma log_live_view:
  assumes "rt_matches S R" "rt_matches S' R'" "log_live S"
    and "g_log_running (rs_world R') = g_log_running (rs_world R)" "rs_log R' = rs_log R"
  shows "log_live S'"
  using assms(3-5) by (simp add: log_live_def rt_matchesD [OF assms(1)] rt_matchesD [OF assms(2)] log_state.defs)

text \<open>The stdin thread moves only while it is not joined, and then the log task is not told to stop.\<close>

lemma rt_stdin_inv:
  assumes "log_reach localtime S0 (Some S)" "log_sys_inv S" "rt_matches S R" "rt_phase n t S R"
    and en: "stdin_enabled ans R" and n: "0 < unat n"
  shows "\<exists>R'. rt_act localtime sig_fd (RA_Stdin ans) R = Some R' \<and> rt_inv localtime S0 n t R'"
proof -
  have inv: "stdin_inv n t R" and live: "log_live S"
    using assms(4) en by (auto simp: rt_phase_def stdin_enabled_def split: main_pc.splits)
  obtain R' where R': "stdin_step ans R = Some R'" "stdin_inv n t R'"
    using stdin_step_inv [OF inv n en] by blast
  note frame = stdin_step_frame [OF R'(1)]
  have ok: "stdin_pc_ok (rs_stdin R) (rs_world R)" using inv by (simp add: stdin_inv_def Let_def)
  have "\<exists>S'. log_reach localtime S0 (Some S') \<and> log_sys_inv S' \<and> rt_matches S' R'"
    using stdin_step_log [OF assms(3) ok R'(1), of localtime]
  proof
    assume "\<exists>a S'. log_enabled a S \<and> log_act localtime a S = Some S' \<and> rt_matches S' R'"
    then obtain a S' where a: "log_enabled a S" "log_act localtime a S = Some S'" "rt_matches S' R'" by blast
    then show ?thesis using act_reach.step [OF assms(1) a(1)] log_act_inv [OF assms(2) a(1), of localtime] by auto
  qed (use assms(1,2) in blast)
  then obtain S' where S': "log_reach localtime S0 (Some S')" "log_sys_inv S'" "rt_matches S' R'" by blast
  have "log_live S'" using log_live_view [OF assms(3) S'(3) live] frame by simp
  then have "rt_phase n t S' R'"
    using assms(4) en R'(2) frame stdin_step_signalled [OF R'(1)]
    by (auto simp: rt_phase_def stdin_enabled_def split: main_pc.splits)
  then show ?thesis using R'(1) S' unfolding rt_inv_def by (auto simp: rt_act_def)
qed

text \<open>A part of \<open>main\<close> that touches the logger by log calls only.\<close>

lemma rt_calls:
  assumes "log_reach localtime S0 (Some S)" "log_sys_inv S0" "rt_matches S R" "log_live S"
    and calls: "only_logs (rs_world R) (rs_world R')"
    and same: "rs_log R' = rs_log R" "rs_stdin R' = rs_stdin R"
  shows "\<exists>S'. log_reach localtime S0 (Some S') \<and> log_sys_inv S' \<and> rt_matches S' R' \<and> log_live S'"
proof -
  have pend: "ls_pending S 0 = None"
    using rt_matchesD(3) [OF assms(3)] by (cases "rs_stdin R") simp_all
  have c: "log_calls (ls_state S) (log_state.truncate (rs_world R'))"
    using calls rt_matchesD(1) [OF assms(3)] by (simp add: only_logs_def)
  obtain S' where S': "log_reach localtime S0 (Some S')" "ls_state S' = log_state.truncate (rs_world R')"
      "ls_pending S' = ls_pending S" "ls_pc S' = ls_pc S"
    using log_reach_calls [OF c assms(1) refl pend] by blast
  have m: "rt_matches S' R'"
    using rt_matchesD [OF assms(3)] S' same by (auto intro!: rt_matchesI)
  have "g_log_running (rs_world R') = g_log_running (rs_world R)"
    using log_calls_running [OF c] rt_matchesD(1) [OF assms(3)] by (simp add: log_state.defs)
  then have "log_live S'" using log_live_view [OF assms(3) m assms(4)] same by simp
  moreover have "log_sys_inv S'" using log_reach_inv [OF S'(1) assms(2)] by simp
  ultimately show ?thesis using S'(1) m by blast
qed

text \<open>A part of \<open>main\<close> with the stdin task still there: only log calls and the state in the handle.\<close>

lemma rt_main_calls:
  assumes "log_reach localtime S0 (Some S)" "log_sys_inv S0" "rt_matches S R" "log_live S" "stdin_inv n t R"
    and w: "only_logs (rs_world R) w" "same_task (rs_world R) w"
    and pc: "\<And>S'. stdin_inv n t (R\<lparr>rs_world := w, rs_main := pc\<rparr>) \<Longrightarrow> log_live S' \<Longrightarrow>
      rt_phase n t S' (R\<lparr>rs_world := w, rs_main := pc\<rparr>)"
  shows "rt_inv localtime S0 n t (R\<lparr>rs_world := w, rs_main := pc\<rparr>)"
proof -
  let ?R = "R\<lparr>rs_world := w, rs_main := pc\<rparr>"
  obtain S' where S': "log_reach localtime S0 (Some S')" "log_sys_inv S'" "rt_matches S' ?R" "log_live S'"
    using rt_calls [OF assms(1-4), of ?R] w(1) by auto
  have "stdin_inv n t ?R"
    by (rule stdin_inv_same [OF assms(5)]) (use w(2) rt_matches_wf [OF S'(3,2)] in simp_all)
  then show ?thesis using S' pc unfolding rt_inv_def by blast
qed

lemma main_loop_one:
  assumes "g_running (user w)" "log_wf w"
  shows "(\<exists>w'. main_loop [answer] w = Some (M_Exit EXIT_FAILURE, w')) \<or> main_loop [answer] w = Some (M_Waits, w) \<or>
    (\<exists>u. main_loop [answer] w = Some (M_Next, w\<lparr>user := u\<rparr>) \<and> line u = line (user w) \<and>
      buf_size_arg u = buf_size_arg (user w) \<and> \<not> g_running u)"
proof (cases answer)
  case (Sig_Error err)
  with assms LOG_ERRNO_wf(2) [OF assms(2), of main_TAG
      "''Failed to poll signal file descriptor, SHOULD NOT HAPPEN: ''" err]
  show ?thesis by (auto simp: main_loop.simps [of "[Sig_Error err]"])
next
  case Sig_Received
  let ?u = "(user w)\<lparr>g_sigint_count := g_sigint_count (user w) + 1, g_running := False,
    rt_stdout := rt_stdout (user w) @ [newline]\<rparr>"
  have "main_loop [answer] w = Some (M_Next, w\<lparr>user := ?u\<rparr>)"
    using assms Sig_Received by (simp add: main_loop.simps)
  then show ?thesis by (intro disjI2 exI [of _ ?u]) simp
qed (use assms in \<open>simp add: main_loop.simps\<close>)

lemma rt_main_loop_inv:
  assumes "log_reach localtime S0 (Some S)" "log_sys_inv S0" "log_sys_inv S" "rt_matches S R" "rt_phase n t S R"
    and pc: "rs_main R = MP_Loop"
  shows "\<exists>R'. main_step sig_fd ans R = Some R' \<and> rt_inv localtime S0 n t R'"
proof -
  have phase: "stdin_inv n t R" "log_live S" "g_running (user (rs_world R))"
    using assms(5) pc by (simp_all add: rt_phase_def)
  from main_loop_one [OF phase(3) rt_matches_wf [OF assms(4,3)], of ans] show ?thesis
  proof (elim disjE exE conjE)
    fix w' assume "main_loop [ans] (rs_world R) = Some (M_Exit EXIT_FAILURE, w')"
    then have "main_step sig_fd ans R = Some (R\<lparr>rs_world := w', rs_main := MP_Done EXIT_FAILURE\<rparr>)"
      using pc by (simp add: main_step_def main_goto_def)
    then show ?thesis using assms(1,3) by (auto simp: rt_inv_def rt_ended_def)
  next
    assume "main_loop [ans] (rs_world R) = Some (M_Waits, rs_world R)"
    moreover have "R\<lparr>rs_world := rs_world R, rs_main := MP_Loop\<rparr> = R" using pc by (cases R) simp
    ultimately have "main_step sig_fd ans R = Some R"
      using pc by (simp add: main_step_def main_goto_def del: rt_sys.update_convs)
    then show ?thesis using assms by (auto simp: rt_inv_def)
  next
    fix u
    let ?w = "(rs_world R)\<lparr>user := u\<rparr>"
    assume u: "main_loop [ans] (rs_world R) = Some (M_Next, ?w)" "line u = line (user (rs_world R))"
      "buf_size_arg u = buf_size_arg (user (rs_world R))" "\<not> g_running u"
    have "rt_inv localtime S0 n t (R\<lparr>rs_world := ?w, rs_main := MP_Shutdown\<rparr>)"
      by (rule rt_main_calls [OF assms(1,2,4) phase(2,1)])
        (use u in \<open>auto simp: same_task_def rt_phase_def intro!: exI [of _ "th_state (handles (rs_world R) stdin_handle)"]\<close>)
    then show ?thesis using u(1) pc by (auto simp: main_step_def main_goto_def)
  qed
qed

lemma poll_arrays_done:
  assumes "stdin_up t w" "sig_fd \<ge> 0"
  shows "poll_arrays all_done sig_fd 0 False task_arrays w = Some w"
  using poll_arrays_one [OF assms, of all_done 1 True False]
  by (simp add: task_arrays_def all_done_def poll_result_def)

lemma rt_main_stop_inv:
  assumes "log_reach localtime S0 (Some S)" "log_sys_inv S0" "rt_matches S R" "rt_phase n t S R"
    and en: "main_enabled R" and "sig_fd \<ge> 0"
    and pc: "rs_main R \<in> {MP_Shutdown, MP_Stop, MP_Poll_Tasks}"
  shows "\<exists>R'. main_step sig_fd ans R = Some R' \<and> rt_inv localtime S0 n t R'"
proof -
  let ?w = "rs_world R"
  have phase: "stdin_inv n t R" "log_live S" "\<not> g_running (user ?w)"
    using assms(4) pc by (auto simp: rt_phase_def)
  have up: "stdin_up t ?w" using phase(1) by (simp add: stdin_inv_def Let_def)
  note step = rt_main_calls [OF assms(1-3) phase(2,1)]
  from pc consider "rs_main R = MP_Shutdown" | "rs_main R = MP_Stop" | "rs_main R = MP_Poll_Tasks" by auto
  then show ?thesis
  proof cases
    case 1
    obtain w where w: "LOGD main_TAG ''received SIGINT, shutting down...'' ?w = Some w" "logged ?w w"
      using LOG_wf(1) [OF stdin_inv_wf [OF phase(1)]] by blast
    have "rt_inv localtime S0 n t (R\<lparr>rs_world := w, rs_main := MP_Stop\<rparr>)"
      by (rule step) (use w phase in \<open>auto simp: same_task_logged rt_phase_def logged_world intro: only_logs_LOG\<close>)
    with 1 w(1) show ?thesis by (simp add: main_step_def main_goto_def)
  next
    case 2
    obtain w where w: "stop_arrays task_arrays ?w = Some w"
        "handles w stdin_handle = (handles ?w stdin_handle)\<lparr>th_state := TASK_STATE_STOPPING\<rparr>"
        "arrays w = arrays ?w" "threads w = threads ?w" "user w = user ?w"
      using stop_arrays_up [OF up] by blast
    have "rt_inv localtime S0 n t (R\<lparr>rs_world := w, rs_main := MP_Poll_Tasks\<rparr>)"
      by (rule step) (use w phase only_logs_stop_arrays [OF w(1)] in \<open>auto simp: same_task_def rt_phase_def\<close>)
    with 2 w(1) show ?thesis by (simp add: main_step_def main_goto_def)
  next
    case 3
    have "signalled (rs_stdin R)"
      using en 3 stdin_up_array(2) [OF up] phase(1) by (simp add: main_enabled_def Let_def stdin_inv_def)
    then have "rt_inv localtime S0 n t (R\<lparr>rs_world := ?w, rs_main := MP_Join_Tasks\<rparr>)"
      by (intro step) (use phase in \<open>auto simp: rt_phase_def\<close>)
    with 3 poll_arrays_done [OF up assms(6)] show ?thesis by (simp add: main_step_def main_goto_def)
  qed
qed

lemma rt_main_join_inv:
  assumes "log_reach localtime S0 (Some S)" "log_sys_inv S0" "rt_matches S R" "rt_phase n t S R"
    and en: "main_enabled R" and pc: "rs_main R = MP_Join_Tasks"
  shows "\<exists>R'. main_step sig_fd ans R = Some R' \<and> rt_inv localtime S0 n t R'"
proof -
  let ?w = "rs_world R"
  have phase: "stdin_inv n t R" "log_live S" "signalled (rs_stdin R)"
    using assms(4) pc by (auto simp: rt_phase_def)
  have up: "stdin_up t ?w" and readable: "readable ?w stdin_handle" and t: "th_thread (handles ?w stdin_handle) = t"
    using phase by (simp_all add: stdin_inv_def Let_def stdin_up_def)
  have ended: "threads ?w t = T_Exited"
    using en pc stdin_up_array(2) [OF up] readable t by (simp add: main_enabled_def Let_def)
  then have exited: "rs_stdin R = SP_Done" using phase(1) by (auto simp: stdin_inv_def Let_def split: if_splits)
  obtain w where w: "destroy_arrays task_arrays ?w = Some w" "threads w = (threads ?w)(t := T_Joined)"
      "arrays w = (arrays ?w)(g_stdin_tasks := dead_array)" "line (user w) = None"
      "handles w = (handles ?w)(stdin_handle := destroyed_handle (handles ?w stdin_handle))"
    using destroy_arrays_ok [OF up] ended readable by auto
  let ?R = "R\<lparr>rs_world := w, rs_main := MP_Stop_Log\<rparr>"
  obtain S' where "log_reach localtime S0 (Some S')" "log_sys_inv S'" "rt_matches S' ?R" "log_live S'"
    using rt_calls [OF assms(1-3) phase(2), of ?R] only_logs_destroy_arrays [OF w(1)] by auto
  moreover have "rt_phase n t S' ?R" if "log_live S'" for S'
    using that w exited by (simp add: rt_phase_def stdin_gone_def destroyed_handle_def)
  ultimately have "rt_inv localtime S0 n t ?R" unfolding rt_inv_def by blast
  with w(1) pc show ?thesis by (simp add: main_step_def main_goto_def)
qed

lemma rt_main_stop_log_inv:
  assumes "log_reach localtime S0 (Some S)" "log_sys_inv S" "rt_matches S R" "rt_phase n t S R"
    and pc: "rs_main R = MP_Stop_Log"
  shows "\<exists>R'. main_step sig_fd ans R = Some R' \<and> rt_inv localtime S0 n t R'"
proof -
  let ?S = "S\<lparr>ls_state := log_task_stop (ls_state S)\<rparr>"
  let ?R = "R\<lparr>rs_world := log_task_stop (rs_world R), rs_main := MP_Poll_Log\<rparr>"
  have "log_enabled Act_Stop S" "log_act localtime Act_Stop S = Some ?S"
    by (simp_all add: log_enabled_def log_act_def)
  then have "log_reach localtime S0 (Some ?S)" "log_sys_inv ?S"
    using act_reach.step [OF assms(1), of Act_Stop] log_act_inv [OF assms(2), of Act_Stop localtime] by auto
  moreover have "rt_matches ?S ?R"
    using rt_matchesD [OF assms(3)] by (auto intro!: rt_matchesI simp: log_state.defs log_task_stop_def)
  moreover have "rt_phase n t ?S ?R"
    using assms(4) pc log_live_stop [of S] same_task_more(3) [of "log_task_stop (rs_world R)" "rs_world R"]
    by (simp add: rt_phase_def log_task_stop_def)
  ultimately have "rt_inv localtime S0 n t ?R" unfolding rt_inv_def by blast
  with pc show ?thesis by (simp add: main_step_def main_goto_def)
qed

lemma rt_main_poll_log_inv:
  assumes "log_reach localtime S0 (Some S)" "log_sys_inv S" "rt_matches S R" "rt_phase n t S R"
    and en: "main_enabled R" and pc: "rs_main R = MP_Poll_Log"
  shows "\<exists>R'. main_step sig_fd ans R = Some R' \<and> rt_inv localtime S0 n t R'"
proof -
  let ?R = "R\<lparr>rs_main := MP_Join_Log\<rparr>"
  have "g_log_done_fd (rs_world R) = g_log_done_fd (ls_state S)"
    using rt_matchesD(1) [OF assms(3)] by (simp add: log_state.defs)
  then have "ls_pc S \<in> {LT_Return, LT_Done}"
    using en pc assms(2) by (auto simp: main_enabled_def log_sys_inv_def done_signalled_def efd_readable_def)
  then have "rt_phase n t S ?R" using assms(4) pc by (simp add: rt_phase_def)
  moreover have "rt_matches S ?R" using assms(3) by (simp add: rt_matches_def log_view_def)
  ultimately have "rt_inv localtime S0 n t ?R" using assms(1,2) unfolding rt_inv_def by blast
  with pc show ?thesis by (simp add: main_step_def main_goto_def)
qed

lemma main_end_ok:
  assumes "log_wf w" "log_thread w = T_Exited" "g_log_done_fd w = Valid e" "stdin_gone t w"
  shows "\<exists>w'. main_end w = Some w' \<and> rt_released t w' \<and> stderr w' = stderr w"
proof -
  have "fq_wf (g_log_queue w)" using assms(1) by (simp add: log_wf_def)
  from fq_destroy_wf [OF this] obtain q where q: "fifo_queue_destroy (g_log_queue w) = Some q"
      "q_buffer q = Null" "q_event_fd q = None" by auto
  then have "main_end w = Some (close_sig_fd (w\<lparr>log_thread := T_Joined, g_log_queue := q, g_log_done_fd := Null\<rparr>))"
    using assms(2,3) by (simp add: main_end_def log_task_join_def log_task_cleanup_def log_queue_destroy_def)
  with q assms(4) show ?thesis by (simp add: rt_released_def stdin_gone_def close_sig_fd_def)
qed

lemma rt_main_end_inv:
  assumes "log_reach localtime S0 (Some S)" "log_sys_inv S" "rt_matches S R" "rt_phase n t S R"
    and en: "main_enabled R" and pc: "rs_main R = MP_Join_Log"
  shows "\<exists>R'. main_step sig_fd ans R = Some R' \<and> rt_inv localtime S0 n t R'"
proof -
  have phase: "stdin_gone t (rs_world R)" "rs_stdin R = SP_Done" "log_draining S" "ls_pc S \<in> {LT_Return, LT_Done}"
    using assms(4) pc by (simp_all add: rt_phase_def)
  have same: "g_log_done_fd (rs_world R) = g_log_done_fd (ls_state S)" "stderr (rs_world R) = stderr (ls_state S)"
    using rt_matchesD(1) [OF assms(3)] by (simp_all add: log_state.defs)
  have printed: "ls_printed S = ls_accepted S"
    using phase(3,4) assms(2) by (auto simp: log_draining_def drain_over_def log_sys_inv_def)
  have "done_signalled (ls_state S) True" using assms(2) phase(4) by (auto simp: log_sys_inv_def)
  then obtain e where "g_log_done_fd (rs_world R) = Valid e" using same(1) by (simp add: done_signalled_def)
  from main_end_ok [OF rt_matches_wf [OF assms(3,2)] _ this phase(1)] en pc
  obtain w where w: "main_end (rs_world R) = Some w" "rt_released t w" "stderr w = stderr (rs_world R)"
    by (auto simp: main_enabled_def)
  let ?R = "R\<lparr>rs_world := w, rs_main := MP_Done EXIT_SUCCESS\<rparr>"
  have "rt_ended t S ?R" using w(2,3) phase(2) printed same(2) by (simp add: rt_ended_def)
  then have "rt_inv localtime S0 n t ?R" using assms(1,2) unfolding rt_inv_def by blast
  with w(1) pc show ?thesis by (simp add: main_step_def main_goto_def)
qed

section \<open>Reachable states\<close>

lemma rt_act_inv:
  assumes inv: "rt_inv localtime S0 n t R" and s0: "log_sys_inv S0" and en: "rt_enabled a R" and "sig_fd \<ge> 0" "0 < unat n"
  shows "\<exists>R'. rt_act localtime sig_fd a R = Some R' \<and> rt_inv localtime S0 n t R'"
proof -
  have "\<not> rt_ended t S R" for S using en by (auto simp: rt_enabled_def rt_over_def rt_ended_def)
  then obtain S where S: "log_reach localtime S0 (Some S)" "log_sys_inv S" "rt_matches S R" "rt_phase n t S R"
    using inv unfolding rt_inv_def by blast
  show ?thesis
  proof (cases a)
    case (RA_Main ans)
    have main: "main_enabled R" using en RA_Main by (simp add: rt_enabled_def)
    have "\<exists>R'. main_step sig_fd ans R = Some R' \<and> rt_inv localtime S0 n t R'"
    proof (cases "rs_main R")
      case (MP_Done k)
      then show ?thesis using S(4) by (simp add: rt_phase_def)
    qed (use rt_main_loop_inv [OF S(1) s0 S(2-4)] rt_main_stop_inv [OF S(1) s0 S(3,4) main assms(4)]
          rt_main_join_inv [OF S(1) s0 S(3,4) main] rt_main_stop_log_inv [OF S]
          rt_main_poll_log_inv [OF S main] rt_main_end_inv [OF S main] in simp_all)
    then show ?thesis using RA_Main by (simp add: rt_act_def)
  qed (use en rt_log_inv [OF S] rt_stdin_inv [OF S] rt_clock_inv [OF S] assms(5) in \<open>simp_all add: rt_enabled_def\<close>)
qed

definition rt_good :: "(int \<Rightarrow> int \<times> int \<times> int) \<Rightarrow> int \<Rightarrow> log_sys \<Rightarrow> size_t \<Rightarrow> nat \<Rightarrow> rt_sys \<Rightarrow> bool" where
  "rt_good localtime sig_fd S0 n t R \<longleftrightarrow> log_sys_inv S0 \<and> sig_fd \<ge> 0 \<and> 0 < unat n \<and> rt_inv localtime S0 n t R"

interpretation program: action_system rt_enabled "rt_act localtime sig_fd" "rt_good localtime sig_fd S0 n t"
  for localtime sig_fd S0 n t
  by unfold_locales (use rt_act_inv in \<open>auto simp: rt_good_def\<close>)

text \<open>The state in which \<open>main\<close> enters its loop; the two flags are 1 when the program is loaded.\<close>

lemma rt_start_inv:
  assumes "main_requests_ok env" "g_running (user w)" "g_log_running w"
  shows "\<exists>w0 w1. log_task_init (me_log env) LOG_QUEUE_SIZE PRIORITY_LOG_TASK (open_sig_fd w) = Some (0, w0) \<and>
    main_start env w = Some (M_Next, w1) \<and> log_sys_inv (log_sys_init (log_state.truncate w0)) \<and>
    rt_inv localtime (log_sys_init (log_state.truncate w0)) STDIN_LINE_BUF_SIZE (se_thread (me_stdin env)) (rt_sys_init w1)"
proof -
  let ?t = "se_thread (me_stdin env)"
  obtain w0 w1 where w: "log_task_init (me_log env) LOG_QUEUE_SIZE PRIORITY_LOG_TASK (open_sig_fd w) = Some (0, w0)"
      "log_started LOG_QUEUE_SIZE (open_sig_fd w) w0" "only_logs w0 w1" "main_start env w = Some (M_Next, w1)"
      "stdin_up ?t w1" "stdin_fresh ?t w w1"
    using main_start_up [OF assms(1)] by blast
  let ?S0 = "log_sys_init (log_state.truncate w0)"
  note sys = started_system(1) [OF w(2)]
  have "g_log_running w0" using w(2) assms(3) by (simp add: log_started_def open_sig_fd_def)
  then have live: "log_live ?S0" by (simp add: log_live_def log_sys_init_def log_state.defs)
  have m: "rt_matches ?S0 (rt_sys_init w0)"
    by (auto intro!: rt_matchesI simp: log_sys_init_def rt_sys_init_def fun_eq_iff)
  obtain S where S: "log_reach localtime ?S0 (Some S)" "log_sys_inv S" "rt_matches S (rt_sys_init w1)" "log_live S"
    using rt_calls [OF act_reach.start sys m live, of "rt_sys_init w1"] w(3) by (auto simp: rt_sys_init_def)
  have "stdin_inv STDIN_LINE_BUF_SIZE ?t (rt_sys_init w1)"
    using w(5,6) by (simp add: stdin_inv_defs rt_sys_init_def stdin_fresh_def)
  moreover have "g_running (user w1)" using w(6) assms(2) by (simp add: stdin_fresh_def)
  ultimately have "rt_inv localtime ?S0 STDIN_LINE_BUF_SIZE ?t (rt_sys_init w1)"
    using S by (auto simp: rt_inv_def rt_phase_def rt_sys_init_def)
  with w sys show ?thesis by blast
qed

lemma stdin_size_pos: "0 < unat STDIN_LINE_BUF_SIZE"
  by (simp add: STDIN_LINE_BUF_SIZE_def)

end
