(* ===== verification/Rt_Runs.thy ===== *)
theory Rt_Runs
  imports Rt_System
begin

text \<open>
  What the runs of the system of \<open>Rt_System\<close> have in common: nothing undefined happens, the logger behaves as
  in \<open>Log_Task\<close>, the stdin thread ends after \<open>SIGINT\<close> within a fixed number of steps, the program can always be
  brought to its end and has then printed everything and released everything; and the statements of the
  stdin thread, one after the other, are the rounds of \<open>Stdin_Task\<close>.
\<close>

section \<open>The stdin thread after SIGINT\<close>

text \<open>How many steps the stdin thread still takes when \<open>g_running\<close> is 0, without the chunks it flushes.\<close>

fun stdin_rank :: "stdin_pc \<Rightarrow> nat" where
  "stdin_rank SP_Done = 0" | "stdin_rank SP_Return = 1" | "stdin_rank SP_Signal = 4" | "stdin_rank SP_Mark = 5"
| "stdin_rank SP_While = 8" | "stdin_rank SP_Begin = 11" | "stdin_rank (SP_Strip d) = 11" | "stdin_rank (SP_Flush d) = 12"
| "stdin_rank SP_Read = 15" | "stdin_rank SP_Poll = 16"
| "stdin_rank (SP_Send tag m k) = stdin_rank k + 1" | "stdin_rank (SP_Log level tag msg k) = stdin_rank k + 2"

text \<open>A chunk of the input without a newline.\<close>

definition no_newline :: "stdin_answer \<Rightarrow> bool" where
  "no_newline ans = (case ans of SA_Read (Read_Data d) \<Rightarrow> nl \<notin> set d | _ \<Rightarrow> False)"

lemma stdin_step_rank:
  assumes "stdin_step ans R = Some R'" "stdin_enabled ans R" "\<not> g_running (user (rs_world R))"
  shows "stdin_rank (rs_stdin R') \<le> stdin_rank (rs_stdin R) \<and>
    (\<not> no_newline ans \<longrightarrow> stdin_rank (rs_stdin R') < stdin_rank (rs_stdin R))"
  using assms
  by (auto simp: stdin_step_def stdin_enabled_def read_ok_def stdin_stored_def stdin_strip_def stdin_goto_def stdin_warn_def
      stdin_running_def no_newline_def Let_def split: stdin_pc.splits stdin_answer.splits poll_answer.splits
      read_answer.splits option.splits prod.splits if_splits)

lemma rt_act_frame:
  assumes "rt_act localtime sig_fd a R = Some R'" "\<And>ans. a \<noteq> RA_Stdin ans"
  shows "rs_stdin R' = rs_stdin R \<and> rs_size R' = rs_size R"
  using assms
  by (auto simp: rt_act_def log_back_def main_step_def main_goto_def Let_def
      split: rt_action.splits main_pc.splits option.splits prod.splits main_at.splits)

lemma rt_act_left_loop:
  assumes "rt_act localtime sig_fd a R = Some R'" "rs_main R \<noteq> MP_Loop"
  shows "rs_main R' \<noteq> MP_Loop"
  using assms stdin_step_frame [of _ R R']
  by (auto simp: rt_act_def log_back_def main_step_def main_goto_def Let_def split: rt_action.splits main_pc.splits)

lemma rt_phase_stdin:
  assumes "rt_phase n t S R" "rs_stdin R \<noteq> SP_Done" "rs_main R \<noteq> MP_Loop"
  shows "stdin_inv n t R \<and> \<not> g_running (user (rs_world R)) \<and> rs_main R \<in> {MP_Shutdown, MP_Stop, MP_Poll_Tasks, MP_Join_Tasks}"
  using assms by (auto simp: rt_phase_def split: main_pc.splits)

lemma rt_inv_phase:
  assumes "rt_inv localtime S0 n t R" "\<not> rt_over R"
  shows "\<exists>S. log_reach localtime S0 (Some S) \<and> log_sys_inv S \<and> rt_matches S R \<and> rt_phase n t S R"
  using assms unfolding rt_inv_def rt_ended_def rt_over_def by auto

lemma stdin_rank_bound: "stdin_pc_ok pc w \<Longrightarrow> stdin_rank pc \<le> 16"
  by (auto simp: stdin_pc_ok_def resume_ok_def split: stdin_pc.splits)

definition own_step :: "rt_action \<Rightarrow> bool" where
  "own_step a = (case a of RA_Stdin ans \<Rightarrow> \<not> no_newline ans | _ \<Rightarrow> False)"

lemma rt_exec_rank:
  assumes "rt_good localtime sig_fd S0 n t R" "rs_main R \<noteq> MP_Loop" "rt_exec localtime sig_fd as R = Some R'"
  shows "length (filter own_step as) + stdin_rank (rs_stdin R') \<le> stdin_rank (rs_stdin R)"
  using assms
proof (induction as arbitrary: R)
  case (Cons a as)
  then obtain R1 where R1: "rt_enabled a R" "rt_act localtime sig_fd a R = Some R1" "rt_exec localtime sig_fd as R1 = Some R'"
    unfolding act_exec_Cons by blast
  have inv1: "rt_good localtime sig_fd S0 n t R1"
    using program.act_keeps [OF Cons.prems(1) R1(1)] R1(2) by simp
  note IH = Cons.IH [OF inv1 rt_act_left_loop [OF R1(2) Cons.prems(2)] R1(3)]
  show ?case
  proof (cases "\<exists>ans. a = RA_Stdin ans")
    case True
    then obtain ans where a: "a = RA_Stdin ans" by blast
    then have en: "stdin_enabled ans R" "\<not> rt_over R" using R1(1) by (simp_all add: rt_enabled_def)
    then obtain S where "rt_phase n t S R" using rt_inv_phase Cons.prems(1) unfolding rt_good_def by blast
    moreover have "rs_stdin R \<noteq> SP_Done" using en(1) by (auto simp: stdin_enabled_def)
    ultimately have "\<not> g_running (user (rs_world R))"
      using rt_phase_stdin [OF _ _ Cons.prems(2)] by blast
    moreover have "stdin_step ans R = Some R1" using R1(2) a by (simp add: rt_act_def)
    ultimately show ?thesis
      using stdin_step_rank [OF _ en(1)] IH a by (auto simp: own_step_def)
  next
    case False
    then have "\<not> own_step a" by (auto simp: own_step_def split: rt_action.splits)
    then show ?thesis using IH rt_act_frame [OF R1(2)] False by auto
  qed
qed simp

section \<open>The program can be brought to its end\<close>

fun main_rank :: "main_pc \<Rightarrow> nat" where
  "main_rank MP_Loop = 8" | "main_rank MP_Shutdown = 7" | "main_rank MP_Stop = 6" | "main_rank MP_Poll_Tasks = 5"
| "main_rank MP_Join_Tasks = 4" | "main_rank MP_Stop_Log = 3" | "main_rank MP_Poll_Log = 2" | "main_rank MP_Join_Log = 1"
| "main_rank (MP_Done k) = 0"

text \<open>An answer that lets the stdin thread go on.\<close>

definition go_on :: "stdin_pc \<Rightarrow> stdin_answer" where
  "go_on pc = (case pc of SP_Poll \<Rightarrow> SA_Poll Poll_Timeout | SP_Read \<Rightarrow> SA_Read Read_Eof | SP_Flush d \<Rightarrow> SA_Read Read_Eof
     | _ \<Rightarrow> SA_None)"

lemma go_on_enabled: "pc = rs_stdin R \<Longrightarrow> pc \<noteq> SP_Done \<Longrightarrow> stdin_enabled (go_on pc) R \<and> \<not> no_newline (go_on pc)"
  by (auto simp: go_on_def stdin_enabled_def read_ok_def no_newline_def split: stdin_pc.splits)

lemma rt_act_main_rank:
  assumes "main_step sig_fd ans R = Some R'" "rs_main R \<noteq> MP_Loop" "\<not> rt_over R"
  shows "main_rank (rs_main R') < main_rank (rs_main R) \<and>
    (rs_main R' = MP_Done k \<longrightarrow> k = EXIT_SUCCESS)"
  using assms by (auto simp: main_step_def main_goto_def rt_over_def split: main_pc.splits)

definition rt_rank :: "rt_sys \<Rightarrow> nat" where
  "rt_rank R = (if rs_main R \<in> {MP_Poll_Log, MP_Join_Log} then log_rank (log_view R) else stdin_rank (rs_stdin R))"

lemma log_task_can_move:
  assumes "rt_matches S R" "ls_pc S \<noteq> LT_Done"
  shows "\<exists>ans. log_enabled (Act_Task ans) (log_view R)"
proof -
  have "log_enabled (Act_Task (if efd_readable (q_event_fd (g_log_queue (ls_state S))) then Poll_Ready else Poll_Timeout)) S"
    using assms(2) by (simp add: log_enabled_def)
  then show ?thesis using rt_log_enabled [OF assms(1)] by blast
qed

lemma log_rank_view: "rt_matches S R \<Longrightarrow> log_rank (log_view R) = log_rank S"
proof -
  assume "rt_matches S R"
  then have "log_view R = forget S" by (simp add: rt_matches_def)
  moreover have "log_rank (forget S) = log_rank S" by (simp add: log_rank_def)
  ultimately show ?thesis by simp
qed

text \<open>While \<open>main\<close> waits for the stdin thread, or for the log task, that thread can take a step towards its end.\<close>

lemma rt_stdin_moves:
  assumes "stdin_inv n t R" "\<not> g_running (user (rs_world R))" "rs_stdin R \<noteq> SP_Done" "0 < unat n" "\<not> rt_over R"
  shows "\<exists>a R'. rt_enabled a R \<and> rt_act localtime sig_fd a R = Some R' \<and> rs_main R' = rs_main R \<and>
    stdin_rank (rs_stdin R') < stdin_rank (rs_stdin R)"
proof -
  let ?ans = "go_on (rs_stdin R)"
  note en = go_on_enabled [OF refl assms(3)]
  obtain R' where R': "stdin_step ?ans R = Some R'" using stdin_step_inv [OF assms(1,4)] en by blast
  then have "rs_main R' = rs_main R" "stdin_rank (rs_stdin R') < stdin_rank (rs_stdin R)"
    using stdin_step_frame [OF R'] stdin_step_rank [OF R'] en assms(2) by auto
  moreover have "rt_enabled (RA_Stdin ?ans) R" "rt_act localtime sig_fd (RA_Stdin ?ans) R = Some R'"
    using en R' assms(5) by (simp_all add: rt_enabled_def rt_act_def)
  ultimately show ?thesis by blast
qed

lemma rt_log_moves:
  assumes "log_sys_inv S" "rt_matches S R" "log_draining S" "ls_pc S \<noteq> LT_Done" "\<not> rt_over R"
  shows "\<exists>a R'. rt_enabled a R \<and> rt_act localtime sig_fd a R = Some R' \<and> rs_main R' = rs_main R \<and>
    log_rank (log_view R') < log_rank (log_view R)"
proof -
  obtain ans where en: "log_enabled (Act_Task ans) (log_view R)" using log_task_can_move [OF assms(2,4)] by blast
  obtain S' where S': "log_task_step localtime ans S = Some S'" using log_task_step_inv [OF assms(1)] by blast
  have "log_rank S' < log_rank S"
    using log_task_progress [OF assms(1) _ assms(4) S'] assms(3) by (simp add: log_draining_def)
  then have "log_rank (log_view (log_back R S')) < log_rank (log_view R)"
    using log_rank_view [OF assms(2)] log_rank_view [OF conjunct2 [OF rt_log_step [OF assms(2) S']]] by simp
  moreover have "rt_enabled (RA_Log ans) R" using en assms(5) by (simp add: rt_enabled_def)
  moreover have "rs_main (log_back R S') = rs_main R" by (simp add: log_back_def)
  ultimately show ?thesis using rt_log_step [OF assms(2) S', of sig_fd] by blast
qed

lemma rt_moves:
  assumes inv: "rt_good localtime sig_fd S0 n t R" and main: "rs_main R \<noteq> MP_Loop" "\<not> rt_over R"
  shows "\<exists>a R'. rt_enabled a R \<and> rt_act localtime sig_fd a R = Some R' \<and>
    (R', R) \<in> measures [\<lambda>R. main_rank (rs_main R), rt_rank] \<and> (\<forall>k. rs_main R' = MP_Done k \<longrightarrow> k = EXIT_SUCCESS)"
proof (cases "main_enabled R")
  case True
  then have en: "rt_enabled (RA_Main Sig_None) R" using main(2) by (simp add: rt_enabled_def)
  obtain R' where R': "rt_act localtime sig_fd (RA_Main Sig_None) R = Some R'"
    using program.act_keeps [OF inv en] by blast
  then have "main_step sig_fd Sig_None R = Some R'" by (simp add: rt_act_def)
  with en R' rt_act_main_rank [OF this main] show ?thesis by fastforce
next
  case False
  obtain S where S: "log_sys_inv S" "rt_matches S R" "rt_phase n t S R" and n: "0 < unat n"
    using rt_inv_phase [OF _ main(2)] inv unfolding rt_good_def by blast
  have over: "\<not> (rs_main R' = MP_Done k)" if "rs_main R' = rs_main R" for R' k
    using that main(2) by (auto simp: rt_over_def)
  show ?thesis
  proof (cases "rs_main R \<in> {MP_Poll_Log, MP_Join_Log}")
    case True
    then have "log_draining S" using S(3) by (auto simp: rt_phase_def)
    moreover have "ls_pc S \<noteq> LT_Done"
    proof
      assume "ls_pc S = LT_Done"
      then have "log_thread (rs_world R) = T_Exited" "g_log_done_fd (rs_world R) = Valid \<lparr>efd_count = 1, efd_semaphore = False\<rparr>"
        using S(1) rt_matchesD(1) [OF S(2)] by (simp_all add: log_sys_inv_def log_state.defs done_signalled_def)
      then show False using \<open>\<not> main_enabled R\<close> True by (auto simp: main_enabled_def efd_readable_def)
    qed
    ultimately obtain a R' where a: "rt_enabled a R" "rt_act localtime sig_fd a R = Some R'" "rs_main R' = rs_main R"
        "log_rank (log_view R') < log_rank (log_view R)"
      using rt_log_moves [OF S(1,2) _ _ main(2)] by blast
    then have "(R', R) \<in> measures [\<lambda>R. main_rank (rs_main R), rt_rank]" using True by (auto simp: rt_rank_def)
    with a over [OF a(3)] show ?thesis by blast
  next
    case not_log: False
    then have pc: "rs_main R = MP_Poll_Tasks \<or> rs_main R = MP_Join_Tasks"
      using False main by (auto simp: main_enabled_def rt_over_def split: main_pc.splits)
    then have si: "stdin_inv n t R" "\<not> g_running (user (rs_world R))" using S(3) by (auto simp: rt_phase_def)
    then have up: "stdin_up t (rs_world R)" by (simp add: stdin_inv_def Let_def)
    have "rs_stdin R \<noteq> SP_Done"
    proof
      assume "rs_stdin R = SP_Done"
      then show False
        using False pc si(1) stdin_up_array(2) [OF up]
        by (auto simp: main_enabled_def stdin_inv_def Let_def signalled_def stdin_up_def)
    qed
    then obtain a R' where a: "rt_enabled a R" "rt_act localtime sig_fd a R = Some R'" "rs_main R' = rs_main R"
        "stdin_rank (rs_stdin R') < stdin_rank (rs_stdin R)"
      using rt_stdin_moves [OF si _ n main(2)] by blast
    then have "(R', R) \<in> measures [\<lambda>R. main_rank (rs_main R), rt_rank]" using pc by (auto simp: rt_rank_def)
    with a over [OF a(3)] show ?thesis by blast
  qed
qed

lemma rt_finishes:
  "rt_good localtime sig_fd S0 n t R \<Longrightarrow> rs_main R \<noteq> MP_Loop \<Longrightarrow> \<not> rt_over R \<Longrightarrow>
    \<exists>as R'. rt_exec localtime sig_fd as R = Some R' \<and> rs_main R' = MP_Done EXIT_SUCCESS"
proof (induction R rule: wf_induct_rule [OF wf_measures, of "[\<lambda>R. main_rank (rs_main R), rt_rank]"])
  case (1 R)
  obtain a R1 where a: "rt_enabled a R" "rt_act localtime sig_fd a R = Some R1"
      "(R1, R) \<in> measures [\<lambda>R. main_rank (rs_main R), rt_rank]" "\<forall>k. rs_main R1 = MP_Done k \<longrightarrow> k = EXIT_SUCCESS"
    using rt_moves [OF 1(2-4)] by blast
  have inv1: "rt_good localtime sig_fd S0 n t R1" using program.act_keeps [OF 1(2) a(1)] a(2) by simp
  show ?case
  proof (cases "rt_over R1")
    case True
    then have "rs_main R1 = MP_Done EXIT_SUCCESS" using a(4) by (auto simp: rt_over_def split: main_pc.splits)
    then show ?thesis using a(1,2) by (intro exI [of _ "[a]"] exI [of _ R1]) simp
  next
    case False
    obtain as R' where "rt_exec localtime sig_fd as R1 = Some R'" "rs_main R' = MP_Done EXIT_SUCCESS"
      using 1(1) [OF a(3) inv1 rt_act_left_loop [OF a(2) 1(3)] False] by blast
    then show ?thesis using a(1,2) by (intro exI [of _ "a # as"] exI [of _ R']) simp
  qed
qed

section \<open>The statements of the stdin thread are its rounds\<close>

text \<open>
  The stdin thread alone, with the answers of \<open>poll\<close> and \<open>read\<close> in two lists: \<open>stdin_fed s r\<close> if from \<open>s\<close> it comes
  to \<open>r\<close>, a state, a call that waits for the next answer, or undefined behaviour.
\<close>

type_synonym feed = "poll_answer list \<times> read_answer list \<times> rt_sys"

definition stdin_feed :: "feed \<Rightarrow> feed progress" where
  "stdin_feed s = (case s of (ps, rs, R) \<Rightarrow>
     (let go = (\<lambda>ps rs r. case r of None \<Rightarrow> Fails | Some R' \<Rightarrow> Goes (ps, rs, R')) in
      case rs_stdin R of
        SP_Poll \<Rightarrow> (case ps of [] \<Rightarrow> Waits | p # ps' \<Rightarrow> go ps' rs (stdin_step (SA_Poll p) R))
      | SP_Read \<Rightarrow> (case rs of [] \<Rightarrow> Waits | r # rs' \<Rightarrow> go ps rs' (stdin_step (SA_Read r) R))
      | SP_Flush d \<Rightarrow> (case rs of [] \<Rightarrow> Waits | r # rs' \<Rightarrow> go ps rs' (stdin_step (SA_Read r) R))
      | _ \<Rightarrow> go ps rs (stdin_step SA_None R)))"

inductive stdin_fed :: "feed \<Rightarrow> feed progress \<Rightarrow> bool" where
  fed_here: "stdin_fed s (Goes s)"
| fed_step: "stdin_feed s = Goes s' \<Longrightarrow> stdin_fed s' r \<Longrightarrow> stdin_fed s r"
| fed_wait: "stdin_feed s = Waits \<Longrightarrow> stdin_fed s Waits"
| fed_fail: "stdin_feed s = Fails \<Longrightarrow> stdin_fed s Fails"

lemma stdin_goto_simps [simp]:
  "rs_stdin (stdin_goto pc w R) = pc" "rs_world (stdin_goto pc w R) = w" "rs_size (stdin_goto pc w R) = rs_size R"
  "stdin_goto pc w (stdin_goto pc' w' R) = stdin_goto pc w R"
  by (simp_all add: stdin_goto_def)

text \<open>
  \<open>fed_as s f out\<close>: from \<open>s\<close> the thread goes on as a piece of \<open>Stdin_Task\<close> with the result \<open>out\<close>, after which it
  is at \<open>f\<close>.
\<close>

definition fed_as :: "feed \<Rightarrow> ('a \<Rightarrow> feed) \<Rightarrow> 'a progress \<Rightarrow> bool" where
  "fed_as s f out \<longleftrightarrow> (case out of
     Goes x \<Rightarrow> \<forall>r. stdin_fed (f x) r \<longrightarrow> stdin_fed s r | Waits \<Rightarrow> stdin_fed s Waits | Fails \<Rightarrow> stdin_fed s Fails)"

lemma fed_as_simps [simp]:
  "fed_as s f (Goes x) \<longleftrightarrow> (\<forall>r. stdin_fed (f x) r \<longrightarrow> stdin_fed s r)"
  "fed_as s f Waits \<longleftrightarrow> stdin_fed s Waits" "fed_as s f Fails \<longleftrightarrow> stdin_fed s Fails"
  by (simp_all add: fed_as_def)

lemma fed_as_step: "stdin_feed s = Goes s' \<Longrightarrow> fed_as s' f out \<Longrightarrow> fed_as s f out"
  by (cases out) (auto intro: fed_step)

lemma fed_as_here: "s = f x \<Longrightarrow> fed_as s f (Goes x)"
  by simp

lemma fed_as_then:
  assumes "fed_as s f out" "\<And>x. fed_as (f x) g (h x)"
  shows "fed_as s g (case out of Goes x \<Rightarrow> h x | Waits \<Rightarrow> Waits | Fails \<Rightarrow> Fails)"
proof (cases out)
  case (Goes x)
  with assms(1) assms(2) [of x] show ?thesis by (cases "h x") auto
qed (use assms(1) in simp_all)

text \<open>A log call in its two halves; the flushing of a long line; and the end of a round.\<close>

lemma fed_log:
  assumes "LOG_LEVEL_DEBUG \<le> level"
  shows "fed_as (ps, rs, stdin_goto (SP_Log level tag msg pc) w R) (\<lambda>w'. (ps, rs, stdin_goto pc w' R))
    (case ALOG LOG_LEVEL_DEBUG level tag msg w of None \<Rightarrow> Fails | Some w' \<Rightarrow> Goes w')"
proof -
  obtain m w1 where b: "ALOG_begin level tag msg w = (m, w1)" by fastforce
  have first: "stdin_feed (ps, rs, stdin_goto (SP_Log level tag msg pc) w R) = Goes (ps, rs, stdin_goto (SP_Send tag m pc) w1 R)"
    using b by (simp add: stdin_feed_def stdin_step_def)
  show ?thesis
    by (rule fed_as_step [OF first])
      (use assms b in \<open>auto simp: ALOG_def stdin_feed_def stdin_step_def split: option.splits intro: fed_step fed_fail\<close>)
qed

lemma fed_flush:
  "fed_as (ps, rs, stdin_goto (SP_Flush d) w R) (\<lambda>rs'. (ps, rs', stdin_goto (SP_Strip d) w R)) (stdin_flush rs)"
proof (induction rs rule: stdin_flush.induct)
  case (4 e rs)
  have first: "stdin_feed (ps, Read_Data e # rs, stdin_goto (SP_Flush d) w R) =
      Goes (ps, rs, stdin_goto (if nl \<in> set e then SP_Strip d else SP_Flush d) w R)"
    by (simp add: stdin_feed_def stdin_step_def)
  show ?case by (rule fed_as_step [OF first]) (use 4 in simp)
qed (auto simp: stdin_feed_def stdin_step_def intro: fed_step fed_wait)

lemma fed_strip:
  "fed_as (ps, rs, stdin_goto (SP_Strip d) w R) (\<lambda>w'. (ps, rs, stdin_goto SP_While w' R)) (log_input d w)"
proof (cases "line (user w)")
  case None
  then show ?thesis
    by (auto simp: log_input_def stdin_feed_def stdin_step_def stdin_strip_def intro: fed_fail)
next
  case (Some b)
  let ?b1 = "if last d = nl then b[length d - 1 := Some (CHR 0x00)] else b"
  let ?n = "if last d = nl then length d - 1 else length d"
  let ?w1 = "put_line (Some ?b1) w"
  show ?thesis
  proof (cases "?n = 0")
    case True
    have first: "stdin_feed (ps, rs, stdin_goto (SP_Strip d) w R) = Goes (ps, rs, stdin_goto SP_While ?w1 R)"
      using Some True by (simp add: stdin_feed_def stdin_step_def stdin_strip_def Let_def)
    have out: "log_input d w = Goes ?w1"
      using Some True by (simp add: log_input_def Let_def)
    show ?thesis unfolding out by (rule fed_as_step [OF first fed_as_here]) simp
  next
    case False
    show ?thesis
    proof (cases "c_string ?b1")
      case None
      then have "stdin_feed (ps, rs, stdin_goto (SP_Strip d) w R) = Fails" "log_input d w = Fails"
        using Some False by (simp_all add: stdin_feed_def stdin_step_def stdin_strip_def log_input_def Let_def)
      then show ?thesis by (simp add: fed_fail)
    next
      case (Some s)
      have first: "stdin_feed (ps, rs, stdin_goto (SP_Strip d) w R) =
          Goes (ps, rs, stdin_goto (SP_Log LOG_LEVEL_DEBUG stdin_TAG (''input received: '' @ s) SP_While) ?w1 R)"
        using \<open>line (user w) = Some b\<close> Some False
        by (simp add: stdin_feed_def stdin_step_def stdin_strip_def Let_def del: append.simps)
      have out: "log_input d w = (case LOGD stdin_TAG (''input received: '' @ s) ?w1 of None \<Rightarrow> Fails | Some w2 \<Rightarrow> Goes w2)"
        using \<open>line (user w) = Some b\<close> Some False by (simp add: log_input_def Let_def del: append.simps)
      show ?thesis
        unfolding out LOGD_def by (rule fed_as_step [OF first fed_log]) simp
    qed
  qed
qed

lemma fed_overflow:
  fixes n :: size_t
  defines "long d \<equiv> length d = unat (n - 1) \<and> last d \<noteq> nl"
  shows "fed_as (ps, rs, stdin_goto (if long d
      then SP_Log LOG_LEVEL_WARN stdin_TAG (''input >= '' @ show_nat (unat (n - 1)) @ '' bytes, flushing rest of data'') (SP_Flush d)
      else SP_Strip d) w R)
    (\<lambda>(rs', w'). (ps, rs', stdin_goto (SP_Strip d) w' R)) (check_overflow n d rs w)"
proof (cases "long d")
  case False
  then have out: "check_overflow n d rs w = Goes (rs, w)" by (auto simp: long_def check_overflow_def)
  show ?thesis unfolding out using False by simp
next
  case True
  let ?msg = "''input >= '' @ show_nat (unat (n - 1)) @ '' bytes, flushing rest of data''"
  let ?out = "case ALOG LOG_LEVEL_DEBUG LOG_LEVEL_WARN stdin_TAG ?msg w of None \<Rightarrow> Fails | Some w' \<Rightarrow> Goes w'"
  have second: "fed_as (ps, rs, stdin_goto (SP_Flush d) w1 R) (\<lambda>(rs', w'). (ps, rs', stdin_goto (SP_Strip d) w' R))
      (case stdin_flush rs of Goes rs1 \<Rightarrow> Goes (rs1, w1) | Waits \<Rightarrow> Waits | Fails \<Rightarrow> Fails)" for w1
    using fed_flush [of ps rs d w1 R] by (cases "stdin_flush rs") auto
  have out: "check_overflow n d rs w = (case ?out of
      Goes w1 \<Rightarrow> (case stdin_flush rs of Goes rs1 \<Rightarrow> Goes (rs1, w1) | Waits \<Rightarrow> Waits | Fails \<Rightarrow> Fails)
    | Waits \<Rightarrow> Waits | Fails \<Rightarrow> Fails)"
    using True by (auto simp: long_def check_overflow_def LOGW_def split: option.splits)
  have le: "LOG_LEVEL_DEBUG \<le> LOG_LEVEL_WARN" by (simp add: log_levels)
  show ?thesis
    unfolding out if_P [OF True] by (rule fed_as_then [OF fed_log [OF le] second])
qed

lemma fed_store:
  assumes "rs_size R = n"
  shows "fed_as (ps, Read_Data d # rs, stdin_goto SP_Read w R) (\<lambda>(rs', w'). (ps, rs', stdin_goto SP_While w' R))
    (stdin_store n d rs w)"
proof (cases "Option.bind (line (user w)) (\<lambda>b. Option.bind (write_bytes 0 d b) (write_bytes (length d) [CHR 0x00]))")
  case None
  then show ?thesis
    by (simp add: stdin_store_def fed_fail stdin_feed_def stdin_step_def stdin_stored_def Let_def)
next
  case (Some b)
  have out: "stdin_store n d rs w = (case check_overflow n d rs (put_line (Some b) w) of
      Goes x \<Rightarrow> (case x of (rs1, w1) \<Rightarrow> (case log_input d w1 of Goes w2 \<Rightarrow> Goes (rs1, w2) | Waits \<Rightarrow> Waits | Fails \<Rightarrow> Fails))
    | Waits \<Rightarrow> Waits | Fails \<Rightarrow> Fails)"
    unfolding stdin_store_def Some option.case by (auto split: progress.splits)
  have last: "fed_as (case x of (rs1, w1) \<Rightarrow> (ps, rs1, stdin_goto (SP_Strip d) w1 R)) (\<lambda>(rs', w'). (ps, rs', stdin_goto SP_While w' R))
      (case x of (rs1, w1) \<Rightarrow> (case log_input d w1 of Goes w2 \<Rightarrow> Goes (rs1, w2) | Waits \<Rightarrow> Waits | Fails \<Rightarrow> Fails))" for x
    using fed_strip [of ps "fst x" d "snd x" R] by (cases x; cases "log_input d (snd x)") auto
  have first: "stdin_feed (ps, Read_Data d # rs, stdin_goto SP_Read w R) = Goes (ps, rs, stdin_goto
      (if length d = unat (n - 1) \<and> last d \<noteq> nl
       then SP_Log LOG_LEVEL_WARN stdin_TAG (''input >= '' @ show_nat (unat (n - 1)) @ '' bytes, flushing rest of data'') (SP_Flush d)
       else SP_Strip d) (put_line (Some b) w) R)"
    using Some assms by (simp add: stdin_feed_def stdin_step_def stdin_stored_def Let_def del: append.simps)
  show ?thesis
    unfolding out by (rule fed_as_step [OF first fed_as_then [OF fed_overflow last]])
qed

lemma fed_warn:
  "fed_as (ps, rs, stdin_goto (stdin_warn msg err) w R) (\<lambda>w'. (ps, rs, stdin_goto SP_While w' R))
     (case LOGW_ERRNO stdin_TAG msg err w of None \<Rightarrow> Fails | Some w1 \<Rightarrow> Goes w1)"
  unfolding stdin_warn_def LOGW_ERRNO_def LOGW_def by (rule fed_log) (simp add: log_levels)

lemma fed_round:
  assumes "rs_size R = n"
  shows "fed_as (p # ps, rs, stdin_goto SP_Poll w R) (\<lambda>(rs', w'). (ps, rs', stdin_goto SP_While w' R)) (stdin_round n p rs w)"
proof -
  have warn: "fed_as s (\<lambda>(rs', w'). (ps, rs', stdin_goto SP_While w' R))
      (case LOGW_ERRNO stdin_TAG msg err w of None \<Rightarrow> Fails | Some w1 \<Rightarrow> Goes (rs1, w1))"
    if "stdin_feed s = Goes (ps, rs1, stdin_goto (stdin_warn msg err) w R)" for s msg err rs1
    by (rule fed_as_step [OF that]) (use fed_warn [of ps rs1 msg err w R] in \<open>auto split: option.splits\<close>)
  have read: "stdin_feed (Poll_Ready # ps, rs, stdin_goto SP_Poll w R) = Goes (ps, rs, stdin_goto SP_Read w R)"
    by (simp add: stdin_feed_def stdin_step_def)
  show ?thesis
  proof (cases p)
    case (Poll_Error err)
    then show ?thesis using warn by (simp add: stdin_round_def stdin_feed_def stdin_step_def)
  next
    case Poll_Timeout
    then show ?thesis by (auto simp: stdin_round_def stdin_feed_def stdin_step_def intro: fed_step)
  next
    case Poll_Ready
    show ?thesis
      unfolding Poll_Ready
    proof (rule fed_as_step [OF read], cases rs)
      case Nil
      then show "fed_as (ps, rs, stdin_goto SP_Read w R) (\<lambda>(rs', w'). (ps, rs', stdin_goto SP_While w' R)) (stdin_round n Poll_Ready rs w)"
        by (simp add: stdin_round_def stdin_feed_def fed_wait)
    next
      case (Cons a as)
      then show "fed_as (ps, rs, stdin_goto SP_Read w R) (\<lambda>(rs', w'). (ps, rs', stdin_goto SP_While w' R)) (stdin_round n Poll_Ready rs w)"
        using fed_store [OF assms] warn
        by (cases a) (auto simp: stdin_round_def stdin_feed_def stdin_step_def intro: fed_step)
    qed
  qed
qed

lemma fed_end:
  assumes "\<not> stdin_running w"
  shows "fed_as (ps, rs, stdin_goto SP_While w R) (\<lambda>w'. (ps, rs, stdin_goto SP_Done w' R))
    (case stdin_end w of None \<Rightarrow> Fails | Some w' \<Rightarrow> Goes w')"
proof -
  let ?exit = "ALOG LOG_LEVEL_DEBUG LOG_LEVEL_DEBUG stdin_TAG ''exiting...''"
  let ?marked = "\<lambda>w. set_handle stdin_handle ((handles w stdin_handle)\<lparr>th_state := TASK_STATE_STOPPED,
      th_done_fd := efd_signal (th_done_fd (handles w stdin_handle))\<rparr>) w"
  let ?msg = "\<lambda>w. ''task '' @ quoted (th_name (handles w stdin_handle)) @ '' marked done''"
  let ?mark = "\<lambda>w. ALOG LOG_LEVEL_DEBUG LOG_LEVEL_DEBUG th_TAG (?msg w) (?marked w)"
  let ?ret = "\<lambda>w. w\<lparr>threads := (threads w)(th_thread (handles w stdin_handle) := T_Exited)\<rparr>"
  have out: "(case stdin_end w of None \<Rightarrow> Fails | Some w' \<Rightarrow> Goes w') =
      (case (case ?exit w of None \<Rightarrow> Fails | Some w' \<Rightarrow> Goes w') of
         Goes w1 \<Rightarrow> (case (case ?mark w1 of None \<Rightarrow> Fails | Some w' \<Rightarrow> Goes w') of
             Goes w2 \<Rightarrow> Goes (?ret w2) | Waits \<Rightarrow> Waits | Fails \<Rightarrow> Fails)
       | Waits \<Rightarrow> Waits | Fails \<Rightarrow> Fails)"
    by (auto simp: stdin_end_def LOGD_def task_handle_mark_done_def split: option.splits)
  have return: "fed_as (ps, rs, stdin_goto SP_Return w2 R) (\<lambda>w'. (ps, rs, stdin_goto SP_Done w' R)) (Goes (?ret w2))" for w2
    by (auto simp: stdin_feed_def stdin_step_def Let_def intro: fed_step)
  have mark: "fed_as (ps, rs, stdin_goto SP_Mark w1 R) (\<lambda>w'. (ps, rs, stdin_goto SP_Return w' R))
      (case ?mark w1 of None \<Rightarrow> Fails | Some w' \<Rightarrow> Goes w')" for w1
  proof (rule fed_as_step [OF _ fed_as_step [OF _ fed_log]])
    show "stdin_feed (ps, rs, stdin_goto SP_Mark w1 R) = Goes (ps, rs, stdin_goto SP_Signal
        (set_handle stdin_handle ((handles w1 stdin_handle)\<lparr>th_state := TASK_STATE_STOPPED\<rparr>) w1) R)"
      by (simp add: stdin_feed_def stdin_step_def Let_def)
    show "stdin_feed (ps, rs, stdin_goto SP_Signal
        (set_handle stdin_handle ((handles w1 stdin_handle)\<lparr>th_state := TASK_STATE_STOPPED\<rparr>) w1) R) =
      Goes (ps, rs, stdin_goto (SP_Log LOG_LEVEL_DEBUG th_TAG (?msg w1) SP_Return) (?marked w1) R)"
      by (simp add: stdin_feed_def stdin_step_def Let_def set_handle_def)
  qed simp
  have first: "stdin_feed (ps, rs, stdin_goto SP_While w R) =
      Goes (ps, rs, stdin_goto (SP_Log LOG_LEVEL_DEBUG stdin_TAG ''exiting...'' SP_Mark) w R)"
    using assms by (simp add: stdin_feed_def stdin_step_def)
  show ?thesis
    unfolding out by (rule fed_as_step [OF first fed_as_then [OF fed_log fed_as_then [OF mark return]]]) simp
qed

text \<open>What the loop says of the thread, and what the statements come to.\<close>

definition loop_fed :: "feed \<Rightarrow> (bool \<times> read_answer list \<times> rt_world) progress \<Rightarrow> rt_sys \<Rightarrow> bool" where
  "loop_fed s out R = (case out of
     Goes (True, rs, w) \<Rightarrow> \<exists>ps. stdin_fed s (Goes (ps, rs, stdin_goto SP_Done w R))
   | Goes (False, rs, w) \<Rightarrow> stdin_fed s (Goes ([], rs, stdin_goto SP_Poll w R))
   | Waits \<Rightarrow> stdin_fed s Waits
   | Fails \<Rightarrow> stdin_fed s Fails)"

lemma loop_fed_step: "stdin_feed s = Goes s' \<Longrightarrow> loop_fed s' out R \<Longrightarrow> loop_fed s out R"
  by (auto simp: loop_fed_def split: progress.splits bool.splits intro: fed_step)

lemma loop_fed_then:
  assumes "fed_as s f out" "\<And>x. loop_fed (f x) (h x) R"
  shows "loop_fed s (case out of Goes x \<Rightarrow> h x | Waits \<Rightarrow> Waits | Fails \<Rightarrow> Fails) R"
proof (cases out)
  case (Goes x)
  with assms(1) assms(2) [of x] show ?thesis
    by (auto simp: loop_fed_def split: progress.splits bool.splits)
qed (use assms(1) in \<open>simp_all add: loop_fed_def\<close>)

lemma fed_loop:
  "rs_size R = n \<Longrightarrow> loop_fed (polls, rs, stdin_goto SP_While w R) (stdin_loop n polls rs w) R"
proof (induction polls arbitrary: rs w)
  case Nil
  show ?case
  proof (cases "stdin_running w")
    case True
    then have "stdin_feed ([], rs, stdin_goto SP_While w R) = Goes ([], rs, stdin_goto SP_Poll w R)"
      by (simp add: stdin_feed_def stdin_step_def)
    with True show ?thesis
      by (auto simp: stdin_loop.simps loop_fed_def intro: fed_step fed_here)
  next
    case False
    with fed_end [OF False, of "[]" rs R] show ?thesis
      by (auto simp: stdin_loop.simps loop_fed_def split: option.splits intro: fed_here)
  qed
next
  case (Cons p ps)
  show ?case
  proof (cases "stdin_running w")
    case True
    have first: "stdin_feed (p # ps, rs, stdin_goto SP_While w R) = Goes (p # ps, rs, stdin_goto SP_Poll w R)"
      using True by (simp add: stdin_feed_def stdin_step_def)
    have out: "stdin_loop n (p # ps) rs w = (case stdin_round n p rs w of
        Goes x \<Rightarrow> stdin_loop n ps (fst x) (snd x) | Waits \<Rightarrow> Waits | Fails \<Rightarrow> Fails)"
      using True by (auto simp: stdin_loop.simps [of n "p # ps"] split: progress.splits)
    have rest: "loop_fed (case x of (rs', w') \<Rightarrow> (ps, rs', stdin_goto SP_While w' R)) (stdin_loop n ps (fst x) (snd x)) R" for x
      using Cons.IH [OF Cons.prems] by (cases x) simp
    show ?thesis
      unfolding out by (rule loop_fed_step [OF first loop_fed_then [OF fed_round [OF Cons.prems] rest]])
  next
    case False
    with fed_end [OF False, of "p # ps" rs R] show ?thesis
      by (auto simp: stdin_loop.simps loop_fed_def split: option.splits intro: fed_here)
  qed
qed

section \<open>Properties\<close>

text \<open>The system as the program starts it, and what it reaches.\<close>

lemma rt_start:
  assumes "main_requests_ok env" "sig_fd \<ge> 0" "g_running (user w)" "g_log_running w" "main_start env w = Some (M_Next, w1)"
  shows "\<exists>w0. log_task_init (me_log env) LOG_QUEUE_SIZE PRIORITY_LOG_TASK (open_sig_fd w) = Some (0, w0) \<and>
    rt_good localtime sig_fd (log_sys_init (log_state.truncate w0)) STDIN_LINE_BUF_SIZE (se_thread (me_stdin env)) (rt_sys_init w1)"
  using rt_start_inv [OF assms(1,3,4), of localtime] assms(2,5) stdin_size_pos by (auto simp: rt_good_def)

lemma rt_reachable:
  assumes "main_requests_ok env" "sig_fd \<ge> 0" "g_running (user w)" "g_log_running w" "main_start env w = Some (M_Next, w1)"
    and "rt_reach localtime sig_fd (rt_sys_init w1) r"
  shows "\<exists>w0 R. log_task_init (me_log env) LOG_QUEUE_SIZE PRIORITY_LOG_TASK (open_sig_fd w) = Some (0, w0) \<and> r = Some R \<and>
    rt_good localtime sig_fd (log_sys_init (log_state.truncate w0)) STDIN_LINE_BUF_SIZE (se_thread (me_stdin env)) R"
  using rt_start [OF assms(1-5), of localtime] program.reach_keeps [OF assms(6)] by blast

lemma rt_good_inv: "rt_good localtime sig_fd S0 n t R \<Longrightarrow> rt_inv localtime S0 n t R"
  by (simp add: rt_good_def)


lemma env_ok_requests: "main_requests_ok env_ok"
  by (simp add: main_requests_ok_def env_ok_def rt_env_def)

lemma rt_sample_flags: "g_running (user rt_sample)" "g_log_running rt_sample"
  by (simp_all add: rt_sample_def log_sample_def log_state.defs world.defs)

lemma rt_sample_start: "\<exists>w1. main_start env_ok rt_sample = Some (M_Next, w1)"
  using rt_start_inv [OF env_ok_requests rt_sample_flags] by blast




lemma rt_signal:
  assumes "rt_inv localtime S0 n t R" "rs_main R = MP_Loop"
  shows "\<exists>R'. rt_enabled (RA_Main Sig_Received) R \<and> rt_act localtime sig_fd (RA_Main Sig_Received) R = Some R' \<and>
    rs_main R' = MP_Shutdown"
proof -
  have "\<not> rt_over R" using assms(2) by (simp add: rt_over_def)
  then obtain S where "rt_phase n t S R" using rt_inv_phase [OF assms(1)] by blast
  then have "g_running (user (rs_world R))" using assms(2) by (simp add: rt_phase_def)
  then show ?thesis
    using assms(2) by (simp add: rt_act_def main_step_def main_goto_def main_loop.simps Let_def rt_enabled_def rt_over_def main_enabled_def)
qed

lemma rt_run_to_end:
  assumes "rt_good localtime sig_fd S0 n t R" "\<not> rt_over R"
  shows "\<exists>as R'. rt_exec localtime sig_fd as R = Some R' \<and> rs_main R' = MP_Done EXIT_SUCCESS"
proof (cases "rs_main R = MP_Loop")
  case False
  then show ?thesis using rt_finishes [OF assms(1) _ assms(2)] by blast
next
  case True
  obtain R1 where R1: "rt_enabled (RA_Main Sig_Received) R" "rt_act localtime sig_fd (RA_Main Sig_Received) R = Some R1"
      "rs_main R1 = MP_Shutdown"
    using rt_signal [OF rt_good_inv [OF assms(1)] True] by blast
  have "rt_good localtime sig_fd S0 n t R1" using program.act_keeps [OF assms(1) R1(1)] R1(2) by simp
  then obtain as R' where "rt_exec localtime sig_fd as R1 = Some R'" "rs_main R' = MP_Done EXIT_SUCCESS"
    using rt_finishes R1(3) by (force simp: rt_over_def)
  with R1(1,2) show ?thesis by (intro exI [of _ "RA_Main Sig_Received # as"] exI [of _ R']) simp
qed









end
