(* ===== verification/Rt_Give_Up.thy ===== *)
theory Rt_Give_Up
  imports Rt_Runs
begin

text \<open>
  The system of \<open>Rt_System\<close> with what it leaves out: \<open>main\<close> gives up its wait for the tasks, after the timeout or
  at a second \<open>SIGINT\<close>, and cancels them, and the cancelled thread ends at its next \<open>poll\<close> or \<open>read\<close>.
  Then the safety of \<open>Rt_Runs\<close> is lost.
\<close>

section \<open>Giving up\<close>

text \<open>What \<open>poll\<close> answers when \<open>main\<close> gives up: a signal, or nothing within the timeout.\<close>

definition gave_up :: "bool \<Rightarrow> waits" where
  "gave_up forced = \<lparr>wait_poll = \<lambda>i fds timeout.
       (if forced then 1 else 0, replicate (length fds - 1) False @ [forced]),
     wait_malloc = \<lambda>n. True, wait_others = \<lambda>i w. w\<rparr>"

definition give_up_step :: "int \<Rightarrow> bool \<Rightarrow> rt_sys \<Rightarrow> rt_sys option" where
  "give_up_step sig_fd forced R = main_goto MP_Join_Tasks (poll_arrays (gave_up forced) sig_fd 0 False task_arrays (rs_world R)) R"

definition give_up_enabled :: "rt_sys \<Rightarrow> bool" where
  "give_up_enabled R \<longleftrightarrow> rs_main R = MP_Poll_Tasks \<and>
     list_all (\<lambda>h. \<not> readable (rs_world R) h) (tasks g_stdin_tasks (rs_world R))"

text \<open>\<open>poll\<close> and \<open>read\<close> are cancellation points.\<close>

definition stdin_cancelled :: "rt_sys \<Rightarrow> bool" where
  "stdin_cancelled R \<longleftrightarrow> threads (rs_world R) (th_thread (handles (rs_world R) stdin_handle)) = T_Cancelling \<and>
     (case rs_stdin R of SP_Poll \<Rightarrow> True | SP_Read \<Rightarrow> True | SP_Flush d \<Rightarrow> True | _ \<Rightarrow> False)"

definition stdin_cancel_step :: "rt_sys \<Rightarrow> rt_sys" where
  "stdin_cancel_step R = (let w = rs_world R in stdin_goto SP_Done
     (w\<lparr>threads := (threads w)(th_thread (handles w stdin_handle) := T_Exited)\<rparr>) R)"

text \<open>The runs in which \<open>main\<close> may give up, for the reason \<open>forced\<close>.\<close>

inductive hasty_reach :: "(int \<Rightarrow> int \<times> int \<times> int) \<Rightarrow> int \<Rightarrow> bool \<Rightarrow> rt_sys \<Rightarrow> rt_sys option \<Rightarrow> bool"
  for localtime :: "int \<Rightarrow> int \<times> int \<times> int" and sig_fd :: int and forced :: bool and R0 :: rt_sys where
  start: "hasty_reach localtime sig_fd forced R0 (Some R0)"
| step: "hasty_reach localtime sig_fd forced R0 (Some R) \<Longrightarrow> rt_enabled a R \<Longrightarrow>
    \<not> (stdin_cancelled R \<and> (\<exists>ans. a = RA_Stdin ans)) \<Longrightarrow>
    hasty_reach localtime sig_fd forced R0 (rt_act localtime sig_fd a R)"
| give_up: "hasty_reach localtime sig_fd forced R0 (Some R) \<Longrightarrow> give_up_enabled R \<Longrightarrow>
    hasty_reach localtime sig_fd forced R0 (give_up_step sig_fd forced R)"
| cancel: "hasty_reach localtime sig_fd forced R0 (Some R) \<Longrightarrow> stdin_cancelled R \<Longrightarrow> \<not> rt_over R \<Longrightarrow>
    hasty_reach localtime sig_fd forced R0 (Some (stdin_cancel_step R))"

section \<open>After giving up\<close>

text \<open>The task is cancelled and not joined, and its buffer is freed.\<close>

lemma give_up_frees:
  assumes "stdin_inv n t R" "\<not> signalled (rs_stdin R)" "sig_fd \<ge> 0"
  shows "\<exists>R1 w. give_up_step sig_fd forced R = Some R1 \<and> rs_main R1 = MP_Join_Tasks \<and> main_enabled R1 \<and>
    main_step sig_fd Sig_None R1 = Some (R\<lparr>rs_world := w, rs_main := MP_Stop_Log\<rparr>) \<and>
    line (user w) = None \<and> threads w t = T_Cancelling"
proof -
  have up: "stdin_up t (rs_world R)" and quiet: "\<not> readable (rs_world R) stdin_handle"
      "threads (rs_world R) t = T_Running"
    using assms(1,2) by (auto simp: stdin_inv_def Let_def signalled_def split: if_splits)
  have answer: "wait_poll (gave_up forced) 0 [Poll_Done stdin_handle, Poll_Signal sig_fd] TASK_SHUTDOWN_TIMEOUT_MS \<in>
      {(0, [False, False]), (1, [False, True])}"
    by (simp add: gave_up_def)
  obtain w1 where w1: "poll_arrays (gave_up forced) sig_fd 0 False task_arrays (rs_world R) = Some w1"
      "stdin_up t w1" "threads w1 t = T_Cancelling" "\<not> readable w1 stdin_handle"
    using poll_arrays_gives_up [OF up assms(3) _ quiet(2,1) answer] by (auto simp: gave_up_def)
  obtain w where w: "destroy_arrays task_arrays w1 = Some w" "threads w = threads w1" "line (user w) = None"
    using destroy_arrays_ok [OF w1(2)] w1(4) by auto
  let ?R1 = "R\<lparr>rs_world := w1, rs_main := MP_Join_Tasks\<rparr>"
  have "give_up_step sig_fd forced R = Some ?R1" using w1(1) by (simp add: give_up_step_def main_goto_def)
  moreover have "main_enabled ?R1" using stdin_up_array(2) [OF w1(2)] w1(4) by (simp add: main_enabled_def)
  moreover have "main_step sig_fd Sig_None ?R1 = Some (R\<lparr>rs_world := w, rs_main := MP_Stop_Log\<rparr>)"
    using w(1) by (simp add: main_step_def main_goto_def)
  ultimately show ?thesis using w w1(3) by fastforce
qed

text \<open>A thread that has read its input, and has not used it yet, then uses the freed buffer.\<close>

lemma give_up_undefined:
  assumes "hasty_reach localtime sig_fd forced R0 (Some R)" "stdin_inv n t R" "sig_fd \<ge> 0"
    and "rs_main R = MP_Poll_Tasks" "rs_stdin R = SP_Strip d"
  shows "hasty_reach localtime sig_fd forced R0 None"
proof -
  have quiet: "\<not> signalled (rs_stdin R)" using assms(5) by (simp add: signalled_def)
  obtain R1 w where R1: "give_up_step sig_fd forced R = Some R1" "rs_main R1 = MP_Join_Tasks" "main_enabled R1"
      "main_step sig_fd Sig_None R1 = Some (R\<lparr>rs_world := w, rs_main := MP_Stop_Log\<rparr>)" "line (user w) = None"
    using give_up_frees [OF assms(2) quiet assms(3)] by blast
  let ?R2 = "R\<lparr>rs_world := w, rs_main := MP_Stop_Log\<rparr>"
  have up: "stdin_up t (rs_world R)" using assms(2) by (simp add: stdin_inv_def Let_def)
  have "give_up_enabled R"
    using assms(2,4) quiet stdin_up_array(2) [OF up] by (simp add: give_up_enabled_def stdin_inv_def Let_def)
  from hasty_reach.give_up [OF assms(1) this] have r1: "hasty_reach localtime sig_fd forced R0 (Some R1)"
    using R1(1) by simp
  have "rt_enabled (RA_Main Sig_None) R1" using R1(2,3) by (simp add: rt_enabled_def rt_over_def)
  from hasty_reach.step [OF r1 this] have r2: "hasty_reach localtime sig_fd forced R0 (Some ?R2)"
    using R1(4) by (simp add: rt_act_def)
  have "rt_enabled (RA_Stdin SA_None) ?R2" "\<not> stdin_cancelled ?R2"
    using assms(5) by (simp_all add: rt_enabled_def rt_over_def stdin_enabled_def stdin_cancelled_def)
  from hasty_reach.step [OF r2 this(1)] this(2)
  have "hasty_reach localtime sig_fd forced R0 (rt_act localtime sig_fd (RA_Stdin SA_None) ?R2)" by simp
  then show ?thesis using R1(5) assms(5) by (simp add: rt_act_def stdin_step_def stdin_strip_def)
qed

section \<open>A run that gets there\<close>

lemma ALOG_halves_handles:
  "ALOG_begin level tag msg w = (m, w') \<Longrightarrow> handles w' = handles w"
  "ALOG_send tag m w = Some w' \<Longrightarrow> handles w' = handles w"
  by (auto simp: ALOG_begin_def ALOG_send_def Let_def write_stderr_def Option.bind_eq_Some_conv split: if_splits)

definition stdin_state :: "rt_sys \<Rightarrow> task_state" where
  "stdin_state R = th_state (handles (rs_world R) stdin_handle)"

text \<open>The first statements of the thread, up to its \<open>poll\<close>, when it is not told to stop.\<close>

lemma stdin_first_steps:
  assumes "stdin_step SA_None R = Some R'" "g_running (user (rs_world R))"
  shows "rs_stdin R = SP_Begin \<Longrightarrow> (\<exists>msg. rs_stdin R' = SP_Log LOG_LEVEL_DEBUG stdin_TAG msg SP_While) \<and> stdin_state R' = TASK_STATE_RUNNING"
    and "rs_stdin R = SP_Log level tag msg k \<Longrightarrow> (\<exists>m. rs_stdin R' = SP_Send tag m k) \<and> stdin_state R' = stdin_state R"
    and "rs_stdin R = SP_Send tag m k \<Longrightarrow> rs_stdin R' = k \<and> stdin_state R' = stdin_state R"
    and "rs_stdin R = SP_While \<Longrightarrow> stdin_state R = TASK_STATE_RUNNING \<Longrightarrow> rs_stdin R' = SP_Poll"
  using assms
  by (auto simp: stdin_step_def stdin_goto_def stdin_state_def stdin_running_def set_handle_def Let_def
      ALOG_halves_handles split: prod.splits)

lemma rt_reads_line:
  assumes "rt_good localtime sig_fd S0 n t (rt_sys_init w)" "1 < unat n"
  shows "\<exists>R. rt_reach localtime sig_fd (rt_sys_init w) (Some R) \<and> rt_good localtime sig_fd S0 n t R \<and>
    rs_main R = MP_Loop \<and> rs_stdin R = SP_Strip newline"
proof -
  let ?R0 = "rt_sys_init w"
  define good where "good R \<longleftrightarrow> rt_reach localtime sig_fd ?R0 (Some R) \<and> rt_good localtime sig_fd S0 n t R \<and> rs_main R = MP_Loop" for R
  have running: "g_running (user (rs_world R))" and inv: "stdin_inv n t R" if "good R" for R
  proof -
    have g: "rt_inv localtime S0 n t R" "rs_main R = MP_Loop" using that by (simp_all add: good_def rt_good_def)
    then have "\<not> rt_over R" by (simp add: rt_over_def)
    from rt_inv_phase [OF g(1) this] obtain S where "rt_phase n t S R" by blast
    then show "g_running (user (rs_world R))" "stdin_inv n t R" using g(2) by (simp_all add: rt_phase_def)
  qed
  have step: "\<exists>R'. stdin_step ans R = Some R' \<and> good R'" if g: "good R" "stdin_enabled ans R" for R ans
  proof -
    have "rt_enabled (RA_Stdin ans) R" using g by (simp add: good_def rt_enabled_def rt_over_def)
    then obtain R' where "rt_act localtime sig_fd (RA_Stdin ans) R = Some R'" "rt_reach localtime sig_fd ?R0 (Some R')"
        "rt_good localtime sig_fd S0 n t R'"
      using program.reach_step g(1) unfolding good_def by blast
    then show ?thesis using stdin_step_frame [of ans R R'] g(1) by (auto simp: rt_act_def good_def)
  qed
  have "good ?R0" using assms(1) by (auto simp: good_def rt_sys_init_def intro: act_reach.start)
  moreover have "stdin_enabled SA_None ?R0" "rs_stdin ?R0 = SP_Begin" by (simp_all add: stdin_enabled_def rt_sys_init_def)
  ultimately obtain R1 msg where R1: "good R1" "rs_stdin R1 = SP_Log LOG_LEVEL_DEBUG stdin_TAG msg SP_While"
      "stdin_state R1 = TASK_STATE_RUNNING"
    using step [of ?R0 SA_None] stdin_first_steps(1) [OF _ running] by blast
  then obtain R2 m where R2: "good R2" "rs_stdin R2 = SP_Send stdin_TAG m SP_While" "stdin_state R2 = TASK_STATE_RUNNING"
    using step [of R1 SA_None] stdin_first_steps(2) [OF _ running] by (fastforce simp: stdin_enabled_def)
  then obtain R3 where R3: "good R3" "rs_stdin R3 = SP_While" "stdin_state R3 = TASK_STATE_RUNNING"
    using step [of R2 SA_None] stdin_first_steps(3) [OF _ running] by (fastforce simp: stdin_enabled_def)
  then obtain R4 where R4: "good R4" "rs_stdin R4 = SP_Poll"
    using step [of R3 SA_None] stdin_first_steps(4) [OF _ running] by (fastforce simp: stdin_enabled_def)
  then obtain R5 where R5: "good R5" "rs_stdin R5 = SP_Read"
    using step [of R4 "SA_Poll Poll_Ready"] by (fastforce simp: stdin_enabled_def stdin_step_def stdin_goto_def)
  have size: "rs_size R5 = n" using inv [OF R5(1)] R5(2) by (simp add: stdin_inv_def Let_def)
  then have "stdin_enabled (SA_Read (Read_Data newline)) R5"
    using R5(2) size assms(2) by (simp add: stdin_enabled_def read_ok_def newline_def unat_minus_one_pos)
  then obtain R6 where R6: "good R6" "stdin_stored newline R5 = Some R6"
    using step [OF R5(1)] R5(2) by (fastforce simp: stdin_step_def)
  then have "rs_stdin R6 = SP_Strip newline"
    using size by (auto simp: stdin_stored_def stdin_goto_def newline_def nl_def Let_def split: option.splits)
  with R6(1) show ?thesis unfolding good_def by blast
qed

lemma main_next_steps:
  assumes "main_step sig_fd ans R = Some R'"
  shows "rs_main R = MP_Shutdown \<Longrightarrow> rs_main R' = MP_Stop" "rs_main R = MP_Stop \<Longrightarrow> rs_main R' = MP_Poll_Tasks"
  using assms by (auto simp: main_step_def main_goto_def Let_def)

text \<open>The line is read; then \<open>main\<close> gets its signal and waits for the tasks, all before the thread goes on.\<close>

lemma rt_reads_and_stops:
  assumes "rt_good localtime sig_fd S0 n t (rt_sys_init w)" "1 < unat n"
  shows "\<exists>R. rt_reach localtime sig_fd (rt_sys_init w) (Some R) \<and> rt_good localtime sig_fd S0 n t R \<and>
    rs_main R = MP_Poll_Tasks \<and> rs_stdin R = SP_Strip newline"
proof -
  let ?R0 = "rt_sys_init w"
  obtain R where R: "rt_reach localtime sig_fd ?R0 (Some R)" "rt_good localtime sig_fd S0 n t R" "rs_main R = MP_Loop"
      "rs_stdin R = SP_Strip newline"
    using rt_reads_line [OF assms] by blast
  obtain R1 where R1: "rt_enabled (RA_Main Sig_Received) R" "rt_act localtime sig_fd (RA_Main Sig_Received) R = Some R1"
      "rs_main R1 = MP_Shutdown"
    using rt_signal [OF rt_good_inv [OF R(2)] R(3)] by blast
  have r1: "rt_reach localtime sig_fd ?R0 (Some R1)" "rt_good localtime sig_fd S0 n t R1"
    using program.reach_step [OF R(1,2) R1(1)] R1(2) by simp_all
  have "rt_enabled (RA_Main Sig_None) R1" using R1(3) by (simp add: rt_enabled_def rt_over_def main_enabled_def)
  from program.reach_step [OF r1 this] obtain R2 where R2: "rt_act localtime sig_fd (RA_Main Sig_None) R1 = Some R2"
      "rt_reach localtime sig_fd ?R0 (Some R2)" "rt_good localtime sig_fd S0 n t R2" by blast
  have m2: "rs_main R2 = MP_Stop" using R2(1) main_next_steps(1) R1(3) by (simp add: rt_act_def)
  then have "rt_enabled (RA_Main Sig_None) R2" by (simp add: rt_enabled_def rt_over_def main_enabled_def)
  from program.reach_step [OF R2(2,3) this] obtain R3 where R3: "rt_act localtime sig_fd (RA_Main Sig_None) R2 = Some R3"
      "rt_reach localtime sig_fd ?R0 (Some R3)" "rt_good localtime sig_fd S0 n t R3" by blast
  have "rs_main R3 = MP_Poll_Tasks" using R3(1) main_next_steps(2) m2 by (simp add: rt_act_def)
  moreover have "rs_stdin R3 = SP_Strip newline"
    using rt_act_frame [OF R1(2)] rt_act_frame [OF R2(1)] rt_act_frame [OF R3(1)] R(4) by simp
  ultimately show ?thesis using R3(2,3) by blast
qed

text \<open>A run without giving up is one of the runs with it: no thread is cancelled there.\<close>

lemma hasty_of_patient:
  assumes "rt_reach localtime sig_fd R0 r" "rt_good localtime sig_fd S0 n t R0"
  shows "hasty_reach localtime sig_fd forced R0 r"
  using assms(1)
proof (induction rule: act_reach.induct)
  case start
  show ?case by (rule hasty_reach.start)
next
  case (step R a)
  have "\<not> (stdin_cancelled R \<and> (\<exists>ans. a = RA_Stdin ans))"
  proof (intro notI, elim conjE exE)
    fix ans assume c: "stdin_cancelled R" "a = RA_Stdin ans"
    have "\<not> rt_over R" using step.hyps(2) by (simp add: rt_enabled_def)
    moreover have "rt_inv localtime S0 n t R"
      using program.reach_keeps [OF step.hyps(1) assms(2)] by (auto dest: rt_good_inv)
    ultimately obtain S where S: "rt_phase n t S R" using rt_inv_phase by blast
    have "rs_stdin R \<noteq> SP_Done" using c(1) by (auto simp: stdin_cancelled_def)
    then have "stdin_inv n t R" using S by (auto simp: rt_phase_def split: main_pc.splits)
    then show False using c(1) by (auto simp: stdin_cancelled_def stdin_inv_def Let_def stdin_up_def split: if_splits)
  qed
  with step show ?case by (intro hasty_reach.step)
qed

section \<open>Property\<close>

text \<open>
  C19: in the whole program, however it was started, there is a run with undefined behaviour in which \<open>main\<close> gives
  up its wait for the stdin task, both for the timeout and for a second \<open>SIGINT\<close>: the thread has just
  read a line when \<open>main\<close> cancels it, does not join it and frees the line buffer, and the thread then uses it.
\<close>
theorem giving_up_is_undefined:
  assumes "main_requests_ok env" "sig_fd \<ge> 0" "g_running (user w)" "g_log_running w" "main_start env w = Some (M_Next, w1)"
  shows "hasty_reach localtime sig_fd forced (rt_sys_init w1) None"
proof -
  let ?t = "se_thread (me_stdin env)"
  let ?n = STDIN_LINE_BUF_SIZE
  obtain S0 where S0: "rt_good localtime sig_fd S0 ?n ?t (rt_sys_init w1)"
    using rt_start [OF assms, of localtime] by blast
  have "1 < unat ?n" by (simp add: STDIN_LINE_BUF_SIZE_def)
  from rt_reads_and_stops [OF S0 this] obtain R where R: "rt_reach localtime sig_fd (rt_sys_init w1) (Some R)"
      "rt_good localtime sig_fd S0 ?n ?t R" "rs_main R = MP_Poll_Tasks" "rs_stdin R = SP_Strip newline"
    by blast
  have "\<not> rt_over R" using R(3) by (simp add: rt_over_def)
  then have "stdin_inv ?n ?t R" using rt_inv_phase [OF rt_good_inv [OF R(2)]] R(3) by (auto simp: rt_phase_def)
  then show ?thesis
    using give_up_undefined [OF hasty_of_patient [OF R(1) S0] _ assms(2) R(3,4)] by blast
qed

theorem giving_up_is_undefined_witness:
  "\<exists>w1. main_start env_ok rt_sample = Some (M_Next, w1) \<and> hasty_reach utc 3 False (rt_sys_init w1) None"
proof -
  obtain w1 where w1: "main_start env_ok rt_sample = Some (M_Next, w1)" using rt_sample_start by blast
  from giving_up_is_undefined [OF env_ok_requests _ rt_sample_flags w1, of 3 utc False] w1 show ?thesis by auto
qed

end
