(* ===== verification/Net_Options.thy ===== *)
theory Net_Options
  imports C_Format
begin

text \<open>
  The programs of \<open>Exercise2\<close>: the logging macro of \<open>log_helper.h\<close>, the parsers of numbers, and the loop over
  the options of each program. The receivers and the sender have their own copies of the parsers, and so
  has the model. The command line comes as the list of what the calls of \<open>getopt\<close> return: the option, its
  argument \<open>optarg\<close>, and \<open>optopt\<close>.
\<close>

section \<open>Logging\<close>

text \<open>The programs are compiled with \<open>LOG_LEVEL\<close> \<open>LOG_LEVEL_DEBUG\<close>, so every level is written.\<close>

datatype log_level = LEVEL_D | LEVEL_I | LEVEL_W | LEVEL_E

fun log_color :: "log_level \<Rightarrow> string" where
  "log_color LEVEL_D = esc ''36''"
| "log_color LEVEL_I = esc ''32''"
| "log_color LEVEL_W = esc ''33''"
| "log_color LEVEL_E = esc ''31''"

fun log_letter :: "log_level \<Rightarrow> string" where
  "log_letter LEVEL_D = ''D''"
| "log_letter LEVEL_I = ''I''"
| "log_letter LEVEL_W = ''W''"
| "log_letter LEVEL_E = ''E''"

definition LOG :: "log_level \<Rightarrow> string \<Rightarrow> string \<Rightarrow> string list \<Rightarrow> string list" where
  "LOG level tag msg err = err @ [log_color level @ log_letter level @ '' '' @ tag @ '': '' @ msg @ esc ''0'' @ newline]"

section \<open>Numbers\<close>

text \<open>
  The start of every parser: \<open>errno = 0\<close>, \<open>strtol\<close>, and the test that all of the string was a number in
  the range of \<open>long\<close>.
\<close>

definition whole_long :: "string \<Rightarrow> int option" where
  "whole_long str = (let r = strtol10 str in
     if st_errno r \<or> st_end r = str \<or> st_end r \<noteq> '''' then None else Some (st_value r))"

definition udp_parse_port :: "string \<Rightarrow> int" where
  "udp_parse_port str = (case whole_long str of
     None \<Rightarrow> - 1
   | Some port \<Rightarrow> if port > 65535 \<or> port < 1 then - 1 else port)"

definition udp_parse_size :: "string \<Rightarrow> int" where
  "udp_parse_size str = (case whole_long str of
     None \<Rightarrow> - 1
   | Some sz \<Rightarrow> if sz > 65507 \<or> sz < 1 then - 1 else sz)"

definition udp_parse_repetitions :: "string \<Rightarrow> int" where
  "udp_parse_repetitions str = (case whole_long str of
     None \<Rightarrow> - 2
   | Some repetitions \<Rightarrow> if repetitions < - 1 \<or> repetitions > INT_MAX then - 2 else repetitions)"

definition tcp_parse_port :: "string \<Rightarrow> int" where
  "tcp_parse_port str = (case whole_long str of
     None \<Rightarrow> - 1
   | Some port \<Rightarrow> if port > 65535 \<or> port < 1 then - 1 else port)"

definition tcp_parse_size :: "string \<Rightarrow> int" where
  "tcp_parse_size str = (case whole_long str of
     None \<Rightarrow> - 1
   | Some sz \<Rightarrow> if sz > 65507 \<or> sz < 1 then - 1 else sz)"

definition tcp_parse_repetitions :: "string \<Rightarrow> int" where
  "tcp_parse_repetitions str = (case whole_long str of
     None \<Rightarrow> - 2
   | Some repetitions \<Rightarrow> if repetitions < - 1 \<or> repetitions > INT_MAX then - 2 else repetitions)"

definition sender_parse_port :: "string \<Rightarrow> int" where
  "sender_parse_port str = (case whole_long str of
     None \<Rightarrow> - 1
   | Some port \<Rightarrow> if port > 65535 \<or> port < 1 then - 1 else port)"

definition sender_parse_size :: "string \<Rightarrow> int" where
  "sender_parse_size str = (case whole_long str of
     None \<Rightarrow> - 1
   | Some sz \<Rightarrow> if sz > 65507 \<or> sz < 0 then - 1 else sz)"

definition sender_parse_repetitions :: "string \<Rightarrow> int" where
  "sender_parse_repetitions str = (case whole_long str of
     None \<Rightarrow> - 2
   | Some repetitions \<Rightarrow> if repetitions < - 1 \<or> repetitions > INT_MAX then - 2 else repetitions)"

definition sender_parse_period :: "string \<Rightarrow> int" where
  "sender_parse_period str = (case whole_long str of
     None \<Rightarrow> - 1
   | Some period \<Rightarrow> if period < 0 then - 1 else period)"

section \<open>Options of the receivers\<close>

text \<open>The loop over the options ends the program with a code, or goes on with the settings.\<close>

datatype 'a options = Exit int | Run 'a

type_synonym getopt_answer = "char \<times> string \<times> char"

record receiver_config =
  rc_buffer_size :: int
  rc_port :: int
  rc_repetitions :: int

definition receiver_defaults :: receiver_config where
  "receiver_defaults = \<lparr>rc_buffer_size = 1024, rc_port = 8080, rc_repetitions = - 1\<rparr>"

definition udp_TAG :: string where "udp_TAG = ''udp_receiver''"
definition tcp_TAG :: string where "tcp_TAG = ''tcp_receiver''"

definition receiver_help :: string where
  "receiver_help = ''[-h (this message)] [-p <port 1-65535>] [-s <buffer_size>] [-r <repetitions -1-'' @
     show_int INT_MAX @ ''> (infinite by default)] '' @ newline"

fun udp_options :: "getopt_answer list \<Rightarrow> receiver_config \<Rightarrow> string list \<Rightarrow> receiver_config options \<times> string list" where
  "udp_options [] c err =
     (Run c, LOG LEVEL_D udp_TAG (''buffer size: '' @ show_int (rc_buffer_size c) @ '', port: '' @ show_int (rc_port c) @
        '', repetitions: '' @ show_int (rc_repetitions c)) err)"
| "udp_options ((opt, arg, bad) # opts) c err =
     (if opt = CHR ''p'' then
        (let port = udp_parse_port arg in
         if port < 0 then (Exit 1, LOG LEVEL_E udp_TAG (''Invalid port: '' @ arg @ '' (must be between 1-65535)'') err)
         else udp_options opts (c\<lparr>rc_port := port\<rparr>) err)
      else if opt = CHR ''s'' then
        (let sz = udp_parse_size arg in
         if sz < 0 then (Exit 1, LOG LEVEL_E udp_TAG (''Invalid size: '' @ arg @ '' (must be between 1-65507)'') err)
         else udp_options opts (c\<lparr>rc_buffer_size := sz\<rparr>) err)
      else if opt = CHR ''r'' then
        (let rep = udp_parse_repetitions arg in
         if rep \<noteq> - 1 \<and> rep < 0 then (Exit 1, LOG LEVEL_E udp_TAG (''Invalid repetition: '' @ arg @
           '' (must be between -1-'' @ show_int INT_MAX @ '')'') err)
         else udp_options opts (c\<lparr>rc_repetitions := rep\<rparr>) err)
      else if opt = CHR ''h'' then (Exit 0, LOG LEVEL_I udp_TAG receiver_help err)
      else if opt = CHR ''?'' then
        (Exit 1, LOG LEVEL_I udp_TAG receiver_help (LOG LEVEL_E udp_TAG (''Disallowed argument '' @ [bad]) err))
      else (Exit 1, LOG LEVEL_I udp_TAG receiver_help
        (LOG LEVEL_E udp_TAG (''DEFAULT BRANCH GETOPT: Disallowed argument '' @ [bad]) err)))"

fun tcp_options :: "getopt_answer list \<Rightarrow> receiver_config \<Rightarrow> string list \<Rightarrow> receiver_config options \<times> string list" where
  "tcp_options [] c err =
     (Run c, LOG LEVEL_D tcp_TAG (''buffer size: '' @ show_int (rc_buffer_size c) @ '', port: '' @ show_int (rc_port c) @
        '', repetitions: '' @ show_int (rc_repetitions c)) err)"
| "tcp_options ((opt, arg, bad) # opts) c err =
     (if opt = CHR ''p'' then
        (let port = tcp_parse_port arg in
         if port < 0 then (Exit 1, LOG LEVEL_E tcp_TAG (''Invalid port: '' @ arg @ '' (must be between 1-65535)'') err)
         else tcp_options opts (c\<lparr>rc_port := port\<rparr>) err)
      else if opt = CHR ''s'' then
        (let sz = tcp_parse_size arg in
         if sz < 0 then (Exit 1, LOG LEVEL_E tcp_TAG (''Invalid size: '' @ arg @ '' (must be between 1-65507)'') err)
         else tcp_options opts (c\<lparr>rc_buffer_size := sz\<rparr>) err)
      else if opt = CHR ''r'' then
        (let rep = tcp_parse_repetitions arg in
         if rep \<noteq> - 1 \<and> rep < 0 then (Exit 1, LOG LEVEL_E tcp_TAG (''Invalid repetition: '' @ arg @
           '' (must be between -1-'' @ show_int INT_MAX @ '')'') err)
         else tcp_options opts (c\<lparr>rc_repetitions := rep\<rparr>) err)
      else if opt = CHR ''h'' then (Exit 0, LOG LEVEL_I tcp_TAG receiver_help err)
      else if opt = CHR ''?'' then
        (Exit 1, LOG LEVEL_I tcp_TAG receiver_help (LOG LEVEL_E tcp_TAG (''Disallowed argument '' @ [bad]) err))
      else (Exit 1, LOG LEVEL_I tcp_TAG receiver_help
        (LOG LEVEL_E tcp_TAG (''DEFAULT BRANCH GETOPT: Disallowed argument '' @ [bad]) err)))"

section \<open>Options of the sender\<close>

datatype protocol = PROTO_UDP | PROTO_TCP

record sender_config =
  sc_port :: int
  sc_host :: string
  sc_period :: int
  sc_repetitions :: int
  sc_max_msg_size :: int
  sc_message :: string
  sc_protocol :: protocol

definition sender_defaults :: sender_config where
  "sender_defaults = \<lparr>sc_port = 8080, sc_host = ''127.0.0.1'', sc_period = 5, sc_repetitions = - 1,
     sc_max_msg_size = 65507, sc_message = '''', sc_protocol = PROTO_UDP\<rparr>"

definition sender_TAG :: string where "sender_TAG = ''udp_tcp_sender''"

definition sender_help :: string where
  "sender_help = ''[-h (this message)] [-T (use TCP instead of UDP)] [-p <port 1-65535>] [-m '' @ [CHR 0x22] @
     ''message'' @ [CHR 0x22] @ ''] [-s <max_msg_size> ('' @ show_int 65507 @
     '' by default)] [-a <host/ip address>] [-r <repetitions -1-'' @ show_int INT_MAX @
     ''> (infinite by default)] [-t <period_s> ('' @ show_int 5 @ '' by default)]'' @ newline"

fun sender_options :: "getopt_answer list \<Rightarrow> sender_config \<Rightarrow> string list \<Rightarrow> sender_config options \<times> string list" where
  "sender_options [] c err = (Run c, err)"
| "sender_options ((opt, arg, bad) # opts) c err =
     (if opt = CHR ''T'' then sender_options opts (c\<lparr>sc_protocol := PROTO_TCP\<rparr>) err
      else if opt = CHR ''p'' then
        (let port = sender_parse_port arg in
         if port < 0 then (Exit 1, LOG LEVEL_E sender_TAG (''Invalid port: '' @ arg @ '' (must be between 1-65535)'') err)
         else sender_options opts (c\<lparr>sc_port := port\<rparr>) err)
      else if opt = CHR ''m'' then sender_options opts (c\<lparr>sc_message := arg\<rparr>) err
      else if opt = CHR ''s'' then
        (let sz = sender_parse_size arg in
         if sz < 0 then (Exit 1, LOG LEVEL_E sender_TAG (''Invalid size: '' @ arg @ '' (must be between 0-65507)'') err)
         else sender_options opts (c\<lparr>sc_max_msg_size := sz\<rparr>) err)
      else if opt = CHR ''a'' then sender_options opts (c\<lparr>sc_host := arg\<rparr>) err
      else if opt = CHR ''r'' then
        (let rep = sender_parse_repetitions arg in
         if rep \<noteq> - 1 \<and> rep < 0 then (Exit 1, LOG LEVEL_E sender_TAG (''Invalid repetition: '' @ arg @
           '' (must be between -1-'' @ show_int INT_MAX @ '')'') err)
         else sender_options opts (c\<lparr>sc_repetitions := rep\<rparr>) err)
      else if opt = CHR ''t'' then
        (let period = sender_parse_period arg in
         if period < 0 then (Exit 1, LOG LEVEL_E sender_TAG (''Invalid period: '' @ arg @ '' (must be between 0-'' @
           show_int LONG_MAX @ '')'') err)
         else sender_options opts (c\<lparr>sc_period := period\<rparr>) err)
      else if opt = CHR ''h'' then (Exit 0, LOG LEVEL_I sender_TAG sender_help err)
      else if opt = CHR ''?'' then
        (Exit 1, LOG LEVEL_I sender_TAG sender_help (LOG LEVEL_E sender_TAG (''Disallowed argument '' @ [bad]) err))
      else (Exit 1, LOG LEVEL_I sender_TAG sender_help
        (LOG LEVEL_E sender_TAG (''DEFAULT BRANCH GETOPT: Disallowed argument '' @ [bad]) err)))"

section \<open>What the parsers accept\<close>

lemma whole_long_iff: "whole_long s = Some v \<longleftrightarrow> number_text s v \<and> LONG_MIN \<le> v \<and> v \<le> LONG_MAX"
proof
  assume "whole_long s = Some v"
  then have "\<not> st_errno (strtol10 s)" "st_end (strtol10 s) = []" "s \<noteq> []" "v = st_value (strtol10 s)"
    by (auto simp: whole_long_def Let_def split: if_splits)
  then show "number_text s v \<and> LONG_MIN \<le> v \<and> v \<le> LONG_MAX"
    using strtol_whole [of s] strtol_value_range [of s] by simp
next
  assume "number_text s v \<and> LONG_MIN \<le> v \<and> v \<le> LONG_MAX"
  then show "whole_long s = Some v"
    using strtol_number_text [of s v] by (auto simp: whole_long_def Let_def)
qed

lemma show_int_nonempty: "show_int i \<noteq> []"
  by (simp add: show_int_def)

lemma whole_long_show: "LONG_MIN \<le> i \<Longrightarrow> i \<le> LONG_MAX \<Longrightarrow> whole_long (show_int i) = Some i"
  using show_int_nonempty [of i, symmetric] by (simp add: whole_long_def strtol_show_int)

lemmas parser_defs = udp_parse_port_def udp_parse_size_def udp_parse_repetitions_def
  tcp_parse_port_def tcp_parse_size_def tcp_parse_repetitions_def
  sender_parse_port_def sender_parse_size_def sender_parse_repetitions_def sender_parse_period_def

text \<open>Any parser of the shape of this program: a whole number in an interval, or a negative code.\<close>

lemma parser_iff:
  assumes "bad < lo" "LONG_MIN \<le> lo" "hi \<le> LONG_MAX"
    and out: "\<And>v. LONG_MIN \<le> v \<Longrightarrow> v \<le> LONG_MAX \<Longrightarrow> no v \<longleftrightarrow> \<not> (lo \<le> v \<and> v \<le> hi)"
  shows "(case whole_long s of None \<Rightarrow> bad | Some v \<Rightarrow> if no v then bad else v) = p \<and> lo \<le> p \<longleftrightarrow>
    number_text s p \<and> lo \<le> p \<and> p \<le> hi"
proof -
  have whole: "number_text s p \<and> lo \<le> p \<and> p \<le> hi \<longleftrightarrow> whole_long s = Some p \<and> lo \<le> p \<and> p \<le> hi"
    unfolding whole_long_iff using assms(2,3) by linarith
  show ?thesis
  proof (cases "whole_long s")
    case None
    then show ?thesis unfolding whole using assms(1) by simp
  next
    case (Some v)
    then have "no v \<longleftrightarrow> \<not> (lo \<le> v \<and> v \<le> hi)" using out by (simp add: whole_long_iff)
    with Some show ?thesis unfolding whole using assms(1) by (cases "no v") auto
  qed
qed

lemma udp_parse_port_iff: "udp_parse_port s = p \<and> 1 \<le> p \<longleftrightarrow> number_text s p \<and> 1 \<le> p \<and> p \<le> 65535"
  unfolding udp_parse_port_def by (rule parser_iff) auto

lemma udp_parse_size_iff: "udp_parse_size s = n \<and> 1 \<le> n \<longleftrightarrow> number_text s n \<and> 1 \<le> n \<and> n \<le> 65507"
  unfolding udp_parse_size_def by (rule parser_iff) auto

lemma udp_parse_repetitions_iff:
  "udp_parse_repetitions s = r \<and> - 1 \<le> r \<longleftrightarrow> number_text s r \<and> - 1 \<le> r \<and> r \<le> INT_MAX"
  unfolding udp_parse_repetitions_def by (rule parser_iff) auto

lemma sender_parse_size_iff: "sender_parse_size s = n \<and> 0 \<le> n \<longleftrightarrow> number_text s n \<and> 0 \<le> n \<and> n \<le> 65507"
  unfolding sender_parse_size_def by (rule parser_iff) auto

lemma sender_parse_period_iff: "sender_parse_period s = t \<and> 0 \<le> t \<longleftrightarrow> number_text s t \<and> 0 \<le> t \<and> t \<le> LONG_MAX"
  unfolding sender_parse_period_def by (rule parser_iff) auto

lemma parsers_agree:
  "tcp_parse_port = udp_parse_port" "sender_parse_port = udp_parse_port"
  "tcp_parse_size = udp_parse_size"
  "tcp_parse_repetitions = udp_parse_repetitions" "sender_parse_repetitions = udp_parse_repetitions"
  by (simp_all add: fun_eq_iff parser_defs)

text \<open>
  C34: the number parsers of the three programs accept exactly the texts that read as one decimal number
  (blanks, a sign, digits, and nothing after them) in the documented range, and give that number; the three
  copies of a parser agree, and for the sizes the sender allows 0 and the receivers do not.
\<close>

theorem parsers_accept:
  "(udp_parse_port s = v \<and> 1 \<le> v \<longleftrightarrow> number_text s v \<and> 1 \<le> v \<and> v \<le> 65535) \<and>
   (udp_parse_size s = v \<and> 1 \<le> v \<longleftrightarrow> number_text s v \<and> 1 \<le> v \<and> v \<le> 65507) \<and>
   (udp_parse_repetitions s = v \<and> - 1 \<le> v \<longleftrightarrow> number_text s v \<and> - 1 \<le> v \<and> v \<le> INT_MAX) \<and>
   (sender_parse_size s = v \<and> 0 \<le> v \<longleftrightarrow> number_text s v \<and> 0 \<le> v \<and> v \<le> 65507) \<and>
   (sender_parse_period s = v \<and> 0 \<le> v \<longleftrightarrow> number_text s v \<and> 0 \<le> v \<and> v \<le> LONG_MAX) \<and>
   tcp_parse_port s = udp_parse_port s \<and> sender_parse_port s = udp_parse_port s \<and>
   tcp_parse_size s = udp_parse_size s \<and>
   tcp_parse_repetitions s = udp_parse_repetitions s \<and> sender_parse_repetitions s = udp_parse_repetitions s"
  by (intro conjI udp_parse_port_iff udp_parse_size_iff udp_parse_repetitions_iff sender_parse_size_iff
      sender_parse_period_iff) (simp_all add: parsers_agree)

section \<open>What the loops over the options do\<close>

text \<open>
  A reference for the loops: an option is good or it is not, a good one changes the settings, and the first
  one that is not good ends the program.
\<close>

fun receiver_good :: "getopt_answer \<Rightarrow> bool" where
  "receiver_good (opt, arg, bad) \<longleftrightarrow> opt = CHR ''p'' \<and> 1 \<le> udp_parse_port arg \<or>
     opt = CHR ''s'' \<and> 1 \<le> udp_parse_size arg \<or> opt = CHR ''r'' \<and> - 1 \<le> udp_parse_repetitions arg"

fun receiver_set :: "getopt_answer \<Rightarrow> receiver_config \<Rightarrow> receiver_config" where
  "receiver_set (opt, arg, bad) c =
     (if opt = CHR ''p'' then c\<lparr>rc_port := udp_parse_port arg\<rparr>
      else if opt = CHR ''s'' then c\<lparr>rc_buffer_size := udp_parse_size arg\<rparr>
      else c\<lparr>rc_repetitions := udp_parse_repetitions arg\<rparr>)"

fun sender_good :: "getopt_answer \<Rightarrow> bool" where
  "sender_good (opt, arg, bad) \<longleftrightarrow> opt \<in> {CHR ''T'', CHR ''m'', CHR ''a''} \<or>
     opt = CHR ''p'' \<and> 1 \<le> sender_parse_port arg \<or> opt = CHR ''s'' \<and> 0 \<le> sender_parse_size arg \<or>
     opt = CHR ''r'' \<and> - 1 \<le> sender_parse_repetitions arg \<or> opt = CHR ''t'' \<and> 0 \<le> sender_parse_period arg"

fun sender_set :: "getopt_answer \<Rightarrow> sender_config \<Rightarrow> sender_config" where
  "sender_set (opt, arg, bad) c =
     (if opt = CHR ''T'' then c\<lparr>sc_protocol := PROTO_TCP\<rparr>
      else if opt = CHR ''m'' then c\<lparr>sc_message := arg\<rparr>
      else if opt = CHR ''a'' then c\<lparr>sc_host := arg\<rparr>
      else if opt = CHR ''p'' then c\<lparr>sc_port := sender_parse_port arg\<rparr>
      else if opt = CHR ''s'' then c\<lparr>sc_max_msg_size := sender_parse_size arg\<rparr>
      else if opt = CHR ''r'' then c\<lparr>sc_repetitions := sender_parse_repetitions arg\<rparr>
      else c\<lparr>sc_period := sender_parse_period arg\<rparr>)"

definition options_result ::
  "(getopt_answer \<Rightarrow> bool) \<Rightarrow> (getopt_answer \<Rightarrow> 'a \<Rightarrow> 'a) \<Rightarrow> getopt_answer list \<Rightarrow> 'a \<Rightarrow> 'a options" where
  "options_result good upd opts c = (case dropWhile good opts of
     [] \<Rightarrow> Run (fold upd opts c)
   | (opt, arg, bad) # _ \<Rightarrow> Exit (if opt = CHR ''h'' then 0 else 1))"

definition rc_ok :: "receiver_config \<Rightarrow> bool" where
  "rc_ok c \<longleftrightarrow> 1 \<le> rc_buffer_size c \<and> rc_buffer_size c \<le> 65507 \<and> 1 \<le> rc_port c \<and> rc_port c \<le> 65535 \<and>
     - 1 \<le> rc_repetitions c \<and> rc_repetitions c \<le> INT_MAX"

definition sc_ok :: "sender_config \<Rightarrow> bool" where
  "sc_ok c \<longleftrightarrow> 0 \<le> sc_max_msg_size c \<and> sc_max_msg_size c \<le> 65507 \<and> 1 \<le> sc_port c \<and> sc_port c \<le> 65535 \<and>
     - 1 \<le> sc_repetitions c \<and> sc_repetitions c \<le> INT_MAX \<and> 0 \<le> sc_period c \<and> sc_period c \<le> LONG_MAX"

lemma options_result_simps [simp]:
  "options_result good upd [] c = Run c"
  "good a \<Longrightarrow> options_result good upd (a # opts) c = options_result good upd opts (upd a c)"
  "\<not> good (opt, arg, bad) \<Longrightarrow> options_result good upd ((opt, arg, bad) # opts) c = Exit (if opt = CHR ''h'' then 0 else 1)"
  by (simp_all add: options_result_def cong: list.case_cong)

lemma port_neg: "udp_parse_port s < 0 \<longleftrightarrow> \<not> 1 \<le> udp_parse_port s"
  by (auto simp: udp_parse_port_def split: option.splits)

lemma size_neg: "udp_parse_size s < 0 \<longleftrightarrow> \<not> 1 \<le> udp_parse_size s"
  by (auto simp: udp_parse_size_def split: option.splits)

lemma repetitions_neg:
  "udp_parse_repetitions s \<noteq> - 1 \<and> udp_parse_repetitions s < 0 \<longleftrightarrow> \<not> - 1 \<le> udp_parse_repetitions s"
  by auto

lemma udp_options_result: "fst (udp_options opts c err) = options_result receiver_good receiver_set opts c"
proof (induction opts c err rule: udp_options.induct)
  case (1 c err)
  then show ?case by simp
next
  case (2 opt arg bad opts c err)
  consider "opt = CHR ''p''" | "opt = CHR ''s''" | "opt = CHR ''r''" | "opt \<notin> {CHR ''p'', CHR ''s'', CHR ''r''}" by blast
  then show ?case
    by cases (use 2 in \<open>simp_all add: port_neg size_neg repetitions_neg Let_def del: not_le\<close>)
qed

lemma tcp_options_result: "fst (tcp_options opts c err) = options_result receiver_good receiver_set opts c"
proof (induction opts c err rule: tcp_options.induct)
  case (1 c err)
  then show ?case by simp
next
  case (2 opt arg bad opts c err)
  consider "opt = CHR ''p''" | "opt = CHR ''s''" | "opt = CHR ''r''" | "opt \<notin> {CHR ''p'', CHR ''s'', CHR ''r''}" by blast
  then show ?case
    by cases (use 2 in \<open>simp_all add: parsers_agree port_neg size_neg repetitions_neg Let_def del: not_le\<close>)
qed

lemma sender_options_result: "fst (sender_options opts c err) = options_result sender_good sender_set opts c"
proof (induction opts c err rule: sender_options.induct)
  case (1 c err)
  then show ?case by simp
next
  case (2 opt arg bad opts c err)
  consider "opt = CHR ''p''" | "opt = CHR ''s''" | "opt = CHR ''r''" | "opt = CHR ''t''" | "opt \<in> {CHR ''T'', CHR ''m'', CHR ''a''}"
    | "opt \<notin> {CHR ''p'', CHR ''s'', CHR ''r'', CHR ''t'', CHR ''T'', CHR ''m'', CHR ''a''}" by blast
  then show ?case
    by cases (use 2 in \<open>auto simp add: parsers_agree port_neg repetitions_neg Let_def simp del: not_le\<close>)
qed

lemma parse_upper:
  "udp_parse_port s \<le> 65535" "udp_parse_size s \<le> 65507" "udp_parse_repetitions s \<le> 2147483647"
  "sender_parse_size s \<le> 65507" "sender_parse_period s \<le> 9223372036854775807"
  using whole_long_iff by (auto simp: parser_defs split: option.splits)

lemma receiver_set_ok: "rc_ok c \<Longrightarrow> receiver_good a \<Longrightarrow> rc_ok (receiver_set a c)"
  by (cases a) (auto simp: rc_ok_def parse_upper)

lemma sender_set_ok: "sc_ok c \<Longrightarrow> sender_good a \<Longrightarrow> sc_ok (sender_set a c)"
  by (cases a) (elim sender_good.elims disjE conjE; auto simp: sc_ok_def parsers_agree parse_upper)

lemma options_result_ok:
  assumes "ok c" "\<And>c a. ok c \<Longrightarrow> good a \<Longrightarrow> ok (upd a c)" "options_result good upd opts c = Run c'"
  shows "ok c'"
  using assms(1,3)
proof (induction opts arbitrary: c)
  case (Cons a opts)
  show ?case
  proof (cases "good a")
    case True
    then show ?thesis using Cons.IH [OF assms(2) [OF Cons.prems(1) True]] Cons.prems(2) by simp
  next
    case False
    then show ?thesis using Cons.prems(2) by (cases a) simp
  qed
qed simp

lemma defaults_ok: "rc_ok receiver_defaults" "sc_ok sender_defaults"
  by (simp_all add: rc_ok_def receiver_defaults_def sc_ok_def sender_defaults_def)

lemma udp_options_ok: "fst (udp_options opts receiver_defaults err) = Run c \<Longrightarrow> rc_ok c"
  unfolding udp_options_result by (rule options_result_ok [of rc_ok, OF defaults_ok(1) receiver_set_ok])

lemma tcp_options_ok: "fst (tcp_options opts receiver_defaults err) = Run c \<Longrightarrow> rc_ok c"
  unfolding tcp_options_result by (rule options_result_ok [of rc_ok, OF defaults_ok(1) receiver_set_ok])

lemma sender_options_ok: "fst (sender_options opts sender_defaults err) = Run c \<Longrightarrow> sc_ok c"
  unfolding sender_options_result by (rule options_result_ok [of sc_ok, OF defaults_ok(2) sender_set_ok])

text \<open>
  C33: for every command line, the loop over the options of each program gives the result of the reference:
  the first option with an unacceptable argument (or \<open>-h\<close>, or an unknown option) ends the program, with 0 for
  \<open>-h\<close> and 1 otherwise, and without one the program goes on with settings in which a later option replaces an
  earlier one. The settings it goes on with are in range.
\<close>

theorem options_typed:
  "fst (udp_options opts receiver_defaults err) = options_result receiver_good receiver_set opts receiver_defaults \<and>
   fst (tcp_options opts receiver_defaults err) = options_result receiver_good receiver_set opts receiver_defaults \<and>
   fst (sender_options opts sender_defaults err) = options_result sender_good sender_set opts sender_defaults \<and>
   (case options_result receiver_good receiver_set opts receiver_defaults of
      Run c \<Rightarrow> 1 \<le> rc_buffer_size c \<and> rc_buffer_size c \<le> 65507 \<and> 1 \<le> rc_port c \<and> rc_port c \<le> 65535 \<and>
        - 1 \<le> rc_repetitions c \<and> rc_repetitions c \<le> INT_MAX
    | Exit k \<Rightarrow> k \<in> {0, 1}) \<and>
   (case options_result sender_good sender_set opts sender_defaults of
      Run c \<Rightarrow> 0 \<le> sc_max_msg_size c \<and> sc_max_msg_size c \<le> 65507 \<and> 1 \<le> sc_port c \<and> sc_port c \<le> 65535 \<and>
        - 1 \<le> sc_repetitions c \<and> sc_repetitions c \<le> INT_MAX \<and> 0 \<le> sc_period c \<and> sc_period c \<le> LONG_MAX
    | Exit k \<Rightarrow> k \<in> {0, 1})"
proof -
  have exit: "options_result good upd opts c = Exit k \<Longrightarrow> k \<in> {0, 1}" for good and upd and c :: 'c and k
    by (auto simp: options_result_def split: list.splits if_splits)
  have "case options_result receiver_good receiver_set opts receiver_defaults of Run c \<Rightarrow> rc_ok c | Exit k \<Rightarrow> k \<in> {0, 1}"
    using exit [of receiver_good receiver_set receiver_defaults] udp_options_ok [of opts err]
    by (auto simp: udp_options_result split: options.split)
  moreover have "case options_result sender_good sender_set opts sender_defaults of Run c \<Rightarrow> sc_ok c | Exit k \<Rightarrow> k \<in> {0, 1}"
    using exit [of sender_good sender_set sender_defaults] sender_options_ok [of opts err]
    by (auto simp: sender_options_result split: options.split)
  ultimately show ?thesis
    by (simp add: udp_options_result tcp_options_result sender_options_result rc_ok_def sc_ok_def cong: options.case_cong)
qed

end
