(* ===== verification/Net_Receive.thy ===== *)
theory Net_Receive
  imports Net_Options
begin

text \<open>
  \<open>udp_receiver.c\<close> and \<open>tcp_receiver.c\<close> of \<open>Exercise2\<close>. The state holds \<open>running\<close>, the repetitions that are
  left, the open sockets, the block of \<open>rx_buf\<close> (bytes that nobody wrote are \<open>None\<close>) and what went to
  \<open>stderr\<close>. The operating system is a script of answers: one for each call that can fail or wait. Around a
  waiting call a signal can come at two places: after the test of \<open>running\<close> and before the call waits, and
  after the call has returned.
\<close>

section \<open>State and answers of the operating system\<close>

record net_process =
  ns_running :: bool
  ns_repetitions :: int
  ns_sockets :: "int list"
  ns_err :: "string list"

record net_state = net_process +
  ns_buffer :: "char option list option"

definition net_start :: "int \<Rightarrow> string list \<Rightarrow> net_state" where
  "net_start repetitions err =
     \<lparr>ns_running = True, ns_repetitions = repetitions, ns_sockets = [], ns_err = err, ns_buffer = None\<rparr>"

text \<open>
  \<open>Interrupted\<close> is \<open>EINTR\<close>: without \<open>SA_RESTART\<close> a waiting call ends so when one of the two handlers has run.
\<close>

datatype 'a answer = Interrupted | Failed string | Answered 'a

type_synonym 'a turn = "bool \<times> 'a answer \<times> bool"

text \<open>How a loop ends: with undefined behaviour, waiting in a call, by its exit, or by a return from \<open>main\<close>.\<close>

datatype 's loop = Loop_Undefined | Loop_Waits 's | Loop_Exit 's | Loop_Return int 's

datatype 's net_outcome = Net_Undefined | Waits 's | Returns int 's

definition net_log :: "log_level \<Rightarrow> string \<Rightarrow> string \<Rightarrow> 'a net_process_scheme \<Rightarrow> 'a net_process_scheme" where
  "net_log level tag msg st = st\<lparr>ns_err := LOG level tag msg (ns_err st)\<rparr>"

definition net_log_errno :: "log_level \<Rightarrow> string \<Rightarrow> string \<Rightarrow> string \<Rightarrow> 'a net_process_scheme \<Rightarrow> 'a net_process_scheme" where
  "net_log_errno level tag msg strerror st = net_log level tag (msg @ '': '' @ strerror) st"

definition signal_handler :: "'a net_process_scheme \<Rightarrow> 'a net_process_scheme" where
  "signal_handler st = st\<lparr>ns_running := False\<rparr>"

definition signal_if :: "bool \<Rightarrow> 'a net_process_scheme \<Rightarrow> 'a net_process_scheme" where
  "signal_if sig st = (if sig then signal_handler st else st)"

definition net_open :: "int \<Rightarrow> 'a net_process_scheme \<Rightarrow> 'a net_process_scheme" where
  "net_open fd st = st\<lparr>ns_sockets := fd # ns_sockets st\<rparr>"

definition net_close :: "int \<Rightarrow> 'a net_process_scheme \<Rightarrow> 'a net_process_scheme" where
  "net_close fd st = st\<lparr>ns_sockets := remove1 fd (ns_sockets st)\<rparr>"

definition malloc_rx_buf :: "int \<Rightarrow> net_state \<Rightarrow> net_state" where
  "malloc_rx_buf n st = st\<lparr>ns_buffer := Some (replicate (nat n) None)\<rparr>"

definition free_rx_buf :: "net_state \<Rightarrow> net_state" where
  "free_rx_buf st = st\<lparr>ns_buffer := None\<rparr>"

definition proto_listening :: "string \<Rightarrow> int \<Rightarrow> string" where
  "proto_listening proto port = proto @ ''Listening on port '' @ show_int port"

section \<open>A message in the buffer\<close>

text \<open>
  The loop that removes the line ends of a message of \<open>k\<close> bytes; every index is below \<open>k\<close>.
\<close>

fun strip_trailing :: "nat \<Rightarrow> char option list \<Rightarrow> nat \<times> char option list" where
  "strip_trailing 0 buf = (0, buf)"
| "strip_trailing (Suc k) buf =
     (if buf ! k = Some (CHR 0x0A) \<or> buf ! k = Some (CHR 0x0D)
      then strip_trailing k (buf[k := Some (CHR 0x00)]) else (Suc k, buf))"

definition received_line :: "string \<Rightarrow> nat \<Rightarrow> string \<Rightarrow> int \<Rightarrow> string \<Rightarrow> string" where
  "received_line proto k ip port msg = proto @ ''Received '' @ show_nat k @ '' bytes from '' @ ip @ '':'' @
     show_int port @ '' -- Message: '' @ msg"

text \<open>
  One datagram: \<open>recvfrom\<close> stores at most \<open>buffer_size - 1\<close> bytes of it and returns its whole length
  (\<open>MSG_TRUNC\<close>). \<open>None\<close> is an access outside of the buffer.
\<close>

definition udp_message :: "int \<Rightarrow> string \<Rightarrow> string \<Rightarrow> int \<Rightarrow> net_state \<Rightarrow> net_state option" where
  "udp_message buffer_size d ip port st =
     Option.bind (Option.bind (ns_buffer st) (write_bytes 0 (take (nat (buffer_size - 1)) d))) (\<lambda>buf.
     let bytes_received = length d;
         st = (if int bytes_received > buffer_size - 1
           then net_log LEVEL_W udp_TAG (''Message truncated: received '' @ show_nat bytes_received @
             '', buffer only '' @ show_int (buffer_size - 1)) st
           else st) in
     Option.bind (write_bytes bytes_received [CHR 0x00] buf) (\<lambda>buf.
     let (bytes_received, buf) = strip_trailing bytes_received buf in
     map_option (\<lambda>msg. net_log LEVEL_I udp_TAG (received_line ''[UDP] '' bytes_received ip port msg)
         (st\<lparr>ns_buffer := Some buf\<rparr>))
       (c_string buf)))"

text \<open>The bytes that one call of \<open>recv\<close> has returned.\<close>

definition tcp_message :: "string \<Rightarrow> string \<Rightarrow> int \<Rightarrow> net_state \<Rightarrow> net_state option" where
  "tcp_message d ip port st =
     Option.bind (Option.bind (ns_buffer st) (write_bytes 0 d)) (\<lambda>buf.
     Option.bind (write_bytes (length d) [CHR 0x00] buf) (\<lambda>buf.
     let (bytes_received, buf) = strip_trailing (length d) buf in
     map_option (\<lambda>msg. net_log LEVEL_I tcp_TAG (received_line ''[TCP] '' bytes_received ip port msg)
         (st\<lparr>ns_buffer := Some buf\<rparr>))
       (c_string buf)))"

definition count_repetition :: "'a net_process_scheme \<Rightarrow> 'a net_process_scheme" where
  "count_repetition st =
     (if ns_repetitions st > 0 then st\<lparr>ns_repetitions := ns_repetitions st - 1\<rparr> else st)"

section \<open>The UDP receiver\<close>

fun udp_loop :: "int \<Rightarrow> int \<Rightarrow> (string \<times> string \<times> int) turn list \<Rightarrow> net_state \<Rightarrow> net_state loop" where
  "udp_loop n fd [] st = (if ns_running st then Loop_Waits st else Loop_Exit st)"
| "udp_loop n fd ((before, answer, after) # turns) st =
     (if \<not> ns_running st then Loop_Exit st
      else let st = signal_if before st in
        case answer of
          Interrupted \<Rightarrow> udp_loop n fd turns (signal_handler st)
        | Failed e \<Rightarrow> Loop_Return 1 (net_close fd (free_rx_buf (net_log_errno LEVEL_E udp_TAG ''recvfrom() failed.'' e st)))
        | Answered (d, ip, port) \<Rightarrow>
            (case udp_message n d ip port st of
               None \<Rightarrow> Loop_Undefined
             | Some st \<Rightarrow>
                 let st = count_repetition (signal_if after st) in
                 if ns_repetitions st = 0 then Loop_Exit st else udp_loop n fd turns st))"

text \<open>What \<open>socket\<close>, \<open>bind\<close> (its error, if any) and \<open>malloc\<close> answer.\<close>

record udp_answers =
  ua_socket :: "int + string"
  ua_bind :: "string option"
  ua_malloc :: bool

definition udp_finish :: "int \<Rightarrow> net_state \<Rightarrow> net_state" where
  "udp_finish fd st =
     (let st = (if \<not> ns_running st
        then net_log LEVEL_D udp_TAG ''Received shutdown signal, exiting gracefully'' st else st) in
      free_rx_buf (net_close fd st))"

definition udp_run :: "receiver_config \<Rightarrow> udp_answers \<Rightarrow> (string \<times> string \<times> int) turn list \<Rightarrow> string list \<Rightarrow>
    net_state net_outcome" where
  "udp_run c a turns err =
     (let st = net_start (rc_repetitions c) err in
      case ua_socket a of
        Inr e \<Rightarrow> Returns 1 (net_log_errno LEVEL_E udp_TAG ''Failed to create socket'' e st)
      | Inl fd \<Rightarrow>
          let st = net_log LEVEL_D udp_TAG ''[UDP] Created rx socket'' (net_open fd st) in
          (case ua_bind a of
             Some e \<Rightarrow> Returns 1 (net_close fd
               (net_log_errno LEVEL_E udp_TAG (''Could not bind socket to port '' @ show_int (rc_port c)) e st))
           | None \<Rightarrow>
               let st = net_log LEVEL_I udp_TAG (proto_listening ''[UDP] '' (rc_port c))
                 (net_log LEVEL_D udp_TAG ''[UDP] Bound socket to port'' st) in
               if \<not> ua_malloc a then Returns 1 (net_close fd
                 (net_log LEVEL_E udp_TAG (''Failed to allocate receive buffer of size: '' @ show_int (rc_buffer_size c)) st))
               else (case udp_loop (rc_buffer_size c) fd turns (malloc_rx_buf (rc_buffer_size c) st) of
                   Loop_Undefined \<Rightarrow> Net_Undefined
                 | Loop_Waits st \<Rightarrow> Waits st
                 | Loop_Return k st \<Rightarrow> Returns k st
                 | Loop_Exit st \<Rightarrow> Returns 0 (udp_finish fd st))))"

definition udp_main :: "getopt_answer list \<Rightarrow> udp_answers \<Rightarrow> (string \<times> string \<times> int) turn list \<Rightarrow> net_state net_outcome" where
  "udp_main opts a turns = (case udp_options opts receiver_defaults [] of
     (Exit k, err) \<Rightarrow> Returns k (net_start (- 1) err)
   | (Run c, err) \<Rightarrow> udp_run c a turns err)"

section \<open>The TCP receiver\<close>

text \<open>The inner loop: the messages of one client. An empty answer is the end of its stream.\<close>

fun tcp_client :: "int \<Rightarrow> string \<Rightarrow> int \<Rightarrow> string turn list \<Rightarrow> net_state \<Rightarrow> net_state loop" where
  "tcp_client n ip port [] st = (if ns_running st then Loop_Waits st else Loop_Exit st)"
| "tcp_client n ip port ((before, answer, after) # turns) st =
     (if \<not> ns_running st then Loop_Exit st
      else let st = signal_if before st in
        case answer of
          Interrupted \<Rightarrow> tcp_client n ip port turns (signal_handler st)
        | Failed e \<Rightarrow> Loop_Exit (net_log_errno LEVEL_E tcp_TAG ''recv() failed'' e st)
        | Answered d \<Rightarrow>
            if d = [] then Loop_Exit (net_log LEVEL_I tcp_TAG
              (''[TCP] Client disconnected: '' @ ip @ '':'' @ show_int port) (signal_if after st))
            else (case tcp_message d ip port st of
               None \<Rightarrow> Loop_Undefined
             | Some st \<Rightarrow>
                 let st = count_repetition (signal_if after st) in
                 if ns_repetitions st = 0 then Loop_Exit (st\<lparr>ns_running := False\<rparr>)
                 else tcp_client n ip port turns st))"

text \<open>The outer loop: each client comes with the answers of its \<open>recv\<close> calls.\<close>

type_synonym tcp_connection = "bool \<times> (int \<times> string \<times> int) answer \<times> string turn list"

fun tcp_loop :: "int \<Rightarrow> tcp_connection list \<Rightarrow> net_state \<Rightarrow> net_state loop" where
  "tcp_loop n [] st =
     (if ns_running st then Loop_Waits (net_log LEVEL_D tcp_TAG ''[TCP] Waiting for connection...'' st) else Loop_Exit st)"
| "tcp_loop n ((before, answer, turns) # conns) st =
     (if \<not> ns_running st then Loop_Exit st
      else let st = signal_if before (net_log LEVEL_D tcp_TAG ''[TCP] Waiting for connection...'' st) in
        case answer of
          Interrupted \<Rightarrow> tcp_loop n conns (signal_handler st)
        | Failed e \<Rightarrow> Loop_Exit (net_log_errno LEVEL_E tcp_TAG ''accept() failed'' e st)
        | Answered (fd, ip, port) \<Rightarrow>
            let st = net_log LEVEL_I tcp_TAG (''[TCP] Client connected: '' @ ip @ '':'' @ show_int port) (net_open fd st) in
            (case tcp_client n ip port turns st of
               Loop_Exit st \<Rightarrow> tcp_loop n conns (net_close fd st)
             | l \<Rightarrow> l))"

record tcp_answers =
  ta_socket :: "int + string"
  ta_bind :: "string option"
  ta_listen :: "string option"
  ta_malloc :: bool

definition tcp_finish :: "int \<Rightarrow> net_state \<Rightarrow> net_state" where
  "tcp_finish fd st =
     (let st = (if \<not> ns_running st
        then net_log LEVEL_D tcp_TAG ''Received shutdown signal, exiting gracefully'' st else st) in
      free_rx_buf (net_close fd st))"

definition tcp_run :: "receiver_config \<Rightarrow> tcp_answers \<Rightarrow> tcp_connection list \<Rightarrow> string list \<Rightarrow> net_state net_outcome" where
  "tcp_run c a conns err =
     (let st = net_start (rc_repetitions c) err in
      case ta_socket a of
        Inr e \<Rightarrow> Returns 1 (net_log_errno LEVEL_E tcp_TAG ''Failed to create socket'' e st)
      | Inl fd \<Rightarrow>
          let st = net_log LEVEL_D tcp_TAG ''[TCP] Created listen socket'' (net_open fd st) in
          (case ta_bind a of
             Some e \<Rightarrow> Returns 1 (net_close fd
               (net_log_errno LEVEL_E tcp_TAG (''Could not bind socket to port '' @ show_int (rc_port c)) e st))
           | None \<Rightarrow>
               let st = net_log LEVEL_D tcp_TAG ''[TCP] Bound socket to port'' st in
               (case ta_listen a of
                  Some e \<Rightarrow> Returns 1 (net_close fd (net_log_errno LEVEL_E tcp_TAG ''listen() failed'' e st))
                | None \<Rightarrow>
                    let st = net_log LEVEL_I tcp_TAG (proto_listening ''[TCP] '' (rc_port c)) st in
                    if \<not> ta_malloc a then Returns 1 (net_close fd
                      (net_log LEVEL_E tcp_TAG (''Failed to allocate receive buffer of size: '' @ show_int (rc_buffer_size c)) st))
                    else (case tcp_loop (rc_buffer_size c) conns (malloc_rx_buf (rc_buffer_size c) st) of
                        Loop_Undefined \<Rightarrow> Net_Undefined
                      | Loop_Waits st \<Rightarrow> Waits st
                      | Loop_Return k st \<Rightarrow> Returns k st
                      | Loop_Exit st \<Rightarrow> Returns 0 (tcp_finish fd st)))))"

definition tcp_main :: "getopt_answer list \<Rightarrow> tcp_answers \<Rightarrow> tcp_connection list \<Rightarrow> net_state net_outcome" where
  "tcp_main opts a conns = (case tcp_options opts receiver_defaults [] of
     (Exit k, err) \<Rightarrow> Returns k (net_start (- 1) err)
   | (Run c, err) \<Rightarrow> tcp_run c a conns err)"

section \<open>Messages\<close>

text \<open>What the loop over the line ends is for: the text without the line ends at its end.\<close>

definition without_line_ends :: "string \<Rightarrow> string" where
  "without_line_ends d = rev (dropWhile (\<lambda>c. c = CHR 0x0A \<or> c = CHR 0x0D) (rev d))"

lemma without_line_ends_snoc:
  "without_line_ends (d @ [c]) = (if c = CHR 0x0A \<or> c = CHR 0x0D then without_line_ends d else d @ [c])"
  by (simp add: without_line_ends_def)

lemma length_without_line_ends: "length (without_line_ends d) \<le> length d"
  unfolding without_line_ends_def by (metis length_dropWhile_le length_rev)

lemma strip_trailing_text:
  "\<exists>b'. strip_trailing (length d) (map Some d @ Some (CHR 0x00) # b) =
     (length (without_line_ends d), map Some (without_line_ends d) @ Some (CHR 0x00) # b') \<and>
     length (map Some (without_line_ends d) @ Some (CHR 0x00) # b') = length d + 1 + length b"
proof (induction d arbitrary: b rule: rev_induct)
  case Nil
  then show ?case by (simp add: without_line_ends_def)
next
  case (snoc c d)
  show ?case
  proof (cases "c = CHR 0x0A \<or> c = CHR 0x0D")
    case True
    then show ?thesis
      using snoc.IH [of "Some (CHR 0x00) # b"]
      by (auto simp: without_line_ends_snoc nth_append list_update_append)
  next
    case False
    then show ?thesis by (auto simp: without_line_ends_snoc nth_append)
  qed
qed

definition shown :: "string \<Rightarrow> string" where
  "shown d = takeWhile (\<lambda>c. c \<noteq> CHR 0x00) (without_line_ends d)"

definition udp_log :: "string \<times> string \<times> int \<Rightarrow> string list \<Rightarrow> string list" where
  "udp_log m = (case m of (d, ip, port) \<Rightarrow>
     LOG LEVEL_I udp_TAG (received_line ''[UDP] '' (length (without_line_ends d)) ip port (shown d)))"

definition tcp_log :: "string \<Rightarrow> int \<Rightarrow> string \<Rightarrow> string list \<Rightarrow> string list" where
  "tcp_log ip port d =
     LOG LEVEL_I tcp_TAG (received_line ''[TCP] '' (length (without_line_ends d)) ip port (shown d))"

lemma stored_text:
  assumes "length d < length b"
  obtains b1 b2 b' where "write_bytes 0 d b = Some b1" "write_bytes (length d) [CHR 0x00] b1 = Some b2"
    "strip_trailing (length d) b2 = (length (without_line_ends d), b')" "length b' = length b"
    "c_string b' = Some (shown d)"
proof -
  have w: "write_bytes 0 d b = Some (map Some d @ drop (length d) b)"
    using assms by (simp add: write_bytes_def)
  have w2: "write_bytes (length d) [CHR 0x00] (map Some d @ drop (length d) b) =
      Some (map Some d @ Some (CHR 0x00) # drop (length d + 1) b)"
    using assms by (simp add: write_bytes_def)
  obtain b' where s: "strip_trailing (length d) (map Some d @ Some (CHR 0x00) # drop (length d + 1) b) =
      (length (without_line_ends d), map Some (without_line_ends d) @ Some (CHR 0x00) # b')"
    and l: "length (map Some (without_line_ends d) @ Some (CHR 0x00) # b') = length d + 1 + length (drop (length d + 1) b)"
    using strip_trailing_text by blast
  show ?thesis
  proof (rule that [OF w w2 s])
    show "length (map Some (without_line_ends d) @ Some (CHR 0x00) # b') = length b" using l assms by simp
    show "c_string (map Some (without_line_ends d) @ Some (CHR 0x00) # b') = Some (shown d)"
      by (simp add: c_string_prefix shown_def)
  qed
qed

lemma udp_message_short:
  assumes "ns_buffer st = Some b" "length b = nat n" "int (length d) < n"
  shows "\<exists>b'. length b' = nat n \<and> udp_message n d ip port st =
    Some (st\<lparr>ns_buffer := Some b', ns_err := udp_log (d, ip, port) (ns_err st)\<rparr>)"
proof -
  have "length d < length b" using assms(2,3) by simp
  then show ?thesis
    by (rule stored_text) (use assms in \<open>auto simp add: udp_message_def udp_log_def net_log_def Let_def\<close>)
qed

lemma udp_message_long:
  assumes "ns_buffer st = Some b" "length b = nat n" "n \<le> int (length d)"
  shows "udp_message n d ip port st = None"
proof -
  have "write_bytes (length d) [CHR 0x00] b1 = None" if "write_bytes 0 (take (nat (n - 1)) d) b = Some b1" for b1
    using that assms by (auto simp: write_bytes_def split: if_splits)
  then show ?thesis
    by (cases "write_bytes 0 (take (nat (n - 1)) d) b") (simp_all add: udp_message_def assms(1) Let_def)
qed

lemma tcp_message_short:
  assumes "ns_buffer st = Some b" "length d < length b"
  shows "\<exists>b'. length b' = length b \<and> tcp_message d ip port st =
    Some (st\<lparr>ns_buffer := Some b', ns_err := tcp_log ip port d (ns_err st)\<rparr>)"
  using assms(2) by (rule stored_text) (use assms in \<open>auto simp add: tcp_message_def tcp_log_def net_log_def\<close>)

text \<open>
  C9: a datagram of the UDP receiver, when its buffer has the size of the settings, is undefined behaviour
  exactly when the datagram does not fit beside the final NUL, which is when the warning about truncation is
  written: the byte after the datagram's own length is stored outside of the buffer. A datagram that fits is
  logged once, without the line ends at its end, up to its first NUL, with its length and the peer, and only
  the contents of the buffer change.
\<close>

theorem udp_message_result:
  assumes "ns_buffer st = Some b" "length b = nat n" "1 \<le> n"
  shows "(udp_message n d ip port st = None \<longleftrightarrow> n - 1 < int (length d)) \<and>
    (int (length d) \<le> n - 1 \<longrightarrow> (\<exists>b'. length b' = length b \<and> udp_message n d ip port st =
       Some (st\<lparr>ns_buffer := Some b', ns_err := LOG LEVEL_I udp_TAG (received_line ''[UDP] '' (length (without_line_ends d))
         ip port (takeWhile (\<lambda>c. c \<noteq> CHR 0x00) (without_line_ends d))) (ns_err st)\<rparr>)))"
proof (cases "int (length d) < n")
  case True
  then show ?thesis
    using udp_message_short [OF assms(1,2) True, of ip port] assms(2) by (auto simp: udp_log_def shown_def)
next
  case False
  then show ?thesis
    using udp_message_long [OF assms(1,2), of d ip port] by simp
qed

theorem udp_message_result_witness:
  "udp_message 4 ''abcd'' ''10.0.0.1'' 9 (malloc_rx_buf 4 (net_start 1 [])) = None \<and>
   map_option ns_err (udp_message 4 [CHR ''a'', CHR 0x0D, CHR 0x0A] ''10.0.0.1'' 9 (malloc_rx_buf 4 (net_start 1 []))) =
     Some (LOG LEVEL_I udp_TAG ''[UDP] Received 1 bytes from 10.0.0.1:9 -- Message: a'' [])"
proof -
  let ?st = "malloc_rx_buf 4 (net_start 1 [])"
  have b: "ns_buffer ?st = Some (replicate 4 None)" "length (replicate 4 (None :: char option)) = nat 4"
    by (simp_all add: malloc_rx_buf_def)
  have e: "ns_err ?st = []" by (simp add: malloc_rx_buf_def net_start_def)
  have "received_line ''[UDP] '' 1 ''10.0.0.1'' 9 ''a'' = ''[UDP] Received 1 bytes from 10.0.0.1:9 -- Message: a''"
    by code_simp
  moreover have "without_line_ends [CHR ''a'', CHR 0x0D, CHR 0x0A] = ''a''" by code_simp
  ultimately show ?thesis
    using udp_message_result [OF b, of "''abcd''" "''10.0.0.1''" 9]
      udp_message_result [OF b, of "[CHR ''a'', CHR 0x0D, CHR 0x0A]" "''10.0.0.1''" 9] e by auto
qed

section \<open>The UDP receiver keeps its resources\<close>

definition rx_ok :: "int \<Rightarrow> int list \<Rightarrow> net_state \<Rightarrow> bool" where
  "rx_ok n fds st \<longleftrightarrow> ns_sockets st = fds \<and> (\<exists>b. ns_buffer st = Some b \<and> length b = nat n)"

lemma rx_ok_simps [simp]:
  "rx_ok n fds (signal_handler st) = rx_ok n fds st"
  "rx_ok n fds (signal_if sig st) = rx_ok n fds st"
  "rx_ok n fds (count_repetition st) = rx_ok n fds st"
  "rx_ok n fds (net_log level tag msg st) = rx_ok n fds st"
  "rx_ok n fds (net_log_errno level tag msg e st) = rx_ok n fds st"
  "rx_ok n fds (st\<lparr>ns_err := err\<rparr>) = rx_ok n fds st"
  "rx_ok n fds (st\<lparr>ns_running := b\<rparr>) = rx_ok n fds st"
  by (simp_all add: rx_ok_def signal_handler_def signal_if_def count_repetition_def net_log_def net_log_errno_def)

definition released :: "net_state \<Rightarrow> bool" where
  "released st \<longleftrightarrow> ns_sockets st = [] \<and> ns_buffer st = None"

lemma released_end: "rx_ok n [fd] st \<Longrightarrow> released (net_close fd (free_rx_buf st))"
  "rx_ok n [fd] st \<Longrightarrow> released (free_rx_buf (net_close fd st))"
  by (simp_all add: released_def rx_ok_def net_close_def free_rx_buf_def)

lemma rx_ok_message:
  assumes "rx_ok n fds st" "int (length d) < n"
  shows "\<exists>b'. udp_message n d ip port st =
    Some (st\<lparr>ns_buffer := Some b', ns_err := udp_log (d, ip, port) (ns_err st)\<rparr>) \<and> length b' = nat n"
  using assms udp_message_short unfolding rx_ok_def by blast

definition datagrams_fit :: "int \<Rightarrow> (string \<times> string \<times> int) turn list \<Rightarrow> bool" where
  "datagrams_fit n turns \<longleftrightarrow> list_all (\<lambda>(before, answer, after). case answer of
     Answered (d, ip, port) \<Rightarrow> int (length d) < n | _ \<Rightarrow> True) turns"

lemma udp_loop_safe:
  assumes "rx_ok n [fd] st" "datagrams_fit n turns"
  shows "case udp_loop n fd turns st of
      Loop_Undefined \<Rightarrow> False
    | Loop_Waits st' \<Rightarrow> rx_ok n [fd] st' \<and> ns_running st'
    | Loop_Exit st' \<Rightarrow> rx_ok n [fd] st'
    | Loop_Return k st' \<Rightarrow> k = 1 \<and> released st'"
  using assms
proof (induction turns arbitrary: st)
  case Nil
  then show ?case by simp
next
  case (Cons t turns)
  obtain before answer after where t: "t = (before, answer, after)" by (cases t)
  have fit: "datagrams_fit n turns" using Cons.prems(2) by (simp add: datagrams_fit_def)
  let ?st = "signal_if before st"
  have ok: "rx_ok n [fd] ?st" using Cons.prems(1) by simp
  show ?case
  proof (cases "ns_running st")
    case False
    then show ?thesis using Cons.prems(1) t by simp
  next
    case running: True
    show ?thesis
    proof (cases answer)
      case Interrupted
      then show ?thesis using running t Cons.IH [OF _ fit, of "signal_handler ?st"] ok by (simp add: Let_def)
    next
      case (Failed e)
      then show ?thesis using running t ok released_end(1) [of n fd "net_log_errno LEVEL_E udp_TAG _ e ?st"]
        by (simp add: Let_def)
    next
      case (Answered m)
      obtain d ip port where m: "m = (d, ip, port)" by (cases m)
      have "int (length d) < n" using Cons.prems(2) t Answered m by (simp add: datagrams_fit_def)
      from rx_ok_message [OF ok this] obtain b' where
        b': "udp_message n d ip port ?st = Some (?st\<lparr>ns_buffer := Some b', ns_err := udp_log (d, ip, port) (ns_err ?st)\<rparr>)"
          (is "_ = Some ?st'") "length b' = nat n" by blast
      have "rx_ok n [fd] ?st'" using ok b'(2) by (simp add: rx_ok_def)
      then show ?thesis
        using running t Answered m b'(1) Cons.IH [OF _ fit, of "count_repetition (signal_if after ?st')"]
        by (simp add: Let_def)
    qed
  qed
qed

lemma udp_options_no_err: "fst (udp_options opts receiver_defaults err) = Run c \<Longrightarrow>
  \<exists>err'. udp_options opts receiver_defaults err = (Run c, err')"
  by (metis prod.collapse)

lemma released_finish: "rx_ok n [fd] st \<Longrightarrow> released (udp_finish fd st)" "rx_ok n [fd] st \<Longrightarrow> released (tcp_finish fd st)"
  by (simp_all add: udp_finish_def tcp_finish_def released_end Let_def)

text \<open>The state when the loop starts, and the run from there.\<close>

definition udp_ready :: "receiver_config \<Rightarrow> int \<Rightarrow> string list \<Rightarrow> net_state" where
  "udp_ready c fd err = malloc_rx_buf (rc_buffer_size c) (net_log LEVEL_I udp_TAG (proto_listening ''[UDP] '' (rc_port c))
     (net_log LEVEL_D udp_TAG ''[UDP] Bound socket to port''
       (net_log LEVEL_D udp_TAG ''[UDP] Created rx socket'' (net_open fd (net_start (rc_repetitions c) err)))))"

lemma udp_ready_ok: "rx_ok (rc_buffer_size c) [fd] (udp_ready c fd err)"
  by (simp add: udp_ready_def rx_ok_def malloc_rx_buf_def net_log_def net_open_def net_start_def)

lemma udp_main_ready:
  assumes "udp_options opts receiver_defaults [] = (Run c, err)"
    and "ua_socket a = Inl fd" "ua_bind a = None" "ua_malloc a"
  shows "udp_main opts a turns = (case udp_loop (rc_buffer_size c) fd turns (udp_ready c fd err) of
      Loop_Undefined \<Rightarrow> Net_Undefined
    | Loop_Waits st \<Rightarrow> Waits st
    | Loop_Return k st \<Rightarrow> Returns k st
    | Loop_Exit st \<Rightarrow> Returns 0 (udp_finish fd st))"
  using assms by (simp add: udp_main_def udp_run_def udp_ready_def Let_def)



section \<open>How many datagrams the UDP receiver takes\<close>

definition plain :: "'a list \<Rightarrow> 'a turn list" where
  "plain ds = map (\<lambda>d. (False, Answered d, False)) ds"

lemma plain_simps [simp]:
  "plain [] = []" "plain (d # ds) = (False, Answered d, False) # plain ds" "plain (ds @ es) = plain ds @ plain es"
  by (simp_all add: plain_def)

lemma signal_if_False [simp]: "signal_if False st = st"
  by (simp add: signal_if_def)

definition fits :: "int \<Rightarrow> string \<times> string \<times> int \<Rightarrow> bool" where
  "fits n m \<longleftrightarrow> int (length (fst m)) < n"

text \<open>The repetitions that are left after \<open>k\<close> messages.\<close>

definition repetitions_left :: "int \<Rightarrow> nat \<Rightarrow> int" where
  "repetitions_left r k = (if r \<le> 0 then r else r - int k)"

text \<open>The messages a receiver takes before it stops: \<open>-r 0\<close> counts as \<open>-r 1\<close>.\<close>

definition takes :: "int \<Rightarrow> nat" where
  "takes r = nat (max 1 r)"

text \<open>
  The contract the two loops share: a message that is acceptable is logged once and counted, and the loop ends
  when no repetition is left. \<open>finish\<close> is what the loop does to its state as it ends so.
\<close>

locale message_loop =
  fixes loop :: "'m turn list \<Rightarrow> net_state \<Rightarrow> net_state loop"
    and log_message :: "'m \<Rightarrow> string list \<Rightarrow> string list"
    and accepts :: "'m \<Rightarrow> bool"
    and n :: int and fds :: "int list"
    and finish :: "net_state \<Rightarrow> net_state"
  assumes message: "rx_ok n fds st \<Longrightarrow> ns_running st \<Longrightarrow> accepts m \<Longrightarrow>
    \<exists>b'. length b' = nat n \<and> loop ((False, Answered m, False) # turns) st =
      (let st' = count_repetition (st\<lparr>ns_buffer := Some b', ns_err := log_message m (ns_err st)\<rparr>) in
       if ns_repetitions st' = 0 then Loop_Exit (finish st') else loop turns st')"
begin

lemma messages_go_on:
  assumes "rx_ok n fds st" "ns_running st" "list_all accepts ds"
    and "ns_repetitions st < 0 \<or> length ds < takes (ns_repetitions st)"
  shows "\<exists>b'. length b' = nat n \<and> loop (plain ds @ turns) st = loop turns
    (st\<lparr>ns_repetitions := repetitions_left (ns_repetitions st) (length ds), ns_buffer := Some b',
        ns_err := fold log_message ds (ns_err st)\<rparr>)"
  using assms
proof (induction ds arbitrary: st)
  case Nil
  then obtain b where "ns_buffer st = Some b" "length b = nat n" by (auto simp: rx_ok_def)
  then have "st\<lparr>ns_repetitions := repetitions_left (ns_repetitions st) 0, ns_buffer := Some b\<rparr> = st"
    by (simp add: repetitions_left_def)
  then show ?case using \<open>length b = nat n\<close> by (intro exI [of _ b]) simp
next
  case (Cons m ds)
  have "accepts m" using Cons.prems(3) by simp
  from message [OF Cons.prems(1,2) this, of "plain ds @ turns"] obtain b where
    b: "length b = nat n" "loop ((False, Answered m, False) # plain ds @ turns) st =
      (let st' = count_repetition (st\<lparr>ns_buffer := Some b, ns_err := log_message m (ns_err st)\<rparr>) in
       if ns_repetitions st' = 0 then Loop_Exit (finish st') else loop (plain ds @ turns) st')" by blast
  let ?next = "count_repetition (st\<lparr>ns_buffer := Some b, ns_err := log_message m (ns_err st)\<rparr>)"
  have r: "ns_repetitions st < 0 \<or> 1 < ns_repetitions st \<and> int (length ds) < ns_repetitions st - 1"
    using Cons.prems(4) by (auto simp: takes_def max_def split: if_splits)
  then have rep: "ns_repetitions ?next = (if ns_repetitions st < 0 then ns_repetitions st else ns_repetitions st - 1)"
    by (auto simp: count_repetition_def)
  have "rx_ok n fds ?next" "ns_running ?next"
    using Cons.prems(1,2) b(1) by (simp_all add: rx_ok_def count_repetition_def)
  moreover have "ns_repetitions ?next < 0 \<or> length ds < takes (ns_repetitions ?next)"
    using r rep by (auto simp: takes_def)
  ultimately obtain b' where b': "length b' = nat n" "loop (plain ds @ turns) ?next = loop turns
      (?next\<lparr>ns_repetitions := repetitions_left (ns_repetitions ?next) (length ds), ns_buffer := Some b',
         ns_err := fold log_message ds (ns_err ?next)\<rparr>)"
    using Cons.IH [of ?next] Cons.prems(3) by auto
  have "ns_repetitions ?next \<noteq> 0" using r rep by auto
  then have "loop (plain (m # ds) @ turns) st = loop (plain ds @ turns) ?next"
    using b(2) by (simp add: Let_def)
  moreover have "repetitions_left (ns_repetitions ?next) (length ds) = repetitions_left (ns_repetitions st) (length (m # ds))"
    using r rep by (auto simp: repetitions_left_def)
  moreover have "?next\<lparr>ns_repetitions := r', ns_buffer := Some b', ns_err := fold log_message ds (ns_err ?next)\<rparr> =
      st\<lparr>ns_repetitions := r', ns_buffer := Some b', ns_err := fold log_message (m # ds) (ns_err st)\<rparr>" for r'
    by (simp add: count_repetition_def)
  ultimately show ?case using b' by auto
qed

lemma messages_end:
  assumes "rx_ok n fds st" "ns_running st" "list_all accepts ds" "0 \<le> ns_repetitions st"
    and "length ds = takes (ns_repetitions st)"
  shows "\<exists>b'. length b' = nat n \<and> loop (plain ds @ turns) st = Loop_Exit
    (finish (st\<lparr>ns_repetitions := 0, ns_buffer := Some b', ns_err := fold log_message ds (ns_err st)\<rparr>))"
proof -
  have "ds \<noteq> []" using assms(5) by (auto simp: takes_def)
  then obtain es m where ds: "ds = es @ [m]" by (metis append_butlast_last_id)
  obtain b where b: "length b = nat n" "loop (plain es @ plain [m] @ turns) st = loop (plain [m] @ turns)
      (st\<lparr>ns_repetitions := repetitions_left (ns_repetitions st) (length es), ns_buffer := Some b,
        ns_err := fold log_message es (ns_err st)\<rparr>)" (is "_ = loop _ ?st")
    using messages_go_on [OF assms(1,2), of es "plain [m] @ turns"] assms(3,5) ds by auto
  have "rx_ok n fds ?st" "ns_running ?st" "accepts m" using b(1) assms(1-3) ds by (simp_all add: rx_ok_def)
  from message [OF this, of turns] obtain b' where
    b': "length b' = nat n" "loop ((False, Answered m, False) # turns) ?st =
      (let st' = count_repetition (?st\<lparr>ns_buffer := Some b', ns_err := log_message m (ns_err ?st)\<rparr>) in
       if ns_repetitions st' = 0 then Loop_Exit (finish st') else loop turns st')" by blast
  have "repetitions_left (ns_repetitions st) (length es) \<in> {0, 1}"
    using assms(4,5) ds by (auto simp: repetitions_left_def takes_def)
  then have "count_repetition (?st\<lparr>ns_buffer := Some b', ns_err := log_message m (ns_err ?st)\<rparr>) =
      st\<lparr>ns_repetitions := 0, ns_buffer := Some b', ns_err := fold log_message ds (ns_err st)\<rparr>"
    by (auto simp: count_repetition_def ds)
  with b b' ds show ?thesis by (auto simp: Let_def)
qed

end

interpretation udp: message_loop "udp_loop n fd" udp_log "fits n" n "[fd]" "\<lambda>st. st" for n fd
proof
  fix st m and turns :: "(string \<times> string \<times> int) turn list"
  assume a: "rx_ok n [fd] st" "ns_running st" "fits n m"
  obtain d ip port where m: "m = (d, ip, port)" by (cases m)
  have "int (length d) < n" using a(3) m by (simp add: fits_def)
  from rx_ok_message [OF a(1) this, of ip port] obtain b' where
    "udp_message n d ip port st = Some (st\<lparr>ns_buffer := Some b', ns_err := udp_log (d, ip, port) (ns_err st)\<rparr>)"
    "length b' = nat n" by blast
  then show "\<exists>b'. length b' = nat n \<and> udp_loop n fd ((False, Answered m, False) # turns) st =
      (let st' = count_repetition (st\<lparr>ns_buffer := Some b', ns_err := udp_log m (ns_err st)\<rparr>) in
       if ns_repetitions st' = 0 then Loop_Exit st' else udp_loop n fd turns st')"
    using a(2) m by (intro exI [of _ b']) (simp add: Let_def)
qed

lemma udp_ready_simps [simp]:
  "ns_running (udp_ready c fd err)" "ns_repetitions (udp_ready c fd err) = rc_repetitions c"
  by (simp_all add: udp_ready_def malloc_rx_buf_def net_log_def net_open_def net_start_def)

text \<open>
  C28: with \<open>-r\<close> a number that is not negative, the UDP receiver takes exactly that many datagrams, and one when
  the number is 0; it logs each of them once and in order, and then ends with 0, reading no more. With fewer
  datagrams, or without a limit, it logs all of them and waits; and then a datagram that does not fit into the
  buffer is undefined behaviour.
\<close>

theorem udp_main_takes:
  assumes "udp_options opts receiver_defaults [] = (Run c, err)"
    and "ua_socket a = Inl fd" "ua_bind a = None" "ua_malloc a"
    and fit: "list_all (\<lambda>(d, ip, port). int (length d) < rc_buffer_size c) ds"
  shows "\<exists>st0. udp_main opts a [] = Waits st0 \<and>
    (if 0 \<le> rc_repetitions c \<and> max 1 (rc_repetitions c) \<le> int (length ds)
     then \<exists>st. udp_main opts a (map (\<lambda>m. (False, Answered m, False)) ds) = Returns 0 st \<and>
       ns_err st = fold udp_log (take (nat (max 1 (rc_repetitions c))) ds) (ns_err st0)
     else (\<exists>st. udp_main opts a (map (\<lambda>m. (False, Answered m, False)) ds) = Waits st \<and>
         ns_err st = fold udp_log ds (ns_err st0)) \<and>
       (\<forall>d ip port. rc_buffer_size c \<le> int (length d) \<longrightarrow>
         udp_main opts a (map (\<lambda>m. (False, Answered m, False)) (ds @ [(d, ip, port)])) = Net_Undefined))"
proof (intro exI conjI)
  note ready = udp_main_ready [OF assms(1-4)]
  let ?n = "rc_buffer_size c" and ?st0 = "udp_ready c fd err" and ?r = "rc_repetitions c"
  show "udp_main opts a [] = Waits ?st0" by (simp add: ready)
  have fits: "list_all (fits ?n) ds" using fit by (auto simp: list_all_iff fits_def)
  show "if 0 \<le> ?r \<and> max 1 ?r \<le> int (length ds)
     then \<exists>st. udp_main opts a (map (\<lambda>m. (False, Answered m, False)) ds) = Returns 0 st \<and>
       ns_err st = fold udp_log (take (nat (max 1 ?r)) ds) (ns_err ?st0)
     else (\<exists>st. udp_main opts a (map (\<lambda>m. (False, Answered m, False)) ds) = Waits st \<and>
         ns_err st = fold udp_log ds (ns_err ?st0)) \<and>
       (\<forall>d ip port. ?n \<le> int (length d) \<longrightarrow>
         udp_main opts a (map (\<lambda>m. (False, Answered m, False)) (ds @ [(d, ip, port)])) = Net_Undefined)"
  proof (cases "0 \<le> ?r \<and> max 1 ?r \<le> int (length ds)")
    case True
    let ?es = "take (takes ?r) ds"
    have "length ?es = takes ?r" "list_all (fits ?n) ?es"
      using True fits by (auto simp: takes_def list_all_iff dest: in_set_takeD)
    then obtain b' where "udp_loop ?n fd (plain ?es @ plain (drop (takes ?r) ds)) ?st0 =
        Loop_Exit (?st0\<lparr>ns_repetitions := 0, ns_buffer := Some b', ns_err := fold udp_log ?es (ns_err ?st0)\<rparr>)"
      using udp.messages_end [OF udp_ready_ok, of c fd err ?es "plain (drop (takes ?r) ds)"] True by auto
    then have "udp_loop ?n fd (plain ds) ?st0 =
        Loop_Exit (?st0\<lparr>ns_repetitions := 0, ns_buffer := Some b', ns_err := fold udp_log ?es (ns_err ?st0)\<rparr>)"
      by (simp flip: plain_simps(3))
    with True show ?thesis
      unfolding ready plain_def [symmetric]
      by (simp add: udp_finish_def net_close_def free_rx_buf_def takes_def)
  next
    case False
    then have few: "ns_repetitions ?st0 < 0 \<or> length ds < takes (ns_repetitions ?st0)"
      by (auto simp: takes_def)
    have long: "udp_main opts a (plain (ds @ [(d, ip, port)])) = Net_Undefined" if "?n \<le> int (length d)" for d ip port
    proof -
      from udp.messages_go_on [OF udp_ready_ok udp_ready_simps(1) fits few, of "plain [(d, ip, port)]"]
      obtain b' where "length b' = nat ?n" "udp_loop ?n fd (plain (ds @ [(d, ip, port)])) ?st0 =
          udp_loop ?n fd (plain [(d, ip, port)]) (?st0\<lparr>ns_repetitions := repetitions_left ?r (length ds),
            ns_buffer := Some b', ns_err := fold udp_log ds (ns_err ?st0)\<rparr>)" by auto
      then show ?thesis using that by (simp add: ready udp_message_long)
    qed
    from udp.messages_go_on [OF udp_ready_ok udp_ready_simps(1) fits few, of "[]"]
    have "\<exists>st. udp_main opts a (plain ds) = Waits st \<and> ns_err st = fold udp_log ds (ns_err ?st0)"
      by (auto simp: ready)
    with long False show ?thesis unfolding plain_def [symmetric] by auto
  qed
qed

theorem udp_main_takes_witness:
  "\<exists>st0 st. udp_main [(CHR ''r'', ''2'', CHR ''x'')] \<lparr>ua_socket = Inl 3, ua_bind = None, ua_malloc = True\<rparr> [] = Waits st0 \<and>
     udp_main [(CHR ''r'', ''2'', CHR ''x'')] \<lparr>ua_socket = Inl 3, ua_bind = None, ua_malloc = True\<rparr>
       (map (\<lambda>m. (False, Answered m, False)) [(''a'', ''10.0.0.1'', 9), (''b'', ''10.0.0.1'', 9), (''c'', ''10.0.0.1'', 9)]) =
       Returns 0 st \<and>
     ns_err st = fold udp_log [(''a'', ''10.0.0.1'', 9), (''b'', ''10.0.0.1'', 9)] (ns_err st0)"
proof -
  let ?c = "receiver_defaults\<lparr>rc_repetitions := 2\<rparr>"
  have r: "udp_parse_repetitions ''2'' = 2" by code_simp
  obtain err where o: "udp_options [(CHR ''r'', ''2'', CHR ''x'')] receiver_defaults [] = (Run ?c, err)"
    by (simp add: r Let_def)
  show ?thesis
    using udp_main_takes [OF o, of "\<lparr>ua_socket = Inl 3, ua_bind = None, ua_malloc = True\<rparr>" 3
      "[(''a'', ''10.0.0.1'', 9), (''b'', ''10.0.0.1'', 9), (''c'', ''10.0.0.1'', 9)]"]
    by (simp add: receiver_defaults_def numeral_2_eq_2)
qed

section \<open>The TCP receiver keeps its resources\<close>

text \<open>
  \<open>recv\<close> returns at most as many bytes as it was asked for, \<open>buffer_size - 1\<close>; with \<open>-s 1\<close> that is none, and
  so its answer is always the empty one.
\<close>

definition recv_conforms :: "int \<Rightarrow> string turn list \<Rightarrow> bool" where
  "recv_conforms n turns \<longleftrightarrow> list_all (\<lambda>(before, answer, after). case answer of
     Answered d \<Rightarrow> int (length d) \<le> n - 1 | _ \<Rightarrow> True) turns"

lemma rx_ok_tcp_message:
  assumes "rx_ok n fds st" "int (length d) < n"
  shows "\<exists>b'. tcp_message d ip port st =
    Some (st\<lparr>ns_buffer := Some b', ns_err := tcp_log ip port d (ns_err st)\<rparr>) \<and> length b' = nat n"
proof -
  obtain b where b: "ns_buffer st = Some b" "length b = nat n" using assms(1) by (auto simp: rx_ok_def)
  then have "length d < length b" using assms(2) by simp
  from tcp_message_short [OF b(1) this] b(2) show ?thesis by auto
qed

lemma tcp_client_safe:
  assumes "rx_ok n fds st" "recv_conforms n turns"
  shows "case tcp_client n ip port turns st of
      Loop_Undefined \<Rightarrow> False
    | Loop_Waits st' \<Rightarrow> rx_ok n fds st' \<and> ns_running st'
    | Loop_Exit st' \<Rightarrow> rx_ok n fds st'
    | Loop_Return k st' \<Rightarrow> False"
  using assms
proof (induction turns arbitrary: st)
  case Nil
  then show ?case by simp
next
  case (Cons t turns)
  obtain before answer after where t: "t = (before, answer, after)" by (cases t)
  have conf: "recv_conforms n turns" using Cons.prems(2) by (simp add: recv_conforms_def)
  let ?st = "signal_if before st"
  have ok: "rx_ok n fds ?st" using Cons.prems(1) by simp
  show ?case
  proof (cases "ns_running st")
    case False
    then show ?thesis using Cons.prems(1) t by simp
  next
    case running: True
    show ?thesis
    proof (cases answer)
      case Interrupted
      then show ?thesis using running t Cons.IH [OF _ conf, of "signal_handler ?st"] ok by (simp add: Let_def)
    next
      case (Failed e)
      then show ?thesis using running t ok by (simp add: Let_def)
    next
      case (Answered d)
      show ?thesis
      proof (cases "d = []")
        case True
        then show ?thesis using running t Answered ok by (simp add: Let_def)
      next
        case False
        have "int (length d) < n" using Cons.prems(2) t Answered by (simp add: recv_conforms_def)
        from rx_ok_tcp_message [OF ok this] obtain b' where
          b': "tcp_message d ip port ?st = Some (?st\<lparr>ns_buffer := Some b', ns_err := tcp_log ip port d (ns_err ?st)\<rparr>)"
            (is "_ = Some ?st'") "length b' = nat n" by blast
        have "rx_ok n fds ?st'" using ok b'(2) by (simp add: rx_ok_def)
        then show ?thesis
          using False running t Answered b'(1) Cons.IH [OF _ conf, of "count_repetition (signal_if after ?st')"]
          by (simp add: Let_def)
      qed
    qed
  qed
qed

lemma rx_ok_open_close:
  "rx_ok n fds st \<Longrightarrow> rx_ok n (fd # fds) (net_open fd st)"
  "rx_ok n (fd # fds) st \<Longrightarrow> rx_ok n fds (net_close fd st)"
  by (simp_all add: rx_ok_def net_open_def net_close_def)

definition connections_conform :: "int \<Rightarrow> tcp_connection list \<Rightarrow> bool" where
  "connections_conform n conns \<longleftrightarrow> list_all (\<lambda>(before, answer, turns). recv_conforms n turns) conns"

text \<open>While the receiver waits it holds the listening socket, and at most one socket of a client.\<close>

lemma tcp_loop_safe:
  assumes "rx_ok n fds st" "connections_conform n conns"
  shows "case tcp_loop n conns st of
      Loop_Undefined \<Rightarrow> False
    | Loop_Waits st' \<Rightarrow> ns_running st' \<and> (rx_ok n fds st' \<or> (\<exists>fd. rx_ok n (fd # fds) st'))
    | Loop_Exit st' \<Rightarrow> rx_ok n fds st'
    | Loop_Return k st' \<Rightarrow> False"
  using assms
proof (induction conns arbitrary: st)
  case Nil
  then show ?case by (simp add: net_log_def)
next
  case (Cons conn conns)
  obtain before answer turns where conn: "conn = (before, answer, turns)" by (cases conn)
  have conf: "connections_conform n conns" "recv_conforms n turns"
    using Cons.prems(2) conn by (simp_all add: connections_conform_def)
  let ?st = "signal_if before (net_log LEVEL_D tcp_TAG ''[TCP] Waiting for connection...'' st)"
  have ok: "rx_ok n fds ?st" using Cons.prems(1) by simp
  show ?case
  proof (cases "ns_running st")
    case False
    then show ?thesis using Cons.prems(1) conn by simp
  next
    case running: True
    show ?thesis
    proof (cases answer)
      case Interrupted
      then show ?thesis using running conn Cons.IH [OF _ conf(1), of "signal_handler ?st"] ok by (simp add: Let_def)
    next
      case (Failed e)
      then show ?thesis using running conn ok by (simp add: Let_def)
    next
      case (Answered client)
      obtain fd ip port where client: "client = (fd, ip, port)" by (cases client)
      let ?st' = "net_log LEVEL_I tcp_TAG (''[TCP] Client connected: '' @ ip @ '':'' @ show_int port) (net_open fd ?st)"
      have "rx_ok n (fd # fds) ?st'" using rx_ok_open_close(1) [OF ok, of fd] by simp
      note safe = tcp_client_safe [OF this conf(2), of ip port]
      show ?thesis
      proof (cases "tcp_client n ip port turns ?st'")
        case (Loop_Exit st'')
        with safe have "rx_ok n fds (net_close fd st'')" using rx_ok_open_close(2) [of n fd fds st''] by simp
        then show ?thesis using running conn Answered client Loop_Exit Cons.IH [OF _ conf(1), of "net_close fd st''"]
          by (simp add: Let_def)
      qed (use safe running conn Answered client in \<open>auto simp: Let_def\<close>)
    qed
  qed
qed

definition tcp_ready :: "receiver_config \<Rightarrow> int \<Rightarrow> string list \<Rightarrow> net_state" where
  "tcp_ready c fd err = malloc_rx_buf (rc_buffer_size c) (net_log LEVEL_I tcp_TAG (proto_listening ''[TCP] '' (rc_port c))
     (net_log LEVEL_D tcp_TAG ''[TCP] Bound socket to port''
       (net_log LEVEL_D tcp_TAG ''[TCP] Created listen socket'' (net_open fd (net_start (rc_repetitions c) err)))))"

lemma tcp_ready_ok: "rx_ok (rc_buffer_size c) [fd] (tcp_ready c fd err)"
  by (simp add: tcp_ready_def rx_ok_def malloc_rx_buf_def net_log_def net_open_def net_start_def)

lemma tcp_ready_simps [simp]:
  "ns_running (tcp_ready c fd err)" "ns_repetitions (tcp_ready c fd err) = rc_repetitions c"
  by (simp_all add: tcp_ready_def malloc_rx_buf_def net_log_def net_open_def net_start_def)

lemma tcp_main_ready:
  assumes "tcp_options opts receiver_defaults [] = (Run c, err)"
    and "ta_socket a = Inl fd" "ta_bind a = None" "ta_listen a = None" "ta_malloc a"
  shows "tcp_main opts a conns = (case tcp_loop (rc_buffer_size c) conns (tcp_ready c fd err) of
      Loop_Undefined \<Rightarrow> Net_Undefined
    | Loop_Waits st \<Rightarrow> Waits st
    | Loop_Return k st \<Rightarrow> Returns k st
    | Loop_Exit st \<Rightarrow> Returns 0 (tcp_finish fd st))"
  using assms by (simp add: tcp_main_def tcp_run_def tcp_ready_def Let_def)



section \<open>What the TCP receiver logs\<close>

definition chunk_ok :: "int \<Rightarrow> string \<Rightarrow> bool" where
  "chunk_ok n d \<longleftrightarrow> d \<noteq> [] \<and> int (length d) \<le> n - 1"

interpretation tcp: message_loop "tcp_client n ip port" "tcp_log ip port" "chunk_ok n" n fds
  "\<lambda>st. st\<lparr>ns_running := False\<rparr>" for n ip port fds
proof
  fix st d and turns :: "string turn list"
  assume a: "rx_ok n fds st" "ns_running st" "chunk_ok n d"
  have "int (length d) < n" using a(3) by (simp add: chunk_ok_def)
  from rx_ok_tcp_message [OF a(1) this, of ip port] obtain b' where
    "tcp_message d ip port st = Some (st\<lparr>ns_buffer := Some b', ns_err := tcp_log ip port d (ns_err st)\<rparr>)"
    "length b' = nat n" by blast
  then show "\<exists>b'. length b' = nat n \<and> tcp_client n ip port ((False, Answered d, False) # turns) st =
      (let st' = count_repetition (st\<lparr>ns_buffer := Some b', ns_err := tcp_log ip port d (ns_err st)\<rparr>) in
       if ns_repetitions st' = 0 then Loop_Exit (st'\<lparr>ns_running := False\<rparr>) else tcp_client n ip port turns st')"
    using a(2,3) by (intro exI [of _ b']) (simp add: chunk_ok_def Let_def)
qed

text \<open>A client that connects, sends its messages one \<open>recv\<close> at a time, and closes the connection.\<close>

type_synonym visit = "int \<times> string \<times> int \<times> string list"

fun visit_answers :: "visit \<Rightarrow> tcp_connection" where
  "visit_answers (fd, ip, port, ds) = (False, Answered (fd, ip, port), plain (ds @ [[]]))"

fun visit_start_log :: "visit \<Rightarrow> string list \<Rightarrow> string list" where
  "visit_start_log (fd, ip, port, ds) err = fold (tcp_log ip port) ds
     (LOG LEVEL_I tcp_TAG (''[TCP] Client connected: '' @ ip @ '':'' @ show_int port)
       (LOG LEVEL_D tcp_TAG ''[TCP] Waiting for connection...'' err))"

fun visit_log :: "visit \<Rightarrow> string list \<Rightarrow> string list" where
  "visit_log (fd, ip, port, ds) err =
     LOG LEVEL_I tcp_TAG (''[TCP] Client disconnected: '' @ ip @ '':'' @ show_int port) (visit_start_log (fd, ip, port, ds) err)"

fun visit_messages :: "visit \<Rightarrow> string list" where
  "visit_messages (fd, ip, port, ds) = ds"

lemma repetitions_left_add:
  "r < 0 \<or> a + b < takes r \<Longrightarrow> repetitions_left (repetitions_left r a) b = repetitions_left r (a + b)"
  by (auto simp: repetitions_left_def takes_def)

lemma takes_left: "r < 0 \<or> a < takes r \<Longrightarrow> repetitions_left r a < 0 \<longleftrightarrow> r < 0"
  "0 \<le> r \<Longrightarrow> a < takes r \<Longrightarrow> takes (repetitions_left r a) = takes r - a"
  by (auto simp: repetitions_left_def takes_def)

lemma tcp_loop_visits:
  assumes "rx_ok n fds st" "ns_running st" "list_all (chunk_ok n) (concat (map visit_messages vs))"
    and "ns_repetitions st < 0 \<or> length (concat (map visit_messages vs)) < takes (ns_repetitions st)"
  shows "\<exists>b'. length b' = nat n \<and> tcp_loop n (map visit_answers vs @ conns) st = tcp_loop n conns
    (st\<lparr>ns_repetitions := repetitions_left (ns_repetitions st) (length (concat (map visit_messages vs))),
        ns_buffer := Some b', ns_err := fold visit_log vs (ns_err st)\<rparr>)"
  using assms
proof (induction vs arbitrary: st)
  case Nil
  then obtain b where "ns_buffer st = Some b" "length b = nat n" by (auto simp: rx_ok_def)
  then have "st\<lparr>ns_repetitions := repetitions_left (ns_repetitions st) 0, ns_buffer := Some b\<rparr> = st"
    by (simp add: repetitions_left_def)
  then show ?case using \<open>length b = nat n\<close> by (intro exI [of _ b]) simp
next
  case (Cons v vs)
  obtain fd ip port ds where v: "v = (fd, ip, port, ds)" by (cases v)
  let ?st = "net_log LEVEL_I tcp_TAG (''[TCP] Client connected: '' @ ip @ '':'' @ show_int port)
    (net_open fd (net_log LEVEL_D tcp_TAG ''[TCP] Waiting for connection...'' st))"
  let ?r = "ns_repetitions st" and ?k = "length (concat (map visit_messages vs))"
  have st: "rx_ok n (fd # fds) ?st" "ns_running ?st" "ns_repetitions ?st = ?r"
    using Cons.prems(1,2) by (simp_all add: rx_ok_def net_open_def net_log_def)
  have ds: "list_all (chunk_ok n) ds" "?r < 0 \<or> length ds < takes ?r"
    using Cons.prems(3,4) v by auto
  obtain b where b: "length b = nat n" "tcp_client n ip port (plain ds @ plain [[]]) ?st = tcp_client n ip port (plain [[]])
      (?st\<lparr>ns_repetitions := repetitions_left ?r (length ds), ns_buffer := Some b,
        ns_err := fold (tcp_log ip port) ds (ns_err ?st)\<rparr>)" (is "_ = tcp_client n ip port _ ?st1")
    using tcp.messages_go_on [OF st(1,2) ds(1), of ip port "plain [[]]"] ds(2) unfolding st(3) by blast
  define after where "after = net_close fd (net_log LEVEL_I tcp_TAG (''[TCP] Client disconnected: '' @ ip @ '':'' @ show_int port) ?st1)"
  have n: "after = st\<lparr>ns_repetitions := repetitions_left ?r (length ds), ns_buffer := Some b, ns_err := visit_log v (ns_err st)\<rparr>"
    unfolding after_def by (cases st) (simp add: v net_close_def net_open_def net_log_def)
  have "tcp_loop n (map visit_answers (v # vs) @ conns) st = tcp_loop n (map visit_answers vs @ conns) after"
    using Cons.prems(2) st(2) b(2) by (simp add: v after_def Let_def)
  moreover have "rx_ok n fds after" "ns_running after"
    using Cons.prems(1,2) b(1) by (simp_all add: n rx_ok_def)
  moreover have "ns_repetitions after < 0 \<or> ?k < takes (ns_repetitions after)"
    using Cons.prems(4) takes_left [of ?r "length ds"] by (auto simp: n v)
  ultimately obtain b' where "length b' = nat n" "tcp_loop n (map visit_answers (v # vs) @ conns) st = tcp_loop n conns
      (after\<lparr>ns_repetitions := repetitions_left (ns_repetitions after) ?k, ns_buffer := Some b', ns_err := fold visit_log vs (ns_err after)\<rparr>)"
    using Cons.IH [of after] Cons.prems(3) by auto
  moreover have "repetitions_left (repetitions_left ?r (length ds)) ?k = repetitions_left ?r (length (concat (map visit_messages (v # vs))))"
    using repetitions_left_add [of ?r "length ds" ?k] Cons.prems(4) by (simp add: v)
  ultimately show ?case by (auto simp: n)
qed

text \<open>With the last message the repetitions are used up, and the outer loop ends too.\<close>

lemma tcp_loop_last_visit:
  assumes "rx_ok n fds st" "ns_running st" "list_all (chunk_ok n) ds" "0 \<le> ns_repetitions st"
    and "length ds = takes (ns_repetitions st)"
  shows "\<exists>b'. length b' = nat n \<and> tcp_loop n (visit_answers (fd, ip, port, ds @ es) # conns) st = Loop_Exit
    (st\<lparr>ns_running := False, ns_repetitions := 0, ns_buffer := Some b', ns_err := visit_start_log (fd, ip, port, ds) (ns_err st)\<rparr>)"
proof -
  let ?st = "net_log LEVEL_I tcp_TAG (''[TCP] Client connected: '' @ ip @ '':'' @ show_int port)
    (net_open fd (net_log LEVEL_D tcp_TAG ''[TCP] Waiting for connection...'' st))"
  have st: "rx_ok n (fd # fds) ?st" "ns_running ?st" "ns_repetitions ?st = ns_repetitions st"
    using assms(1,2) by (simp_all add: rx_ok_def net_open_def net_log_def)
  obtain b where b: "length b = nat n" "tcp_client n ip port (plain ds @ plain (es @ [[]])) ?st = Loop_Exit
      (?st\<lparr>ns_repetitions := 0, ns_buffer := Some b, ns_err := fold (tcp_log ip port) ds (ns_err ?st), ns_running := False\<rparr>)"
    (is "_ = Loop_Exit ?st1")
    using tcp.messages_end [OF st(1,2) assms(3), of ip port "plain (es @ [[]])"] assms(4,5) unfolding st(3) by auto
  have n: "net_close fd ?st1 = st\<lparr>ns_running := False, ns_repetitions := 0, ns_buffer := Some b,
      ns_err := visit_start_log (fd, ip, port, ds) (ns_err st)\<rparr>"
    by (cases st) (simp add: net_close_def net_open_def net_log_def)
  have stop: "tcp_loop n conns (net_close fd ?st1) = Loop_Exit (net_close fd ?st1)"
    unfolding n by (cases conns) auto
  have "tcp_loop n (visit_answers (fd, ip, port, ds @ es) # conns) st = tcp_loop n conns (net_close fd ?st1)"
    using assms(2) b(2) by (simp add: Let_def)
  with b(1) n stop show ?thesis by auto
qed

text \<open>
  C14: the TCP receiver serves its clients one after the other and logs every message of each of them, in order;
  without a limit, or below it, it then waits for the next client. With \<open>-r\<close> a number that is not negative it
  stops in the middle of a client's messages, as soon as that many have been logged in all (one for 0), leaves
  the rest unread, and ends with 0.
\<close>

theorem tcp_main_takes:
  assumes "tcp_options opts receiver_defaults [] = (Run c, err)"
    and "ta_socket a = Inl lfd" "ta_bind a = None" "ta_listen a = None" "ta_malloc a"
    and fit: "\<forall>d\<in>set (concat (map visit_messages vs) @ ds). d \<noteq> [] \<and> int (length d) \<le> rc_buffer_size c - 1"
    and few: "rc_repetitions c < 0 \<or> int (length (concat (map visit_messages vs))) < max 1 (rc_repetitions c)"
  shows "\<exists>greeting.
    (\<exists>st. tcp_main opts a (map visit_answers vs) = Waits st \<and>
       ns_err st = LOG LEVEL_D tcp_TAG ''[TCP] Waiting for connection...'' (fold visit_log vs greeting)) \<and>
    (rc_repetitions c \<ge> 0 \<and> int (length (concat (map visit_messages vs) @ ds)) = max 1 (rc_repetitions c) \<longrightarrow>
      (\<exists>st. tcp_main opts a (map visit_answers (vs @ (fd, ip, port, ds @ es) # vs')) = Returns 0 st \<and>
       ns_err st = LOG LEVEL_D tcp_TAG ''Received shutdown signal, exiting gracefully''
         (visit_start_log (fd, ip, port, ds) (fold visit_log vs greeting))))"
proof -
  note ready = tcp_main_ready [OF assms(1-5)]
  let ?n = "rc_buffer_size c" and ?st0 = "tcp_ready c lfd err" and ?r = "rc_repetitions c"
  let ?k = "length (concat (map visit_messages vs))"
  have few': "ns_repetitions ?st0 < 0 \<or> ?k < takes (ns_repetitions ?st0)"
    using few by (auto simp: takes_def)
  have fits: "list_all (chunk_ok ?n) (concat (map visit_messages vs))" "list_all (chunk_ok ?n) ds"
    using fit by (auto simp: list_all_iff chunk_ok_def)
  note visits = tcp_loop_visits [OF tcp_ready_ok tcp_ready_simps(1) fits(1) few']
  have wait: "\<exists>st. tcp_main opts a (map visit_answers vs) = Waits st \<and>
      ns_err st = LOG LEVEL_D tcp_TAG ''[TCP] Waiting for connection...'' (fold visit_log vs (ns_err ?st0))"
    using visits [of "[]"] by (auto simp: ready net_log_def)
  have stop: "\<exists>st. tcp_main opts a (map visit_answers (vs @ (fd, ip, port, ds @ es) # vs')) = Returns 0 st \<and>
     ns_err st = LOG LEVEL_D tcp_TAG ''Received shutdown signal, exiting gracefully''
       (visit_start_log (fd, ip, port, ds) (fold visit_log vs (ns_err ?st0)))"
    if r: "0 \<le> ?r \<and> int (length (concat (map visit_messages vs) @ ds)) = max 1 ?r"
  proof -
    obtain b where b: "length b = nat ?n"
        "tcp_loop ?n (map visit_answers vs @ map visit_answers ((fd, ip, port, ds @ es) # vs')) ?st0 =
         tcp_loop ?n (map visit_answers ((fd, ip, port, ds @ es) # vs'))
          (?st0\<lparr>ns_repetitions := repetitions_left ?r ?k, ns_buffer := Some b, ns_err := fold visit_log vs (ns_err ?st0)\<rparr>)"
      (is "_ = tcp_loop ?n _ ?st1")
      using visits [of "map visit_answers ((fd, ip, port, ds @ es) # vs')"] by auto
    have "rx_ok ?n [lfd] ?st1" "ns_running ?st1" using tcp_ready_ok [of c lfd err] b(1) by (simp_all add: rx_ok_def)
    moreover have k: "?k + length ds = takes ?r" using r by (metis length_append nat_int takes_def)
    moreover have below: "?k < takes ?r" using few' r by simp
    moreover have "0 \<le> ns_repetitions ?st1" using r takes_left(1) [OF disjI2 [OF below]] by simp
    moreover have "length ds = takes (ns_repetitions ?st1)" using r k takes_left(2) [OF _ below] by simp
    ultimately have "\<exists>b'. length b' = nat ?n \<and> tcp_loop ?n (visit_answers (fd, ip, port, ds @ es) # map visit_answers vs') ?st1 =
      Loop_Exit (?st1\<lparr>ns_running := False, ns_repetitions := 0, ns_buffer := Some b',
        ns_err := visit_start_log (fd, ip, port, ds) (ns_err ?st1)\<rparr>)"
      using tcp_loop_last_visit fits(2) by blast
    then show ?thesis
      using b(2) by (auto simp: ready tcp_finish_def net_log_def net_close_def free_rx_buf_def Let_def)
  qed
  show ?thesis by (rule exI [of _ "ns_err ?st0"]) (use wait stop in blast)
qed

theorem tcp_main_takes_witness:
  "\<exists>greeting st. tcp_main [(CHR ''r'', ''3'', CHR ''x'')] \<lparr>ta_socket = Inl 3, ta_bind = None, ta_listen = None, ta_malloc = True\<rparr>
      (map visit_answers ([(4, ''10.0.0.1'', 9, [''a'', ''b''])] @ (4, ''10.0.0.2'', 9, [''c''] @ [''d'']) # [])) = Returns 0 st \<and>
     ns_err st = LOG LEVEL_D tcp_TAG ''Received shutdown signal, exiting gracefully''
       (visit_start_log (4, ''10.0.0.2'', 9, [''c'']) (fold visit_log [(4, ''10.0.0.1'', 9, [''a'', ''b''])] greeting))"
proof -
  let ?c = "receiver_defaults\<lparr>rc_repetitions := 3\<rparr>"
  have r: "tcp_parse_repetitions ''3'' = 3" by code_simp
  obtain err where o: "tcp_options [(CHR ''r'', ''3'', CHR ''x'')] receiver_defaults [] = (Run ?c, err)"
    by (simp add: r Let_def)
  show ?thesis
    using tcp_main_takes [OF o, of "\<lparr>ta_socket = Inl 3, ta_bind = None, ta_listen = None, ta_malloc = True\<rparr>" 3
      "[(4, ''10.0.0.1'', 9, [''a'', ''b''])]" "[''c'']" 4 "''10.0.0.2''" 9 "[''d'']" "[]"]
    by (auto simp add: receiver_defaults_def simp del: visit_answers.simps visit_start_log.simps visit_log.simps)
qed

text \<open>
  With a buffer of one byte every \<open>recv\<close> asks for no bytes and returns none, which reads as the end of the
  client's stream: no message is ever received.
\<close>

theorem tcp_one_byte_buffer:
  assumes "recv_conforms 1 ((before, Answered d, after) # turns)" "ns_running st"
  shows "tcp_client 1 ip port ((before, Answered d, after) # turns) st = Loop_Exit (net_log LEVEL_I tcp_TAG
    (''[TCP] Client disconnected: '' @ ip @ '':'' @ show_int port) (signal_if after (signal_if before st)))"
  using assms by (simp add: recv_conforms_def Let_def)

text \<open>
  A signal that comes between the test of \<open>running\<close> and the call only takes effect after the next datagram.
\<close>

theorem udp_signal_before_call_waits:
  assumes "rx_ok n [fd] st" "ns_running st" "fits n (d, ip, port)" "ns_repetitions st < 0"
  shows "\<exists>b'. udp_loop n fd ((True, Answered (d, ip, port), False) # turns) st =
    Loop_Exit (st\<lparr>ns_running := False, ns_buffer := Some b', ns_err := udp_log (d, ip, port) (ns_err st)\<rparr>)"
proof -
  have "rx_ok n [fd] (signal_handler st)" "int (length d) < n" using assms(1,3) by (simp_all add: fits_def)
  from rx_ok_message [OF this, of ip port] obtain b' where
    "udp_message n d ip port (signal_handler st) = Some (signal_handler st\<lparr>ns_buffer := Some b',
       ns_err := udp_log (d, ip, port) (ns_err (signal_handler st))\<rparr>)" by blast
  then show ?thesis
    using assms(2,4) by (cases turns)
      (auto simp: signal_if_def signal_handler_def count_repetition_def Let_def intro!: exI [of _ b'])
qed

end
