(* ===== verification/Net_Send.thy ===== *)
theory Net_Send
  imports Net_Receive "HOL-Library.Sublist"
begin

text \<open>
  \<open>udp_tcp_sender.c\<close> of \<open>Exercise2\<close>, and what its datagrams do in the UDP receiver. An argument of a program
  is shorter than \<open>INT_MAX\<close> (Linux allows 128 KiB), so \<open>msg_size\<close> is the length of the message.
\<close>

section \<open>State and answers of the operating system\<close>

text \<open>
  \<open>ss_res\<close> is the address list while it is allocated, \<open>ss_sent\<close> the address and the bytes each call of \<open>send\<close>
  or \<open>sendto\<close> took, and \<open>ss_sleeps\<close> the arguments of \<open>sleep\<close>, an \<open>unsigned int\<close>.
\<close>

record sender_state = net_process +
  ss_res :: "string option"
  ss_sent :: "(string \<times> string) list"
  ss_sleeps :: "int list"

definition sender_start :: "int \<Rightarrow> string list \<Rightarrow> sender_state" where
  "sender_start repetitions err =
     \<lparr>ns_running = True, ns_repetitions = repetitions, ns_sockets = [], ns_err = err,
      ss_res = None, ss_sent = [], ss_sleeps = []\<rparr>"

text \<open>
  \<open>Sent k\<close>: the call took the first \<open>k\<close> bytes. \<open>Send_Pipe\<close>: the peer has closed the connection, which sends
  \<open>SIGPIPE\<close> to the process; the program has no handler for it and is killed.
\<close>

datatype send_answer = Send_Interrupted | Send_Failed string | Send_Pipe | Sent nat

type_synonym send_turn = "bool \<times> send_answer \<times> bool"

datatype sender_outcome = Sender_Waits sender_state | Sender_Killed sender_state
  | Sender_Exit sender_state | Sender_Returns int sender_state

text \<open>\<open>getaddrinfo\<close> looks up a host, a service and a kind of socket, and gives an address or an error text.\<close>

record sender_answers =
  sa_getaddrinfo :: "string \<Rightarrow> string \<Rightarrow> protocol \<Rightarrow> string + string"
  sa_socket :: "int + string"
  sa_broadcast :: "string option"
  sa_connect :: "string option"

section \<open>The program\<close>

definition freeaddrinfo :: "sender_state \<Rightarrow> sender_state" where
  "freeaddrinfo st = st\<lparr>ss_res := None\<rparr>"

definition proto_str :: "protocol \<Rightarrow> string" where
  "proto_str p = (case p of PROTO_TCP \<Rightarrow> ''TCP'' | PROTO_UDP \<Rightarrow> ''UDP'')"

definition tagged :: "protocol \<Rightarrow> string \<Rightarrow> string" where
  "tagged p msg = ''['' @ proto_str p @ ''] '' @ msg"

text \<open>The conversion of the \<open>long\<close> period to the argument of \<open>sleep\<close>.\<close>

definition sleep_seconds :: "int \<Rightarrow> int" where
  "sleep_seconds period = period mod 2 ^ 32"

definition sender_msg_size :: "sender_config \<Rightarrow> int" where
  "sender_msg_size c = (if int (length (sc_message c)) > sc_max_msg_size c
     then sc_max_msg_size c else int (length (sc_message c)))"

definition sender_truncation_log :: "sender_config \<Rightarrow> sender_state \<Rightarrow> sender_state" where
  "sender_truncation_log c st = (if int (length (sc_message c)) > sc_max_msg_size c
     then net_log LEVEL_W sender_TAG (''Message truncated from '' @ show_nat (length (sc_message c)) @ '' to '' @
       show_int (sc_max_msg_size c) @ '' bytes'') st
     else st)"

fun sender_loop :: "sender_config \<Rightarrow> int \<Rightarrow> string \<Rightarrow> string \<Rightarrow> send_turn list \<Rightarrow> sender_state \<Rightarrow> sender_outcome" where
  "sender_loop c fd addr payload [] st = (if ns_running st then Sender_Waits st else Sender_Exit st)"
| "sender_loop c fd addr payload ((before, answer, after) # turns) st =
     (if \<not> ns_running st then Sender_Exit st
      else let st = signal_if before st in
        case answer of
          Send_Interrupted \<Rightarrow> sender_loop c fd addr payload turns (signal_handler st)
        | Send_Failed e \<Rightarrow> Sender_Returns 1 (freeaddrinfo (net_close fd (net_log_errno LEVEL_E sender_TAG ''send() failed'' e st)))
        | Send_Pipe \<Rightarrow> Sender_Killed st
        | Sent k \<Rightarrow>
            let st = net_log LEVEL_I sender_TAG
                (tagged (sc_protocol c) (''Sent '' @ show_nat k @ '' bytes -- Message: '' @ payload))
                (st\<lparr>ss_sent := ss_sent st @ [(addr, take k payload)]\<rparr>);
              st = count_repetition (signal_if after st) in
            if ns_repetitions st = 0 then Sender_Exit st
            else sender_loop c fd addr payload turns (st\<lparr>ss_sleeps := ss_sleeps st @ [sleep_seconds (sc_period c)]\<rparr>))"

definition sender_finish :: "int \<Rightarrow> sender_state \<Rightarrow> sender_state" where
  "sender_finish fd st =
     (let st = (if \<not> ns_running st
        then net_log LEVEL_D sender_TAG ''Received shutdown signal, exiting gracefully'' st else st) in
      freeaddrinfo (net_close fd st))"

text \<open>From the message's size to the socket: the address and the descriptor, or the code of \<open>main\<close>.\<close>

definition sender_open :: "sender_config \<Rightarrow> sender_answers \<Rightarrow> string list \<Rightarrow> (int + string \<times> int) \<times> sender_state" where
  "sender_open c a err =
     (let st = sender_truncation_log c (sender_start (sc_repetitions c) err);
          port_str = c_trunc 6 (show_int (sc_port c)) in
      case sa_getaddrinfo a (sc_host c) port_str (sc_protocol c) of
        Inr e \<Rightarrow> (Inl 1, net_log LEVEL_E sender_TAG (''getaddrinfo failed: '' @ e) st)
      | Inl addr \<Rightarrow>
          let st = st\<lparr>ss_res := Some addr\<rparr> in
          (case sa_socket a of
             Inr e \<Rightarrow> (Inl 1, freeaddrinfo (net_log_errno LEVEL_E sender_TAG ''Failed to create socket'' e st))
           | Inl fd \<Rightarrow>
               let st = net_open fd st in
               if sc_protocol c = PROTO_UDP \<and> sa_broadcast a \<noteq> None
               then (Inl 1, freeaddrinfo (net_close fd
                 (net_log_errno LEVEL_E sender_TAG ''Failed to set SO_BROADCAST'' (the (sa_broadcast a)) st)))
               else (Inr (addr, fd), net_log LEVEL_D sender_TAG (tagged (sc_protocol c) ''Created socket'') st)))"

definition sender_connect :: "sender_config \<Rightarrow> sender_answers \<Rightarrow> int \<Rightarrow> sender_state \<Rightarrow> int option \<times> sender_state" where
  "sender_connect c a fd st =
     (if sc_protocol c = PROTO_TCP
      then (case sa_connect a of
          Some e \<Rightarrow> (Some 1, freeaddrinfo (net_close fd (net_log_errno LEVEL_E sender_TAG ''connect() failed'' e st)))
        | None \<Rightarrow> (None, net_log LEVEL_D sender_TAG (tagged (sc_protocol c)
            (''Connected to '' @ sc_host c @ '':'' @ show_int (sc_port c))) st))
      else (None, st))"

definition sender_run :: "sender_config \<Rightarrow> sender_answers \<Rightarrow> send_turn list \<Rightarrow> string list \<Rightarrow> sender_outcome" where
  "sender_run c a turns err =
     (case sender_open c a err of
        (Inl k, st) \<Rightarrow> Sender_Returns k st
      | (Inr (addr, fd), st) \<Rightarrow>
          (case sender_connect c a fd st of
             (Some k, st) \<Rightarrow> Sender_Returns k st
           | (None, st) \<Rightarrow>
               let st = net_log LEVEL_I sender_TAG (tagged (sc_protocol c)
                   (''Sending to '' @ sc_host c @ '':'' @ show_int (sc_port c))) st in
               (case sender_loop c fd addr (take (nat (sender_msg_size c)) (sc_message c)) turns st of
                  Sender_Exit st \<Rightarrow> Sender_Returns 0 (sender_finish fd st)
                | r \<Rightarrow> r)))"

definition sender_main :: "getopt_answer list \<Rightarrow> sender_answers \<Rightarrow> send_turn list \<Rightarrow> sender_outcome" where
  "sender_main opts a turns = (case sender_options opts sender_defaults [] of
     (Exit k, err) \<Rightarrow> Sender_Returns k (sender_start (- 1) err)
   | (Run c, err) \<Rightarrow> sender_run c a turns err)"

section \<open>The port as text\<close>

lemma length_show_nat: "n < 10 ^ Suc k \<Longrightarrow> length (show_nat n) \<le> Suc k"
proof (induction k arbitrary: n)
  case 0
  then show ?case by (subst show_nat.simps) simp
next
  case (Suc k)
  show ?case
  proof (cases "n < 10")
    case True
    then show ?thesis by (subst show_nat.simps) simp
  next
    case False
    have "n div 10 < 10 ^ Suc k" using Suc.prems by (simp add: less_mult_imp_div_less mult.commute)
    then show ?thesis using False Suc.IH [of "n div 10"] by (subst show_nat.simps) simp
  qed
qed

lemma port_text:
  assumes "1 \<le> port" "port \<le> 65535"
  shows "c_trunc 6 (show_int port) = show_int port"
proof -
  have "nat port < 10 ^ Suc 4" using assms by simp
  from length_show_nat [OF this] show ?thesis
    using assms by (intro c_trunc_id) (simp add: show_int_def)
qed

section \<open>What the sender keeps and releases\<close>

definition sent_ok :: "string \<Rightarrow> string \<Rightarrow> sender_state \<Rightarrow> bool" where
  "sent_ok addr payload st \<longleftrightarrow> list_all (\<lambda>(a, d). a = addr \<and> prefix d payload) (ss_sent st)"

definition sender_ok :: "int \<Rightarrow> string \<Rightarrow> string \<Rightarrow> sender_state \<Rightarrow> bool" where
  "sender_ok fd addr payload st \<longleftrightarrow> ns_sockets st = [fd] \<and> ss_res st = Some addr \<and> sent_ok addr payload st"

definition sender_released :: "sender_state \<Rightarrow> bool" where
  "sender_released st \<longleftrightarrow> ns_sockets st = [] \<and> ss_res st = None"

lemmas sender_frame = sender_ok_def sent_ok_def sender_released_def net_log_def net_log_errno_def signal_handler_def
  signal_if_def count_repetition_def net_close_def net_open_def freeaddrinfo_def

lemma sender_loop_safe:
  assumes "sender_ok fd addr payload st"
  shows "case sender_loop c fd addr payload turns st of
      Sender_Waits st' \<Rightarrow> sender_ok fd addr payload st' \<and> ns_running st'
    | Sender_Killed st' \<Rightarrow> sender_ok fd addr payload st' \<and> Send_Pipe \<in> (\<lambda>(before, answer, after). answer) ` set turns
    | Sender_Exit st' \<Rightarrow> sender_ok fd addr payload st'
    | Sender_Returns k st' \<Rightarrow> k = 1 \<and> sender_released st' \<and> sent_ok addr payload st'"
  using assms
proof (induction turns arbitrary: st)
  case Nil
  then show ?case by simp
next
  case (Cons t turns)
  obtain before answer after where t: "t = (before, answer, after)" by (cases t)
  let ?st = "signal_if before st"
  have ok: "sender_ok fd addr payload ?st" using Cons.prems by (simp add: sender_frame)
  have IH: "case sender_loop c fd addr payload turns st' of
      Sender_Waits st' \<Rightarrow> sender_ok fd addr payload st' \<and> ns_running st'
    | Sender_Killed st' \<Rightarrow> sender_ok fd addr payload st' \<and> Send_Pipe \<in> (\<lambda>(before, answer, after). answer) ` set (t # turns)
    | Sender_Exit st' \<Rightarrow> sender_ok fd addr payload st'
    | Sender_Returns k st' \<Rightarrow> k = 1 \<and> sender_released st' \<and> sent_ok addr payload st'"
    if "sender_ok fd addr payload st'" for st'
    using Cons.IH [OF that] by (cases "sender_loop c fd addr payload turns st'") auto
  show ?case
  proof (cases "ns_running st")
    case False
    then show ?thesis using Cons.prems t by simp
  next
    case running: True
    show ?thesis
    proof (cases answer)
      case Send_Interrupted
      moreover have "sender_ok fd addr payload (signal_handler ?st)" using ok by (simp add: sender_frame)
      ultimately show ?thesis using running t IH [of "signal_handler ?st"] by (simp add: Let_def)
    next
      case (Send_Failed e)
      then show ?thesis using running t ok by (simp add: sender_frame Let_def)
    next
      case Send_Pipe
      then show ?thesis using running t ok by (simp add: Let_def)
    next
      case (Sent k)
      let ?st1 = "count_repetition (signal_if after (net_log LEVEL_I sender_TAG
        (tagged (sc_protocol c) (''Sent '' @ show_nat k @ '' bytes -- Message: '' @ payload))
        (?st\<lparr>ss_sent := ss_sent ?st @ [(addr, take k payload)]\<rparr>)))"
      have ok1: "sender_ok fd addr payload ?st1"
        using ok by (simp add: sender_frame take_is_prefix)
      then have "sender_ok fd addr payload (?st1\<lparr>ss_sleeps := s\<rparr>)" for s
        by (simp add: sender_ok_def sent_ok_def)
      with ok1 show ?thesis
        using running t Sent IH [of "?st1\<lparr>ss_sleeps := ss_sleeps ?st1 @ [sleep_seconds (sc_period c)]\<rparr>"]
        by (cases "ns_repetitions ?st1 = 0") (simp_all add: Let_def)
    qed
  qed
qed

definition sender_state_of :: "sender_outcome \<Rightarrow> sender_state" where
  "sender_state_of r = (case r of Sender_Waits st \<Rightarrow> st | Sender_Killed st \<Rightarrow> st | Sender_Exit st \<Rightarrow> st | Sender_Returns k st \<Rightarrow> st)"

definition sender_payload :: "sender_config \<Rightarrow> string" where
  "sender_payload c = take (nat (sc_max_msg_size c)) (sc_message c)"

lemma payload: "take (nat (sender_msg_size c)) (sc_message c) = sender_payload c"
  by (simp add: sender_msg_size_def sender_payload_def)

lemma start_frame:
  "ns_sockets (sender_truncation_log c (sender_start r err)) = []"
  "ss_res (sender_truncation_log c (sender_start r err)) = None"
  "ss_sent (sender_truncation_log c (sender_start r err)) = []"
  "ss_sleeps (sender_truncation_log c (sender_start r err)) = []"
  "ns_running (sender_truncation_log c (sender_start r err))"
  "ns_repetitions (sender_truncation_log c (sender_start r err)) = r"
  by (simp_all add: sender_truncation_log_def sender_start_def net_log_def)

lemma sender_open_cases:
  "(\<exists>st. sender_open c a err = (Inl 1, st) \<and> sender_released st \<and> ss_sent st = []) \<or>
   (\<exists>addr fd st. sender_open c a err = (Inr (addr, fd), st) \<and> ns_sockets st = [fd] \<and> ss_res st = Some addr \<and>
     ss_sent st = [] \<and> sa_getaddrinfo a (sc_host c) (c_trunc 6 (show_int (sc_port c))) (sc_protocol c) = Inl addr)"
  by (auto simp: sender_open_def Let_def sender_frame start_frame split: sum.split)

lemma sender_connect_cases:
  assumes "ns_sockets st = [fd]" "ss_res st = Some addr" "ss_sent st = []"
  shows "(\<exists>st'. sender_connect c a fd st = (Some 1, st') \<and> sender_released st' \<and> ss_sent st' = []) \<or>
    (\<exists>st'. sender_connect c a fd st = (None, st') \<and> sender_ok fd addr payload st')"
  using assms by (auto simp: sender_connect_def sender_frame split: option.split)



section \<open>What the sender sends\<close>

lemma sender_loop_all:
  assumes "ns_running st" "ns_repetitions st < 0 \<or> k < takes (ns_repetitions st)"
  shows "\<exists>err. sender_loop c fd addr m (replicate k (False, Sent (length m), False) @ turns) st = sender_loop c fd addr m turns
    (st\<lparr>ns_repetitions := repetitions_left (ns_repetitions st) k, ns_err := err,
        ss_sent := ss_sent st @ replicate k (addr, m),
        ss_sleeps := ss_sleeps st @ replicate k (sleep_seconds (sc_period c))\<rparr>)"
  using assms
proof (induction k arbitrary: st)
  case 0
  have "st = st\<lparr>ns_repetitions := repetitions_left (ns_repetitions st) 0, ns_err := ns_err st,
      ss_sent := ss_sent st @ [], ss_sleeps := ss_sleeps st @ []\<rparr>"
    by (simp add: repetitions_left_def)
  then show ?case by (intro exI [of _ "ns_err st"]) simp
next
  case (Suc k)
  let ?st1 = "count_repetition (net_log LEVEL_I sender_TAG
      (tagged (sc_protocol c) (''Sent '' @ show_nat (length m) @ '' bytes -- Message: '' @ m))
      (st\<lparr>ss_sent := ss_sent st @ [(addr, m)]\<rparr>))"
  let ?st2 = "?st1\<lparr>ss_sleeps := ss_sleeps ?st1 @ [sleep_seconds (sc_period c)]\<rparr>"
  have r: "ns_repetitions st < 0 \<or> 1 < ns_repetitions st \<and> int k < ns_repetitions st - 1"
    using Suc.prems(2) by (auto simp: takes_def max_def split: if_splits)
  then have rep: "ns_repetitions ?st2 = (if ns_repetitions st < 0 then ns_repetitions st else ns_repetitions st - 1)"
    by (auto simp: count_repetition_def net_log_def)
  have "ns_running ?st2" using Suc.prems(1) by (simp add: count_repetition_def net_log_def)
  moreover have "ns_repetitions ?st2 < 0 \<or> k < takes (ns_repetitions ?st2)"
    using r rep by (auto simp: takes_def)
  ultimately obtain err where err: "sender_loop c fd addr m (replicate k (False, Sent (length m), False) @ turns) ?st2 =
      sender_loop c fd addr m turns (?st2\<lparr>ns_repetitions := repetitions_left (ns_repetitions ?st2) k, ns_err := err,
        ss_sent := ss_sent ?st2 @ replicate k (addr, m),
        ss_sleeps := ss_sleeps ?st2 @ replicate k (sleep_seconds (sc_period c))\<rparr>)"
    using Suc.IH by blast
  have "ns_repetitions ?st1 \<noteq> 0" using r rep by auto
  then have "sender_loop c fd addr m (replicate (Suc k) (False, Sent (length m), False) @ turns) st =
      sender_loop c fd addr m (replicate k (False, Sent (length m), False) @ turns) ?st2"
    using Suc.prems(1) by (simp add: Let_def)
  moreover have "repetitions_left (ns_repetitions ?st2) k = repetitions_left (ns_repetitions st) (Suc k)"
    using r rep by (auto simp: repetitions_left_def)
  moreover have "?st2\<lparr>ns_repetitions := r', ns_err := err, ss_sent := ss_sent ?st2 @ replicate k (addr, m),
      ss_sleeps := ss_sleeps ?st2 @ replicate k (sleep_seconds (sc_period c))\<rparr> =
      st\<lparr>ns_repetitions := r', ns_err := err, ss_sent := ss_sent st @ replicate (Suc k) (addr, m),
        ss_sleeps := ss_sleeps st @ replicate (Suc k) (sleep_seconds (sc_period c))\<rparr>" for r'
    by (cases st) (simp add: count_repetition_def net_log_def)
  ultimately show ?case using err by metis
qed

lemma sender_loop_last:
  assumes "ns_running st" "0 \<le> ns_repetitions st" "Suc k = takes (ns_repetitions st)"
  shows "\<exists>err. sender_loop c fd addr m (replicate (Suc k) (False, Sent (length m), False) @ turns) st = Sender_Exit
    (st\<lparr>ns_repetitions := 0, ns_err := err, ss_sent := ss_sent st @ replicate (Suc k) (addr, m),
        ss_sleeps := ss_sleeps st @ replicate k (sleep_seconds (sc_period c))\<rparr>)"
proof -
  obtain err where err: "sender_loop c fd addr m (replicate k (False, Sent (length m), False) @
      (False, Sent (length m), False) # turns) st = sender_loop c fd addr m ((False, Sent (length m), False) # turns)
    (st\<lparr>ns_repetitions := repetitions_left (ns_repetitions st) k, ns_err := err,
        ss_sent := ss_sent st @ replicate k (addr, m),
        ss_sleeps := ss_sleeps st @ replicate k (sleep_seconds (sc_period c))\<rparr>)" (is "_ = sender_loop _ _ _ _ _ ?st")
    using sender_loop_all [OF assms(1), of k c fd addr m] assms(3) by (metis lessI)
  have r: "repetitions_left (ns_repetitions st) k \<in> {0, 1}"
    using assms(2,3) by (auto simp: repetitions_left_def takes_def)
  have split: "replicate (Suc k) (False, Sent (length m), False) @ turns =
      replicate k (False, Sent (length m), False) @ (False, Sent (length m), False) # turns"
    by (simp add: replicate_app_Cons_same)
  have sent: "replicate (Suc k) (addr, m) = replicate k (addr, m) @ [(addr, m)]"
    by (simp add: replicate_append_same)
  show ?thesis
    unfolding split err using assms(1) r
    by (cases st) (auto simp: Let_def count_repetition_def net_log_def sent simp del: replicate.simps)
qed

lemma sender_main_ready:
  assumes "sender_options opts sender_defaults [] = (Run c, err)"
    and "sa_getaddrinfo a (sc_host c) (show_int (sc_port c)) (sc_protocol c) = Inl addr" "sa_socket a = Inl fd"
    and "sc_protocol c = PROTO_UDP \<Longrightarrow> sa_broadcast a = None" "sc_protocol c = PROTO_TCP \<Longrightarrow> sa_connect a = None"
  obtains st0 where "ns_sockets st0 = [fd]" "ns_running st0" "ns_repetitions st0 = sc_repetitions c" "ss_sent st0 = []"
    "ss_sleeps st0 = []" "\<And>turns. sender_main opts a turns = (case sender_loop c fd addr (sender_payload c) turns st0 of
        Sender_Exit st \<Rightarrow> Sender_Returns 0 (sender_finish fd st) | r \<Rightarrow> r)"
proof -
  have "sc_ok c" using sender_options_ok [of opts "[]" c] assms(1) by simp
  then have port: "c_trunc 6 (show_int (sc_port c)) = show_int (sc_port c)"
    using port_text by (simp add: sc_ok_def)
  define st1 where "st1 = net_log LEVEL_D sender_TAG (tagged (sc_protocol c) ''Created socket'')
    (net_open fd (sender_truncation_log c (sender_start (sc_repetitions c) err)\<lparr>ss_res := Some addr\<rparr>))"
  have o: "sender_open c a err = (Inr (addr, fd), st1)"
    using assms(2-4) by (simp add: sender_open_def port st1_def Let_def)
  define st2 where "st2 = snd (sender_connect c a fd st1)"
  have conn: "sender_connect c a fd st1 = (None, st2)"
    using assms(5) by (simp add: sender_connect_def st2_def)
  define st0 where "st0 = net_log LEVEL_I sender_TAG (tagged (sc_protocol c)
    (''Sending to '' @ sc_host c @ '':'' @ show_int (sc_port c))) st2"
  note frame = st0_def st2_def st1_def sender_connect_def net_log_def net_open_def start_frame assms(5)
  show ?thesis
  proof (rule that [of st0])
    show "sender_main opts a turns = (case sender_loop c fd addr (sender_payload c) turns st0 of
        Sender_Exit st \<Rightarrow> Sender_Returns 0 (sender_finish fd st) | r \<Rightarrow> r)" for turns
      by (simp add: sender_main_def assms(1) sender_run_def o conn payload st0_def)
  qed (simp_all add: frame)
qed

lemma sender_finish_sent [simp]:
  "ss_sent (sender_finish fd st) = ss_sent st" "ss_sleeps (sender_finish fd st) = ss_sleeps st"
  by (simp_all add: sender_finish_def freeaddrinfo_def net_close_def net_log_def Let_def)

text \<open>
  C27: when every call takes the whole message, the sender sends it, cut to the size limit, as often as \<open>-r\<close> says
  (once for 0), to the address of its host and port, and ends with 0; without a limit, or below it, it goes on.
  After each message but the last it sleeps, for the period reduced modulo \<open>2 ^ 32\<close>.
\<close>

theorem sender_main_sends:
  assumes "sender_options opts sender_defaults [] = (Run c, err)"
    and "sa_getaddrinfo a (sc_host c) (show_int (sc_port c)) (sc_protocol c) = Inl addr" "sa_socket a = Inl fd"
    and "sc_protocol c = PROTO_UDP \<Longrightarrow> sa_broadcast a = None" "sc_protocol c = PROTO_TCP \<Longrightarrow> sa_connect a = None"
    and m: "m = take (nat (sc_max_msg_size c)) (sc_message c)"
  shows "if 0 \<le> sc_repetitions c \<and> max 1 (sc_repetitions c) \<le> int k
    then \<exists>st. sender_main opts a (replicate k (False, Sent (length m), False)) = Sender_Returns 0 st \<and>
      ss_sent st = replicate (nat (max 1 (sc_repetitions c))) (addr, m) \<and>
      ss_sleeps st = replicate (nat (max 1 (sc_repetitions c)) - 1) (sc_period c mod 2 ^ 32)
    else \<exists>st. sender_main opts a (replicate k (False, Sent (length m), False)) = Sender_Waits st \<and>
      ss_sent st = replicate k (addr, m) \<and> ss_sleeps st = replicate k (sc_period c mod 2 ^ 32)"
proof -
  obtain st0 where st0: "ns_running st0" "ns_repetitions st0 = sc_repetitions c" "ss_sent st0 = []" "ss_sleeps st0 = []"
    and main: "\<And>turns. sender_main opts a turns = (case sender_loop c fd addr (sender_payload c) turns st0 of
        Sender_Exit st \<Rightarrow> Sender_Returns 0 (sender_finish fd st) | r \<Rightarrow> r)"
    using sender_main_ready [OF assms(1-5)] by metis
  have m': "sender_payload c = m" by (simp add: m sender_payload_def)
  show ?thesis
  proof (cases "0 \<le> sc_repetitions c \<and> max 1 (sc_repetitions c) \<le> int k")
    case True
    then obtain j where j: "Suc j = takes (sc_repetitions c)" "Suc j \<le> k"
      by (cases "takes (sc_repetitions c)") (auto simp: takes_def max_def split: if_splits)
    have turns: "replicate k (False, Sent (length m), False) =
        replicate (Suc j) (False, Sent (length m), False) @ replicate (k - Suc j) (False, Sent (length m), False)"
      using j(2) by (metis replicate_add le_add_diff_inverse)
    obtain err' where "sender_loop c fd addr m (replicate k (False, Sent (length m), False)) st0 = Sender_Exit
        (st0\<lparr>ns_repetitions := 0, ns_err := err', ss_sent := ss_sent st0 @ replicate (Suc j) (addr, m),
          ss_sleeps := ss_sleeps st0 @ replicate j (sleep_seconds (sc_period c))\<rparr>)"
      unfolding turns using sender_loop_last [of st0 j c fd addr m] st0 j(1) True by auto
    moreover have "nat (max 1 (sc_repetitions c)) = Suc j" using j(1) by (simp add: takes_def)
    ultimately show ?thesis using True st0 by (simp add: main m' sleep_seconds_def)
  next
    case False
    then have "ns_repetitions st0 < 0 \<or> k < takes (ns_repetitions st0)" using st0 by (auto simp: takes_def)
    from sender_loop_all [OF st0(1) this, of c fd addr m "[]"] False st0 show ?thesis
      by (auto simp: main m' sleep_seconds_def)
  qed
qed

theorem sender_main_sends_witness:
  "\<exists>st. sender_main [(CHR ''m'', ''hello'', CHR ''x''), (CHR ''s'', ''4'', CHR ''x''), (CHR ''r'', ''2'', CHR ''x'')]
      \<lparr>sa_getaddrinfo = \<lambda>host port proto. Inl (host @ port), sa_socket = Inl 3, sa_broadcast = None, sa_connect = None\<rparr>
      (replicate 3 (False, Sent (length ''hell''), False)) = Sender_Returns 0 st \<and>
    ss_sent st = replicate 2 (''127.0.0.1'' @ show_int 8080, ''hell'') \<and> ss_sleeps st = [5]"
proof -
  let ?c = "sender_defaults\<lparr>sc_message := ''hello'', sc_max_msg_size := 4, sc_repetitions := 2\<rparr>"
  let ?a = "\<lparr>sa_getaddrinfo = \<lambda>host port proto. Inl (host @ port), sa_socket = Inl 3, sa_broadcast = None, sa_connect = None\<rparr>"
  have p: "sender_parse_size ''4'' = 4" "sender_parse_repetitions ''2'' = 2" by code_simp+
  have o: "sender_options [(CHR ''m'', ''hello'', CHR ''x''), (CHR ''s'', ''4'', CHR ''x''), (CHR ''r'', ''2'', CHR ''x'')]
      sender_defaults [] = (Run ?c, [])" by (simp add: p Let_def)
  have m: "''hell'' = take (nat (sc_max_msg_size ?c)) (sc_message ?c)" by simp
  show ?thesis
    using sender_main_sends [OF o, of ?a "''127.0.0.1'' @ show_int 8080" 3, OF _ _ _ _ m, of 3]
    by (simp add: sender_defaults_def)
qed

text \<open>The sleep between two messages is the period only up to \<open>2 ^ 32 - 1\<close>, although more is accepted.\<close>

theorem sender_sleep_truncated:
  "sender_parse_period ''4294967296'' = 4294967296 \<and> sleep_seconds 4294967296 = 0"
proof
  show "sender_parse_period ''4294967296'' = 4294967296" by code_simp
  show "sleep_seconds 4294967296 = 0" by (simp add: sleep_seconds_def)
qed

text \<open>The whole run of a sender with a limit when every call takes the whole message.\<close>

lemma sender_main_repeats:
  assumes "sender_options sopts sender_defaults [] = (Run sc, serr)" "0 \<le> sc_repetitions sc"
    and "sa_getaddrinfo sa (sc_host sc) (show_int (sc_port sc)) (sc_protocol sc) = Inl addr" "sa_socket sa = Inl sfd"
    and "sc_protocol sc = PROTO_UDP \<Longrightarrow> sa_broadcast sa = None" "sc_protocol sc = PROTO_TCP \<Longrightarrow> sa_connect sa = None"
    and m: "m = take (nat (sc_max_msg_size sc)) (sc_message sc)"
    and k: "k = nat (max 1 (sc_repetitions sc))"
  obtains ss where "sender_main sopts sa (replicate k (False, Sent (length m), False)) = Sender_Returns 0 ss"
    "ss_sent ss = replicate k (addr, m)"
proof -
  obtain st0 where st0: "ns_running st0" "ns_repetitions st0 = sc_repetitions sc" "ss_sent st0 = []"
    and main: "\<And>turns. sender_main sopts sa turns = (case sender_loop sc sfd addr (sender_payload sc) turns st0 of
        Sender_Exit st \<Rightarrow> Sender_Returns 0 (sender_finish sfd st) | r \<Rightarrow> r)"
    using sender_main_ready [OF assms(1,3-6)] by metis
  have "1 \<le> k" by (simp add: k)
  then obtain j where "k = Suc j" by (cases k) auto
  then have j: "Suc j = takes (sc_repetitions sc)" "k = Suc j" using k by (simp_all add: takes_def)
  show ?thesis
    using that sender_loop_last [OF st0(1), of j sc sfd addr m "[]"] st0 j assms(2)
    by (auto simp: main sender_payload_def m)
qed

section \<open>From the sender to the UDP receiver\<close>



end
