(* ===== verification/Net_Stream.thy ===== *)
theory Net_Stream
  imports Net_Send
begin

text \<open>
  The sender together with the TCP receiver. TCP carries the bytes of the messages as one stream, and each
  \<open>recv\<close> of the receiver takes some of the bytes that are there, at most \<open>buffer_size - 1\<close>: where the stream is
  cut is not up to either program.
\<close>

section \<open>The pieces of a stream\<close>

text \<open>\<open>ds\<close> is a way in which the calls of \<open>recv\<close> can take the stream.\<close>

definition cut_of :: "int \<Rightarrow> string \<Rightarrow> string list \<Rightarrow> bool" where
  "cut_of n stream ds \<longleftrightarrow> concat ds = stream \<and> list_all (chunk_ok n) ds"

lemma cut_of_length:
  assumes "cut_of n stream ds"
  shows "length ds \<le> length stream \<and> length stream \<le> length ds * nat (n - 1)"
proof -
  have "length ds \<le> length (concat ds) \<and> length (concat ds) \<le> length ds * nat (n - 1)" if "list_all (chunk_ok n) ds" for ds
    using that
  proof (induction ds)
    case Nil
    then show ?case by simp
  next
    case (Cons d ds)
    then have "1 \<le> length d" "length d \<le> nat (n - 1)" by (auto simp: chunk_ok_def Suc_le_eq)
    then show ?case using Cons by auto
  qed
  then show ?thesis using assms by (auto simp: cut_of_def)
qed

lemma cut_of_whole: "m \<noteq> [] \<Longrightarrow> int (length m) < n \<Longrightarrow> cut_of n (concat (replicate k m)) (replicate k m)"
  by (simp add: cut_of_def chunk_ok_def list_all_iff)

lemma cut_of_merged:
  assumes "m \<noteq> []" "int (length (m @ m)) < n"
  shows "cut_of n (concat (replicate (Suc (Suc k)) m)) ((m @ m) # replicate k m)"
  using assms by (auto simp: cut_of_def chunk_ok_def list_all_iff)

lemma without_line_ends_id: "CHR 0x0A \<notin> set d \<Longrightarrow> CHR 0x0D \<notin> set d \<Longrightarrow> without_line_ends d = d"
  by (cases d rule: rev_exhaust) (auto simp: without_line_ends_snoc, simp add: without_line_ends_def)

lemma shown_plain_text: "set d \<inter> {CHR 0x00, CHR 0x0A, CHR 0x0D} = {} \<Longrightarrow> shown d = d"
  by (auto simp: shown_def without_line_ends_id takeWhile_eq_all_conv)

lemma shown_cut:
  assumes "cut_of n stream ds" "set stream \<inter> {CHR 0x00, CHR 0x0A, CHR 0x0D} = {}"
  shows "concat (map shown ds) = stream"
proof -
  have "shown d = d" if "d \<in> set ds" for d
    using assms that by (intro shown_plain_text) (auto simp: cut_of_def)
  then have "map shown ds = ds" by (simp add: map_idI)
  then show ?thesis using assms(1) by (simp add: cut_of_def)
qed

section \<open>From the sender to the TCP receiver\<close>

lemma tcp_main_one_visit:
  assumes "tcp_options opts receiver_defaults [] = (Run c, err)" "rc_repetitions c = - 1"
    and "ta_socket a = Inl lfd" "ta_bind a = None" "ta_listen a = None" "ta_malloc a"
    and "list_all (chunk_ok (rc_buffer_size c)) ds"
  shows "\<exists>st. tcp_main opts a [visit_answers (fd, ip, port, ds)] = Waits st \<and>
    ns_err st = LOG LEVEL_D tcp_TAG ''[TCP] Waiting for connection...''
      (visit_log (fd, ip, port, ds) (ns_err (tcp_ready c lfd err)))"
proof -
  have "list_all (chunk_ok (rc_buffer_size c)) (concat (map visit_messages [(fd, ip, port, ds)]))" using assms(7) by simp
  from tcp_loop_visits [OF tcp_ready_ok [of c lfd err] tcp_ready_simps(1) this, of "[]"] assms(2)
  obtain b where "tcp_loop (rc_buffer_size c) (map visit_answers [(fd, ip, port, ds)]) (tcp_ready c lfd err) =
      tcp_loop (rc_buffer_size c) [] (tcp_ready c lfd err\<lparr>ns_repetitions := repetitions_left (- 1) (length ds),
        ns_buffer := Some b, ns_err := fold visit_log [(fd, ip, port, ds)] (ns_err (tcp_ready c lfd err))\<rparr>)"
    by auto
  then show ?thesis
    by (simp add: tcp_main_ready [OF assms(1,3-6)] net_log_def del: visit_answers.simps visit_log.simps)
qed



text \<open>
  A call of \<open>send\<close> that takes only a part of the message is not followed by one for the rest: the next one starts
  the message again, and the line on \<open>stderr\<close> shows the whole message.
\<close>

theorem sender_short_send_loses_rest:
  assumes "ns_running st" "ns_repetitions st = 1" "j < length m"
  shows "\<exists>st'. sender_loop c fd addr m [(False, Sent j, False)] st = Sender_Exit st' \<and>
    ss_sent st' = ss_sent st @ [(addr, take j m)] \<and> take j m \<noteq> m \<and>
    ns_err st' = LOG LEVEL_I sender_TAG (tagged (sc_protocol c) (''Sent '' @ show_nat j @ '' bytes -- Message: '' @ m)) (ns_err st)"
proof -
  have "length (take j m) < length m" using assms(3) by simp
  then have "take j m \<noteq> m" by (rule contrapos_pn) simp
  then show ?thesis using assms(1,2) by (simp add: Let_def count_repetition_def net_log_def)
qed

end
