(* ===== verification/Log_Header.thy ===== *)
theory Log_Header
  imports Net_Options Log_Queue
begin

text \<open>
  The two headers of the synchronous logger, \<open>Exercise2/common/include/log_helper/log_helper.h\<close> and
  \<open>rtsystem/include/rtsystem/log_helper.h\<close>, for every setting of \<open>LOG_LEVEL\<close> and \<open>LOG_NO_COLOR\<close>; and the include
  guards, with which the second one and \<open>async_log_helper.h\<close> keep each other out of a file. A level is an \<open>int\<close> here,
  and one without an entry in the tables is undefined behaviour.
\<close>

section \<open>The macro for every build\<close>

text \<open>The macros a file defines before it includes the header; the level, when it is not set, is \<open>INFO\<close>.\<close>

record log_build =
  lb_level :: "int option"
  lb_no_color :: bool

definition build_level :: "log_build \<Rightarrow> int" where
  "build_level b = (case lb_level b of None \<Rightarrow> LOG_LEVEL_INFO | Some l \<Rightarrow> l)"

definition build_color :: "log_build \<Rightarrow> string \<Rightarrow> string" where
  "build_color b code = (if lb_no_color b then '''' else esc code)"

definition sync_LOG :: "log_build \<Rightarrow> int \<Rightarrow> string \<Rightarrow> string \<Rightarrow> string list \<Rightarrow> string list option" where
  "sync_LOG b level tag msg err =
     (if level \<ge> build_level b
      then if 0 \<le> level \<and> level < 4
        then Some (err @ [map (build_color b) [''36'', ''32'', ''33'', ''31''] ! nat level @
          [''D'', ''I'', ''W'', ''E''] ! nat level @ '' '' @ tag @ '': '' @ msg @ build_color b ''0'' @ newline])
        else None
      else Some err)"

definition sync_LOG_ERRNO :: "log_build \<Rightarrow> int \<Rightarrow> string \<Rightarrow> string \<Rightarrow> string \<Rightarrow> string list \<Rightarrow> string list option" where
  "sync_LOG_ERRNO b level tag msg strerror = sync_LOG b level tag (msg @ '': '' @ strerror)"

text \<open>The copy in \<open>rtsystem\<close>.\<close>

definition rt_build_level :: "log_build \<Rightarrow> int" where
  "rt_build_level b = (case lb_level b of None \<Rightarrow> LOG_LEVEL_INFO | Some l \<Rightarrow> l)"

definition rt_build_color :: "log_build \<Rightarrow> string \<Rightarrow> string" where
  "rt_build_color b code = (if lb_no_color b then '''' else esc code)"

definition rt_sync_LOG :: "log_build \<Rightarrow> int \<Rightarrow> string \<Rightarrow> string \<Rightarrow> string list \<Rightarrow> string list option" where
  "rt_sync_LOG b level tag msg err =
     (if level \<ge> rt_build_level b
      then if 0 \<le> level \<and> level < 4
        then Some (err @ [map (rt_build_color b) [''36'', ''32'', ''33'', ''31''] ! nat level @
          [''D'', ''I'', ''W'', ''E''] ! nat level @ '' '' @ tag @ '': '' @ msg @ rt_build_color b ''0'' @ newline])
        else None
      else Some err)"

definition rt_sync_LOG_ERRNO :: "log_build \<Rightarrow> int \<Rightarrow> string \<Rightarrow> string \<Rightarrow> string \<Rightarrow> string list \<Rightarrow> string list option" where
  "rt_sync_LOG_ERRNO b level tag msg strerror = rt_sync_LOG b level tag (msg @ '': '' @ strerror)"

section \<open>The include guards\<close>

text \<open>The guard macros that are defined so far in a file; \<open>None\<close> is an \<open>#error\<close>.\<close>

record guards =
  LOG_HELPER_H :: bool
  ASYNC_LOG_HELPER_H :: bool

datatype log_header = Rt_Log_Helper | Async_Log_Helper

definition include_rt_log_helper :: "guards \<Rightarrow> guards option" where
  "include_rt_log_helper g =
     (if LOG_HELPER_H g then Some g
      else if ASYNC_LOG_HELPER_H g then None
      else Some (g\<lparr>LOG_HELPER_H := True\<rparr>))"

definition include_async_log_helper :: "guards \<Rightarrow> guards option" where
  "include_async_log_helper g =
     (if ASYNC_LOG_HELPER_H g then Some g
      else if LOG_HELPER_H g then None
      else Some (g\<lparr>ASYNC_LOG_HELPER_H := True\<rparr>))"

definition include_header :: "log_header \<Rightarrow> guards \<Rightarrow> guards option" where
  "include_header h = (case h of
     Rt_Log_Helper \<Rightarrow> include_rt_log_helper | Async_Log_Helper \<Rightarrow> include_async_log_helper)"

fun include_all :: "log_header list \<Rightarrow> guards \<Rightarrow> guards option" where
  "include_all [] g = Some g"
| "include_all (h # hs) g = Option.bind (include_header h g) (include_all hs)"

section \<open>What they do\<close>

text \<open>The macro at the level that the programs of \<open>Exercise2\<close> set is the one their model uses.\<close>

definition level_number :: "log_level \<Rightarrow> int" where
  "level_number level = (case level of LEVEL_D \<Rightarrow> 0 | LEVEL_I \<Rightarrow> 1 | LEVEL_W \<Rightarrow> 2 | LEVEL_E \<Rightarrow> 3)"

text \<open>The levels are ordered as their numbers, and the threshold is a comparison of levels.\<close>

instantiation log_level :: linorder
begin

definition less_eq_log_level :: "log_level \<Rightarrow> log_level \<Rightarrow> bool" where
  "less_eq_log_level a b \<longleftrightarrow> level_number a \<le> level_number b"

definition less_log_level :: "log_level \<Rightarrow> log_level \<Rightarrow> bool" where
  "less_log_level a b \<longleftrightarrow> level_number a < level_number b"

instance
  by standard (auto simp: less_eq_log_level_def less_log_level_def level_number_def split: log_level.splits)

end

lemma sync_LOG_threshold:
  "lb_level b = Some (level_number threshold) \<Longrightarrow>
     sync_LOG b (level_number level) tag msg err = Some err \<longleftrightarrow> level < threshold"
  by (cases level; cases threshold) (auto simp: sync_LOG_def build_level_def less_log_level_def level_number_def)

lemma sync_LOG_debug:
  "sync_LOG \<lparr>lb_level = Some LOG_LEVEL_DEBUG, lb_no_color = False\<rparr> (level_number level) tag msg err = Some (LOG level tag msg err)"
  by (cases level) (simp_all add: sync_LOG_def LOG_def build_level_def build_color_def level_number_def log_levels)

lemma rt_sync_LOG_same: "rt_sync_LOG b level tag msg err = sync_LOG b level tag msg err"
  by (simp add: rt_sync_LOG_def sync_LOG_def rt_build_level_def build_level_def rt_build_color_def [abs_def] build_color_def [abs_def])

text \<open>Without colours a line is the letter, the tag and the text; below the threshold nothing is written.\<close>

lemma sync_LOG_plain:
  assumes "lb_no_color b" "build_level b \<le> level_number level"
  shows "sync_LOG b (level_number level) tag msg err = Some (err @ [log_letter level @ '' '' @ tag @ '': '' @ msg @ newline])"
  using assms by (cases level) (simp_all add: sync_LOG_def build_color_def level_number_def)

lemma sync_LOG_below: "level < build_level b \<Longrightarrow> sync_LOG b level tag msg err = Some err"
  by (simp add: sync_LOG_def)

lemma sync_LOG_undefined: "sync_LOG b level tag msg err = None \<longleftrightarrow> build_level b \<le> level \<and> \<not> (0 \<le> level \<and> level < 4)"
  by (simp add: sync_LOG_def)

text \<open>A file that includes both loggers of \<open>rtsystem\<close>, in any order and however often, does not compile; any other does.\<close>

lemma include_all_same:
  "include_all hs \<lparr>LOG_HELPER_H = True, ASYNC_LOG_HELPER_H = False\<rparr> = None \<longleftrightarrow> Async_Log_Helper \<in> set hs"
  "include_all hs \<lparr>LOG_HELPER_H = False, ASYNC_LOG_HELPER_H = True\<rparr> = None \<longleftrightarrow> Rt_Log_Helper \<in> set hs"
proof -
  have "(include_all hs \<lparr>LOG_HELPER_H = True, ASYNC_LOG_HELPER_H = False\<rparr> = None \<longleftrightarrow> Async_Log_Helper \<in> set hs) \<and>
    (include_all hs \<lparr>LOG_HELPER_H = False, ASYNC_LOG_HELPER_H = True\<rparr> = None \<longleftrightarrow> Rt_Log_Helper \<in> set hs)"
    by (induction hs) (auto simp: include_header_def include_rt_log_helper_def include_async_log_helper_def split: log_header.splits)
  then show "include_all hs \<lparr>LOG_HELPER_H = True, ASYNC_LOG_HELPER_H = False\<rparr> = None \<longleftrightarrow> Async_Log_Helper \<in> set hs"
    "include_all hs \<lparr>LOG_HELPER_H = False, ASYNC_LOG_HELPER_H = True\<rparr> = None \<longleftrightarrow> Rt_Log_Helper \<in> set hs" by simp_all
qed

lemma loggers_exclude_each_other:
  "include_all hs \<lparr>LOG_HELPER_H = False, ASYNC_LOG_HELPER_H = False\<rparr> = None \<longleftrightarrow>
     Rt_Log_Helper \<in> set hs \<and> Async_Log_Helper \<in> set hs"
proof (cases hs)
  case (Cons h hs')
  then show ?thesis
    by (cases h) (simp_all add: include_header_def include_rt_log_helper_def include_async_log_helper_def include_all_same)
qed simp

section \<open>Property\<close>


end
